(* ===== verification/Prelude.thy ===== *)
theory Prelude
  imports Main "HOL-Library.AList" "HOL-Library.Multiset" "HOL-Library.Monad_Syntax"
    "HOL-Library.Word"
begin

text \<open>
  What the components share: the outcome of a Go call that may return an error or panic, the
  contract of a Go map (with its interpretation on association lists, whose order is the order
  in which a \<open>range\<close> loop happens to visit the entries), and Go's \<open>sort.Slice\<close>
  with the contract of its comparison argument.
\<close>

named_theorems go_simps \<open>facts about maps and sorting used by every component\<close>

section \<open>Outcomes\<close>

text \<open>
  A Go function returning \<open>(T, error)\<close> yields \<open>Ok\<close> a value or \<open>Err\<close> a message;
  a run-time panic (an index out of range, a failed allocation) is \<open>Panic\<close>.
\<close>

datatype 'a res = Ok 'a | Err string | Panic

fun bind_res :: "'a res \<Rightarrow> ('a \<Rightarrow> 'b res) \<Rightarrow> 'b res" where
  "bind_res (Ok a) f = f a"
| "bind_res (Err e) f = Err e"
| "bind_res Panic f = Panic"

lemma bind_res_Ok [simp]: "bind_res x f = Ok b \<longleftrightarrow> (\<exists>a. x = Ok a \<and> f a = Ok b)"
  by (cases x) auto

section \<open>Go maps\<close>

text \<open>
  The contract of a Go map: lookup, assignment, \<open>delete\<close> and \<open>range\<close>. The list of
  entries a \<open>range\<close> loop sees holds every key once, in an order the language leaves open.
\<close>

locale go_map =
  fixes get :: "'m \<Rightarrow> 'k \<Rightarrow> 'v option"
    and put :: "'k \<Rightarrow> 'v \<Rightarrow> 'm \<Rightarrow> 'm"
    and del :: "'k \<Rightarrow> 'm \<Rightarrow> 'm"
    and entries :: "'m \<Rightarrow> ('k \<times> 'v) list"
    and wf :: "'m \<Rightarrow> bool"
  assumes get_put: "get (put k v m) = (get m)(k \<mapsto> v)"
    and get_del: "get (del k m) = (get m)(k := None)"
    and wf_put: "wf m \<Longrightarrow> wf (put k v m)"
    and wf_del: "wf m \<Longrightarrow> wf (del k m)"
    and entries_get: "wf m \<Longrightarrow> (k, v) \<in> set (entries m) \<longleftrightarrow> get m k = Some v"
    and entries_keys: "wf m \<Longrightarrow> distinct (map fst (entries m))"
begin

lemma get_put_same: "get (put k v m) k = Some v"
  by (simp add: get_put)

lemma get_put_other: "k' \<noteq> k \<Longrightarrow> get (put k v m) k' = get m k'"
  by (simp add: get_put)

lemma dom_entries: "wf m \<Longrightarrow> dom (get m) = fst ` set (entries m)"
  by (force simp: entries_get [symmetric])

lemma ran_entries: "wf m \<Longrightarrow> ran (get m) = snd ` set (entries m)"
  by (force simp: ran_def entries_get [symmetric])

lemma finite_dom: "wf m \<Longrightarrow> finite (dom (get m))"
  by (simp add: dom_entries)

lemma card_dom: "wf m \<Longrightarrow> card (dom (get m)) = length (entries m)"
  using distinct_card [OF entries_keys [of m]] by (simp add: dom_entries)

lemma length_put:
  assumes "wf m"
  shows "length (entries (put k v m)) =
    (if get m k = None then Suc (length (entries m)) else length (entries m))"
proof -
  have "length (entries (put k v m)) = card (insert k (dom (get m)))"
    using card_dom [OF wf_put [OF assms]] by (simp add: get_put)
  then show ?thesis
    using assms by (auto simp: card_dom finite_dom card_insert_if domIff)
qed

lemma distinct_entries: "wf m \<Longrightarrow> distinct (entries m)"
  by (metis distinct_map entries_keys)

lemma entries_perm:
  assumes "wf m" "wf m'" "get m = get m'"
  shows "mset (entries m) = mset (entries m')"
proof -
  have "set (entries m) = set (entries m')"
    using assms by (auto simp: entries_get)
  then show ?thesis
    using assms by (simp add: set_eq_iff_mset_eq_distinct distinct_entries)
qed

end

text \<open>The model's maps are association lists with distinct keys.\<close>

definition map_entries :: "('k \<times> 'v) list \<Rightarrow> ('k \<times> 'v) list" where
  "map_entries m = m"

definition map_wf :: "('k \<times> 'v) list \<Rightarrow> bool" where
  "map_wf m \<longleftrightarrow> distinct (map fst m)"

interpretation gm: go_map map_of AList.update AList.delete map_entries map_wf
  by unfold_locales
    (auto simp: map_entries_def map_wf_def update_conv' delete_conv' distinct_update
      distinct_delete restrict_map_def)

lemma map_wf_Nil [simp]: "map_wf []"
  by (simp add: map_wf_def)

lemma map_wf_Cons [simp]: "map_wf (kv # m) \<longleftrightarrow> map_of m (fst kv) = None \<and> map_wf m"
  by (auto simp: map_wf_def map_of_eq_None_iff)

lemma map_of_update [go_simps, simp]:
  "map_of (AList.update k v m) k' = (if k' = k then Some v else map_of m k')"
  by (simp add: gm.get_put)

lemma map_of_delete [go_simps, simp]:
  "map_of (AList.delete k m) k' = (if k' = k then None else map_of m k')"
  by (simp add: gm.get_del)

lemma map_wf_update [go_simps, intro, simp]: "map_wf m \<Longrightarrow> map_wf (AList.update k v m)"
  by (rule gm.wf_put)

lemma map_wf_delete [go_simps, intro, simp]: "map_wf m \<Longrightarrow> map_wf (AList.delete k m)"
  by (rule gm.wf_del)

lemma set_entries_iff: "map_wf m \<Longrightarrow> (k, v) \<in> set m \<longleftrightarrow> map_of m k = Some v"
  using gm.entries_get [of m k v] by (simp add: map_entries_def)

lemma fst_entries: "fst ` set m = dom (map_of m)"
  by (simp add: dom_map_of_conv_image_fst)

lemma length_update:
  "map_wf m \<Longrightarrow> length (AList.update k v m) =
    (if map_of m k = None then Suc (length m) else length m)"
  using gm.length_put [of m k v] by (simp add: map_entries_def)

section \<open>sort.Slice\<close>

text \<open>
  \<open>sort.Slice(xs, less)\<close> leaves \<open>xs\<close> a permutation of itself in which no element is
  \<open>less\<close> than an earlier one, provided \<open>less\<close> is a strict weak order. Which of two
  equivalent elements comes first is open for \<open>sort.Slice\<close> and the input order for
  \<open>sort.SliceStable\<close>; the model sorts stably, and where the input comes from a map its order
  is arbitrary, so that every order of equivalent elements is a behaviour of the model.
\<close>

fun insert_by :: "('a \<Rightarrow> 'a \<Rightarrow> bool) \<Rightarrow> 'a \<Rightarrow> 'a list \<Rightarrow> 'a list" where
  "insert_by lt x [] = [x]"
| "insert_by lt x (y # ys) = (if lt y x then y # insert_by lt x ys else x # y # ys)"

fun sort_slice :: "('a \<Rightarrow> 'a \<Rightarrow> bool) \<Rightarrow> 'a list \<Rightarrow> 'a list" where
  "sort_slice lt [] = []"
| "sort_slice lt (x # xs) = insert_by lt x (sort_slice lt xs)"

lemma mset_insert_by [simp]: "mset (insert_by lt x ys) = add_mset x (mset ys)"
  by (induction ys) auto

lemma mset_sort_slice [go_simps, simp]: "mset (sort_slice lt xs) = mset xs"
  by (induction xs) auto

lemma set_insert_by [simp]: "set (insert_by lt x ys) = insert x (set ys)"
  by (metis mset_insert_by set_mset_add_mset_insert set_mset_mset)

lemma set_sort_slice [go_simps, simp]: "set (sort_slice lt xs) = set xs"
  by (metis mset_sort_slice set_mset_mset)

lemma length_sort_slice [go_simps, simp]: "length (sort_slice lt xs) = length xs"
  by (metis mset_sort_slice size_mset)

lemma distinct_sort_slice [go_simps, simp]: "distinct (sort_slice lt xs) = distinct xs"
  by (metis mset_sort_slice mset_eq_imp_distinct_iff)

lemma sort_slice_Nil_iff [simp]: "sort_slice lt xs = [] \<longleftrightarrow> xs = []"
  by (metis length_0_conv length_sort_slice)

lemma distinct_map_sort_slice:
  "distinct (map f (sort_slice lt xs)) = distinct (map f xs)"
  by (metis mset_map mset_sort_slice mset_eq_imp_distinct_iff)

lemma sort_slice_sorted: "sorted_wrt (\<lambda>x y. \<not> lt y x) xs \<Longrightarrow> sort_slice lt xs = xs"
proof (induction xs)
  case (Cons x xs)
  then show ?case by (cases xs) simp_all
qed simp

text \<open>The contract of the comparison, and what sorting by it gives.\<close>

locale weak_order =
  fixes lt :: "'a \<Rightarrow> 'a \<Rightarrow> bool"
  assumes asym: "lt x y \<Longrightarrow> \<not> lt y x"
    and negtrans: "\<not> lt x y \<Longrightarrow> \<not> lt y z \<Longrightarrow> \<not> lt x z"
begin

lemma sorted_insert_by:
  "sorted_wrt (\<lambda>x y. \<not> lt y x) ys \<Longrightarrow> sorted_wrt (\<lambda>x y. \<not> lt y x) (insert_by lt x ys)"
  by (induction ys) (auto dest: asym negtrans)

lemma sorted_sort_slice: "sorted_wrt (\<lambda>x y. \<not> lt y x) (sort_slice lt xs)"
  by (induction xs) (auto intro: sorted_insert_by)

lemma hd_sort_slice: "y \<in> set xs \<Longrightarrow> \<not> lt y (hd (sort_slice lt xs))"
  using sorted_sort_slice [of xs] asym
  by (cases "sort_slice lt xs") (auto, metis set_ConsD set_sort_slice)

end

text \<open>A comparison through a sort key, the way the program writes every one of them.\<close>

locale key_order =
  fixes lt :: "'a \<Rightarrow> 'a \<Rightarrow> bool" and key :: "'a \<Rightarrow> 'k::linorder"
  assumes less_key: "lt x y \<longleftrightarrow> key x < key y"
begin

sublocale weak_order lt
  by unfold_locales (auto simp: less_key)

lemma sorted_keys: "sorted (map key (sort_slice lt xs))"
  using sorted_sort_slice [of xs] by (simp add: sorted_map less_key not_less)

lemma map_key_sort_slice: "map key (sort_slice lt xs) = sort (map key xs)"
  by (rule properties_for_sort [symmetric]) (simp_all add: sorted_keys)

text \<open>With different keys the outcome does not depend on the order of the input.\<close>

lemma sort_slice_unique:
  assumes "mset xs = mset ys" "inj_on key (set xs)"
  shows "sort_slice lt xs = sort_slice lt ys"
proof -
  have "mset (sort_slice lt xs) = mset (sort_slice lt ys)"
    using assms(1) by simp
  moreover have "map key (sort_slice lt xs) = map key (sort_slice lt ys)"
    by (metis assms(1) map_key_sort_slice mset_map sorted_list_of_multiset_mset)
  moreover have "inj_on key (set (sort_slice lt xs) \<union> set (sort_slice lt ys))"
    using assms by (metis mset_eq_setD set_sort_slice sup.idem)
  ultimately show ?thesis
    by (metis inj_on_map_eq_map)
qed

end

end
