(* ===== verification/Go_Strings.thy ===== *)
theory Go_Strings
  imports Prelude "HOL-Library.Char_ord" "HOL-Library.List_Lexorder"
begin

text \<open>
  Go's strings as the program uses them: a string is a sequence of bytes (a HOL \<open>char\<close> is
  one byte), \<open>range\<close> decodes it as UTF-8, \<open>strings.ToUpper\<close> maps and re-encodes the
  decoded runes, \<open>strings.TrimSpace\<close> drops white-space runes at both ends. The Unicode case
  table for code points from 128 on is data of the standard library and an argument \<open>uc\<close> of
  every definition that upper-cases; \<open>case_table\<close> is what the program relies on about it.
  The last part proves that normalising a word twice is the same as normalising it once.
\<close>

section \<open>Runes\<close>

abbreviation byte :: "char \<Rightarrow> nat" where
  "byte c \<equiv> of_char c"

abbreviation rune_error :: nat where
  "rune_error \<equiv> 65533"

definition is_cont :: "nat \<Rightarrow> bool" where
  "is_cont b \<longleftrightarrow> 128 \<le> b \<and> b \<le> 191"

definition starts2 :: "nat \<Rightarrow> nat \<Rightarrow> bool" where
  "starts2 b0 b1 \<longleftrightarrow> 194 \<le> b0 \<and> b0 \<le> 223 \<and> is_cont b1"

definition starts3 :: "nat \<Rightarrow> nat \<Rightarrow> nat \<Rightarrow> bool" where
  "starts3 b0 b1 b2 \<longleftrightarrow> 224 \<le> b0 \<and> b0 \<le> 239 \<and> is_cont b1 \<and> is_cont b2 \<and>
     (b0 = 224 \<longrightarrow> 160 \<le> b1) \<and> (b0 = 237 \<longrightarrow> b1 \<le> 159)"

definition starts4 :: "nat \<Rightarrow> nat \<Rightarrow> nat \<Rightarrow> nat \<Rightarrow> bool" where
  "starts4 b0 b1 b2 b3 \<longleftrightarrow> 240 \<le> b0 \<and> b0 \<le> 244 \<and> is_cont b1 \<and> is_cont b2 \<and> is_cont b3 \<and>
     (b0 = 240 \<longrightarrow> 144 \<le> b1) \<and> (b0 = 244 \<longrightarrow> b1 \<le> 143)"

definition sextets :: "nat list \<Rightarrow> nat" where
  "sextets ds = foldl (\<lambda>a d. a * 64 + d) 0 ds"

text \<open>\<open>utf8.DecodeRune\<close> on the bytes: the rune and the number of bytes it takes.\<close>

fun decode_bytes :: "nat list \<Rightarrow> nat \<times> nat" where
  "decode_bytes [] = (rune_error, 0)"
| "decode_bytes [b0] = (if b0 < 128 then (b0, 1) else (rune_error, 1))"
| "decode_bytes [b0, b1] =
    (if b0 < 128 then (b0, 1)
     else if starts2 b0 b1 then (sextets [b0 - 192, b1 - 128], 2)
     else (rune_error, 1))"
| "decode_bytes [b0, b1, b2] =
    (if b0 < 128 then (b0, 1)
     else if starts2 b0 b1 then (sextets [b0 - 192, b1 - 128], 2)
     else if starts3 b0 b1 b2 then (sextets [b0 - 224, b1 - 128, b2 - 128], 3)
     else (rune_error, 1))"
| "decode_bytes (b0 # b1 # b2 # b3 # bs) =
    (if b0 < 128 then (b0, 1)
     else if starts2 b0 b1 then (sextets [b0 - 192, b1 - 128], 2)
     else if starts3 b0 b1 b2 then (sextets [b0 - 224, b1 - 128, b2 - 128], 3)
     else if starts4 b0 b1 b2 b3 then (sextets [b0 - 240, b1 - 128, b2 - 128, b3 - 128], 4)
     else (rune_error, 1))"

lemma decode_width_pos: "bs \<noteq> [] \<Longrightarrow> 0 < snd (decode_bytes bs)"
  by (cases bs rule: decode_bytes.cases) auto

lemma decode_width_le: "snd (decode_bytes bs) \<le> length bs"
  by (cases bs rule: decode_bytes.cases) auto

text \<open>The runes a \<open>range\<close> loop over the string visits.\<close>

function byte_runes :: "nat list \<Rightarrow> nat list" where
  "byte_runes bs =
    (if bs = [] then []
     else fst (decode_bytes bs) # byte_runes (drop (snd (decode_bytes bs)) bs))"
  by pat_completeness auto
termination
  by (relation "measure length")
    (auto simp: decode_width_pos diff_less length_greater_0_conv)

declare byte_runes.simps [simp del]

definition runes :: "string \<Rightarrow> nat list" where
  "runes s = byte_runes (map byte s)"

text \<open>\<open>utf8.EncodeRune\<close>; a surrogate or an out-of-range value is written as the error rune.\<close>

definition encode_bytes :: "nat \<Rightarrow> nat list" where
  "encode_bytes r =
    (if r < 128 then [r]
     else if r < 2048 then [192 + r div 64, 128 + r mod 64]
     else if 1114111 < r \<or> 55296 \<le> r \<and> r \<le> 57343 then [239, 191, 189]
     else if r < 65536 then [224 + r div 4096, 128 + r div 64 mod 64, 128 + r mod 64]
     else [240 + r div 262144, 128 + r div 4096 mod 64, 128 + r div 64 mod 64, 128 + r mod 64])"

definition encode_rune :: "nat \<Rightarrow> string" where
  "encode_rune r = map char_of (encode_bytes r)"

section \<open>Case and white space\<close>

abbreviation is_AZ :: "nat \<Rightarrow> bool" where
  "is_AZ r \<equiv> 65 \<le> r \<and> r \<le> 90"

definition upper_rune :: "(nat \<Rightarrow> nat) \<Rightarrow> nat \<Rightarrow> nat" where
  "upper_rune uc r = (if r < 128 then (if 97 \<le> r \<and> r \<le> 122 then r - 32 else r) else uc r)"

definition to_upper :: "(nat \<Rightarrow> nat) \<Rightarrow> string \<Rightarrow> string" where
  "to_upper uc s = concat (map (\<lambda>r. encode_rune (upper_rune uc r)) (runes s))"

text \<open>\<open>unicode.IsSpace\<close>: the code points with Unicode's White\_Space property.\<close>

definition is_space :: "nat \<Rightarrow> bool" where
  "is_space r \<longleftrightarrow> r \<in> {9, 10, 11, 12, 13, 32, 133, 160, 5760, 8232, 8233, 8239, 8287, 12288} \<or>
     8192 \<le> r \<and> r \<le> 8202"

function trim_left :: "nat list \<Rightarrow> nat list" where
  "trim_left bs =
    (if bs \<noteq> [] \<and> is_space (fst (decode_bytes bs))
     then trim_left (drop (snd (decode_bytes bs)) bs) else bs)"
  by pat_completeness auto
termination
  by (relation "measure length")
    (auto simp: decode_width_pos diff_less length_greater_0_conv)

declare trim_left.simps [simp del]

function trim_right :: "nat list \<Rightarrow> nat list" where
  "trim_right bs =
    (if bs \<noteq> [] \<and> is_space (last (byte_runes bs))
     then trim_right (take (length bs - length (encode_bytes (last (byte_runes bs)))) bs) else bs)"
  by pat_completeness auto
termination
  by (relation "measure length") (auto simp: encode_bytes_def length_greater_0_conv split: if_splits)

declare trim_right.simps [simp del]

definition trim_space :: "string \<Rightarrow> string" where
  "trim_space s = map char_of (trim_right (trim_left (map byte s)))"

text \<open>The normal form of a word everywhere in the program: trimmed, then upper-cased.\<close>

definition norm_word :: "(nat \<Rightarrow> nat) \<Rightarrow> string \<Rightarrow> string" where
  "norm_word uc s = to_upper uc (trim_space s)"

section \<open>Decoding and encoding\<close>

definition valid_rune :: "nat \<Rightarrow> bool" where
  "valid_rune r \<longleftrightarrow> r \<le> 1114111 \<and> \<not> (55296 \<le> r \<and> r \<le> 57343)"

lemma sextets2: "sextets [x, y] = x * 64 + y"
  and sextets3: "sextets [x, y, z] = x * 4096 + y * 64 + z"
  and sextets4: "sextets [x, y, z, u] = x * 262144 + y * 4096 + z * 64 + u"
  by (simp_all add: sextets_def)

text \<open>A decoding step in one of five ways; the bytes are written by their payload.\<close>

lemma decode_cases:
  obtains
    (ascii) "b0 < 128" "decode_bytes (b0 # bs) = (b0, 1)"
  | (invalid) "128 \<le> b0" "decode_bytes (b0 # bs) = (rune_error, 1)"
  | (two) b1 cs where "bs = b1 # cs" "starts2 b0 b1"
      "decode_bytes (b0 # bs) = (sextets [b0 - 192, b1 - 128], 2)"
  | (three) b1 b2 cs where "bs = b1 # b2 # cs" "starts3 b0 b1 b2"
      "decode_bytes (b0 # bs) = (sextets [b0 - 224, b1 - 128, b2 - 128], 3)"
  | (four) b1 b2 b3 cs where "bs = b1 # b2 # b3 # cs" "starts4 b0 b1 b2 b3"
      "decode_bytes (b0 # bs) = (sextets [b0 - 240, b1 - 128, b2 - 128, b3 - 128], 4)"
proof (cases "b0 # bs" rule: decode_bytes.cases)
  case (2 b)
  then show thesis using ascii invalid by (cases "b0 < 128") auto
next
  case (3 b c)
  then show thesis using ascii invalid two
    by (cases "b0 < 128"; cases "starts2 b0 c") auto
next
  case (4 b c d)
  then show thesis using ascii invalid two three
    by (cases "b0 < 128"; cases "starts2 b0 c"; cases "starts3 b0 c d") auto
next
  case (5 b c d e cs)
  then show thesis using ascii invalid two three four
    by (cases "b0 < 128"; cases "starts2 b0 c"; cases "starts3 b0 c d"; cases "starts4 b0 c d e") auto
qed simp

lemma starts2_high: "starts2 b0 b1 \<Longrightarrow> \<not> b0 < 128"
  by (simp add: starts2_def)

lemma starts3_high: "starts3 b0 b1 b2 \<Longrightarrow> \<not> b0 < 128 \<and> \<not> starts2 b0 b1'"
  by (simp add: starts3_def starts2_def)

lemma starts4_high: "starts4 b0 b1 b2 b3 \<Longrightarrow> \<not> b0 < 128 \<and> \<not> starts2 b0 b1' \<and> \<not> starts3 b0 b1' b2'"
  by (simp add: starts4_def starts3_def starts2_def)

lemma decode_starts1: "b0 < 128 \<Longrightarrow> decode_bytes (b0 # bs) = (b0, 1)"
  by (cases "b0 # bs" rule: decode_bytes.cases) simp_all

lemma decode_starts2:
  "starts2 b0 b1 \<Longrightarrow> decode_bytes (b0 # b1 # bs) = (sextets [b0 - 192, b1 - 128], 2)"
  by (cases "b0 # b1 # bs" rule: decode_bytes.cases) (simp_all add: starts2_high)

lemma decode_starts3:
  "starts3 b0 b1 b2 \<Longrightarrow>
    decode_bytes (b0 # b1 # b2 # bs) = (sextets [b0 - 224, b1 - 128, b2 - 128], 3)"
  by (cases "b0 # b1 # b2 # bs" rule: decode_bytes.cases) (simp_all add: starts3_high)

lemma decode_starts4:
  "starts4 b0 b1 b2 b3 \<Longrightarrow> decode_bytes (b0 # b1 # b2 # b3 # bs) =
    (sextets [b0 - 240, b1 - 128, b2 - 128, b3 - 128], 4)"
  by (cases "b0 # b1 # b2 # b3 # bs" rule: decode_bytes.cases) (simp_all add: starts4_high)

lemmas decode_starts = decode_starts1 decode_starts2 decode_starts3 decode_starts4

lemma is_cont_payload: "is_cont b \<Longrightarrow> b - 128 < 64 \<and> 128 + (b - 128) = b \<and> 128 \<le> b"
  by (auto simp: is_cont_def)

lemma starts_cont:
  "starts2 b0 b1 \<Longrightarrow> is_cont b1"
  "starts3 b0 b1 b2 \<Longrightarrow> is_cont b1 \<and> is_cont b2"
  "starts4 b0 b1 b2 b3 \<Longrightarrow> is_cont b1 \<and> is_cont b2 \<and> is_cont b3"
  by (simp_all add: starts2_def starts3_def starts4_def)

lemma sextets_valid2: "starts2 b0 b1 \<Longrightarrow>
  128 \<le> sextets [b0 - 192, b1 - 128] \<and> sextets [b0 - 192, b1 - 128] < 2048"
  by (auto simp: starts2_def is_cont_def sextets2)

lemma sextets_valid3:
  assumes "starts3 b0 b1 b2"
  shows "2048 \<le> sextets [b0 - 224, b1 - 128, b2 - 128] \<and>
    sextets [b0 - 224, b1 - 128, b2 - 128] < 65536 \<and> valid_rune (sextets [b0 - 224, b1 - 128, b2 - 128])"
proof -
  define x y z where "x = b0 - 224" and "y = b1 - 128" and "z = b2 - 128"
  have "x < 16" "y < 64" "z < 64" "x = 0 \<longrightarrow> 32 \<le> y" "x = 13 \<longrightarrow> y < 32"
    using assms by (auto simp: x_def y_def z_def starts3_def is_cont_def)
  moreover from this have "x \<le> 12 \<or> x = 13 \<or> 14 \<le> x" by linarith
  ultimately have "2048 \<le> sextets [x, y, z] \<and> sextets [x, y, z] < 65536 \<and> valid_rune (sextets [x, y, z])"
    unfolding sextets3 valid_rune_def by linarith
  then show ?thesis by (simp add: x_def y_def z_def)
qed

lemma sextets_valid4:
  assumes "starts4 b0 b1 b2 b3"
  shows "65536 \<le> sextets [b0 - 240, b1 - 128, b2 - 128, b3 - 128] \<and>
    sextets [b0 - 240, b1 - 128, b2 - 128, b3 - 128] \<le> 1114111"
proof -
  define x y z u where "x = b0 - 240" and "y = b1 - 128" and "z = b2 - 128" and "u = b3 - 128"
  have "x < 5" "y < 64" "z < 64" "u < 64" "x = 0 \<longrightarrow> 16 \<le> y" "x = 4 \<longrightarrow> y < 16"
    using assms by (auto simp: x_def y_def z_def u_def starts4_def is_cont_def)
  moreover from this have "x < 4 \<or> x = 4" by linarith
  ultimately have "65536 \<le> sextets [x, y, z, u] \<and> sextets [x, y, z, u] \<le> 1114111"
    unfolding sextets4 by linarith
  then show ?thesis by (simp add: x_def y_def z_def u_def)
qed

lemma decode_valid: "valid_rune (fst (decode_bytes bs))"
proof (cases bs)
  case (Cons b0 cs)
  show ?thesis unfolding Cons
  proof (cases rule: decode_cases [of b0 cs])
    case (two b1 ds)
    then show "valid_rune (fst (decode_bytes (b0 # cs)))"
      using sextets_valid2 [of b0 b1] by (simp add: valid_rune_def)
  next
    case (three b1 b2 ds)
    then show "valid_rune (fst (decode_bytes (b0 # cs)))"
      using sextets_valid3 [of b0 b1 b2] by simp
  next
    case (four b1 b2 b3 ds)
    then show "valid_rune (fst (decode_bytes (b0 # cs)))"
      using sextets_valid4 [of b0 b1 b2 b3] by (simp add: valid_rune_def)
  qed (simp_all add: valid_rune_def)
qed (simp add: valid_rune_def)

lemma decode_high:
  assumes "128 \<le> b"
  shows "128 \<le> fst (decode_bytes (b # bs)) \<and>
    (\<forall>x \<in> set (take (snd (decode_bytes (b # bs))) (b # bs)). 128 \<le> x)"
proof (cases rule: decode_cases [of b bs])
  case (two b1 ds)
  then show ?thesis
    using assms sextets_valid2 [of b b1] starts_cont(1) [of b b1] is_cont_payload [of b1] by simp
next
  case (three b1 b2 ds)
  then show ?thesis
    using assms sextets_valid3 [of b b1 b2] starts_cont(2) [of b b1 b2] is_cont_payload by simp
next
  case (four b1 b2 b3 ds)
  then show ?thesis
    using assms sextets_valid4 [of b b1 b2 b3] starts_cont(3) [of b b1 b2 b3] is_cont_payload by simp
qed (use assms in simp_all)

lemma encode_bytes3: "2048 \<le> r \<Longrightarrow> r < 65536 \<Longrightarrow> valid_rune r \<Longrightarrow>
    encode_bytes r = [224 + r div 4096, 128 + r div 64 mod 64, 128 + r mod 64]"
  by (auto simp: encode_bytes_def valid_rune_def)

lemma encode_bytes4: "65536 \<le> r \<Longrightarrow> r \<le> 1114111 \<Longrightarrow>
    encode_bytes r = [240 + r div 262144, 128 + r div 4096 mod 64, 128 + r div 64 mod 64, 128 + r mod 64]"
  by (auto simp: encode_bytes_def)

lemma digit_div: "y < 64 \<Longrightarrow> (a * 64 + y) div 64 = a"
  and digit_mod: "y < 64 \<Longrightarrow> (a * 64 + y) mod 64 = y" for a y :: nat
  by simp_all

lemma digits3: "r = r div 4096 * 4096 + r div 64 mod 64 * 64 + r mod 64"
  and digits4: "r = r div 262144 * 262144 + r div 4096 mod 64 * 4096 + r div 64 mod 64 * 64 + r mod 64"
  for r :: nat
proof -
  define q p where "q = r div 64" and "p = q div 64"
  have e: "r div 4096 = p" "r div 262144 = p div 64"
    by (simp_all add: p_def q_def div_mult2_eq [symmetric])
  have "r = q * 64 + r mod 64" "q = p * 64 + q mod 64" "p = p div 64 * 64 + p mod 64"
    by (simp_all add: p_def q_def)
  then show "r = r div 4096 * 4096 + r div 64 mod 64 * 64 + r mod 64"
    and "r = r div 262144 * 262144 + r div 4096 mod 64 * 4096 + r div 64 mod 64 * 64 + r mod 64"
    unfolding e q_def [symmetric] by linarith+
qed

lemma encode_bytes_nonempty [simp]: "encode_bytes r \<noteq> []"
  by (simp add: encode_bytes_def)

lemma encode_bytes_small: "valid_rune r \<Longrightarrow> b \<in> set (encode_bytes r) \<Longrightarrow> b < 256"
  unfolding encode_bytes_def valid_rune_def by (auto split: if_splits simp: less_mult_imp_div_less)

lemma encode_sextets2:
  assumes "starts2 b0 b1"
  shows "encode_bytes (sextets [b0 - 192, b1 - 128]) = [b0, b1]"
proof -
  define x y where "x = b0 - 192" and "y = b1 - 128"
  have b: "b0 = 192 + x" "b1 = 128 + y" "y < 64"
    using assms by (auto simp: x_def y_def starts2_def is_cont_def)
  have "128 \<le> x * 64 + y \<and> x * 64 + y < 2048"
    using sextets_valid2 [OF assms] by (simp add: x_def y_def sextets2)
  then have "encode_bytes (x * 64 + y) = [192 + x, 128 + y]"
    using b(3) by (simp add: encode_bytes_def)
  then show ?thesis using b by (simp add: x_def [symmetric] y_def [symmetric] sextets2)
qed

lemma encode_sextets3:
  assumes "starts3 b0 b1 b2"
  shows "encode_bytes (sextets [b0 - 224, b1 - 128, b2 - 128]) = [b0, b1, b2]"
proof -
  define x y z where "x = b0 - 224" and "y = b1 - 128" and "z = b2 - 128"
  define r where "r = sextets [x, y, z]"
  have b: "b0 = 224 + x" "b1 = 128 + y" "b2 = 128 + z" "y < 64" "z < 64"
    using assms by (auto simp: x_def y_def z_def starts3_def is_cont_def)
  have v: "2048 \<le> r" "r < 65536" "valid_rune r"
    using sextets_valid3 [OF assms] by (simp_all add: r_def x_def y_def z_def)
  have "r = (x * 64 + y) * 64 + z" by (simp add: r_def sextets3)
  then have "r div 64 = x * 64 + y" "r mod 64 = z"
    using b(5) by (simp_all only: digit_div digit_mod)
  then have "r div 64 mod 64 = y" "r mod 64 = z" using digit_mod [OF b(4), of x] by metis+
  moreover have "r div 4096 = x" using b(4,5) by (simp add: r_def sextets3)
  ultimately have "encode_bytes r = [224 + x, 128 + y, 128 + z]"
    using encode_bytes3 [OF v] by metis
  then show ?thesis unfolding r_def x_def [symmetric] y_def [symmetric] z_def [symmetric]
    by (simp only: b(1-3))
qed

lemma encode_sextets4:
  assumes "starts4 b0 b1 b2 b3"
  shows "encode_bytes (sextets [b0 - 240, b1 - 128, b2 - 128, b3 - 128]) = [b0, b1, b2, b3]"
proof -
  define x y z u where "x = b0 - 240" and "y = b1 - 128" and "z = b2 - 128" and "u = b3 - 128"
  define r where "r = sextets [x, y, z, u]"
  have b: "b0 = 240 + x" "b1 = 128 + y" "b2 = 128 + z" "b3 = 128 + u" "y < 64" "z < 64" "u < 64"
    using assms by (auto simp: x_def y_def z_def u_def starts4_def is_cont_def)
  have v: "65536 \<le> r" "r \<le> 1114111"
    using sextets_valid4 [OF assms] by (simp_all add: r_def x_def y_def z_def u_def)
  have "r = ((x * 64 + y) * 64 + z) * 64 + u" by (simp add: r_def sextets4)
  then have "r div 64 = (x * 64 + y) * 64 + z" "r mod 64 = u"
    using b(7) by (simp_all only: digit_div digit_mod)
  then have "r div 64 mod 64 = z" "r mod 64 = u"
    using digit_mod [OF b(6), of "x * 64 + y"] by metis+
  moreover have "r div 4096 = x * 64 + y" using b(6,7) by (simp add: r_def sextets4)
  then have "r div 4096 mod 64 = y" using digit_mod [OF b(5), of x] by metis
  moreover have "r div 262144 = x" using b(5-7) by (simp add: r_def sextets4)
  ultimately have "encode_bytes r = [240 + x, 128 + y, 128 + z, 128 + u]"
    using encode_bytes4 [OF v] by metis
  then show ?thesis
    unfolding r_def x_def [symmetric] y_def [symmetric] z_def [symmetric] u_def [symmetric]
    by (simp only: b(1-4))
qed

text \<open>A rune other than the error rune was read from its own encoding.\<close>

lemma encode_decode:
  assumes "fst (decode_bytes (b # bs)) \<noteq> rune_error"
  shows "encode_bytes (fst (decode_bytes (b # bs))) = take (snd (decode_bytes (b # bs))) (b # bs)"
  using assms
  by (cases rule: decode_cases [of b bs])
    (simp_all add: encode_sextets2 encode_sextets3 encode_sextets4 encode_bytes_def [of b])

text \<open>Every valid rune is read back from its encoding.\<close>

lemma decode_encode:
  assumes "valid_rune r"
  shows "decode_bytes (encode_bytes r @ bs) = (r, length (encode_bytes r))"
proof -
  consider "r < 128" | "128 \<le> r" "r < 2048" | "2048 \<le> r" "r < 65536" | "65536 \<le> r" "r \<le> 1114111"
    using assms by (fastforce simp: valid_rune_def)
  then show ?thesis
  proof cases
    case 1
    then show ?thesis by (simp add: encode_bytes_def decode_starts)
  next
    case 2
    then have "starts2 (192 + r div 64) (128 + r mod 64)"
      by (auto simp: starts2_def is_cont_def less_mult_imp_div_less)
    with 2 show ?thesis by (simp add: encode_bytes_def decode_starts sextets2)
  next
    case 3
    have m: "r div 64 mod 64 < 64" "r mod 64 < 64" by simp_all
    note r = digits3 [of r]
    have "r div 4096 < 16" using 3 by (simp add: less_mult_imp_div_less)
    moreover have "r div 4096 = 0 \<longrightarrow> 32 \<le> r div 64 mod 64"
      using 3 r m by linarith
    moreover have "r div 4096 = 13 \<longrightarrow> r div 64 mod 64 < 32"
      using assms r m unfolding valid_rune_def by linarith
    ultimately have "starts3 (224 + r div 4096) (128 + r div 64 mod 64) (128 + r mod 64)"
      using m by (auto simp: starts3_def is_cont_def)
    then show ?thesis using r
      by (simp add: encode_bytes3 [OF 3 assms] decode_starts sextets3)
  next
    case 4
    have m: "r div 4096 mod 64 < 64" "r div 64 mod 64 < 64" "r mod 64 < 64" by simp_all
    note r = digits4 [of r]
    have "r div 262144 < 5" using 4 by (simp add: less_mult_imp_div_less)
    moreover have "r div 262144 = 0 \<longrightarrow> 16 \<le> r div 4096 mod 64"
      using 4 r m by linarith
    moreover have "r div 262144 = 4 \<longrightarrow> r div 4096 mod 64 < 16"
      using 4 r m by linarith
    ultimately have "starts4 (240 + r div 262144) (128 + r div 4096 mod 64) (128 + r div 64 mod 64)
        (128 + r mod 64)"
      using m by (auto simp: starts4_def is_cont_def)
    then show ?thesis using r
      by (simp add: encode_bytes4 [OF 4] decode_starts4 sextets4 del: decode_bytes.simps)
  qed
qed

section \<open>Runes of a string\<close>

lemma byte_runes_Nil [simp]: "byte_runes [] = []"
  by (simp add: byte_runes.simps)

lemma byte_runes_step:
  "bs \<noteq> [] \<Longrightarrow> byte_runes bs = fst (decode_bytes bs) # byte_runes (drop (snd (decode_bytes bs)) bs)"
  by (simp add: byte_runes.simps [of bs])

lemma byte_runes_Nil_iff [simp]: "byte_runes bs = [] \<longleftrightarrow> bs = []"
  by (cases "bs = []") (simp_all add: byte_runes_step)

lemma byte_runes_valid: "r \<in> set (byte_runes bs) \<Longrightarrow> valid_rune r"
proof (induction bs rule: byte_runes.induct)
  case (1 bs)
  then show ?case
    by (cases "bs = []") (auto simp: byte_runes_step decode_valid)
qed

lemma byte_runes_encode:
  assumes "valid_rune r"
  shows "byte_runes (encode_bytes r @ bs) = r # byte_runes bs"
proof -
  have "encode_bytes r @ bs \<noteq> []" by simp
  from byte_runes_step [OF this] show ?thesis
    by (simp add: decode_encode [OF assms])
qed

lemma byte_runes_concat:
  "\<forall>r \<in> set rs. valid_rune r \<Longrightarrow> byte_runes (concat (map encode_bytes rs)) = rs"
  by (induction rs) (simp_all add: byte_runes_encode)

text \<open>A \<open>range\<close> loop meets exactly the ASCII bytes as ASCII runes, in order.\<close>

lemma filter_take_high:
  fixes bs :: "nat list"
  assumes "\<forall>x \<in> set (take n bs). 128 \<le> x" and "\<And>x. P x \<Longrightarrow> x < 128"
  shows "filter P bs = filter P (drop n bs)"
proof -
  have "filter P (take n bs) = []" using assms by (fastforce simp: filter_empty_conv)
  then show ?thesis by (metis append_Nil append_take_drop_id filter_append)
qed

lemma filter_byte_runes:
  assumes "\<And>x. P x \<Longrightarrow> x < 128"
  shows "filter P (byte_runes bs) = filter P bs"
proof (induction bs rule: byte_runes.induct)
  case (1 bs)
  show ?case
  proof (cases bs)
    case (Cons b cs)
    note step = byte_runes_step [of "b # cs", simplified]
    show ?thesis
    proof (cases "b < 128")
      case True
      then show ?thesis using 1 Cons by (simp add: step decode_starts1)
    next
      case False
      then have h: "128 \<le> fst (decode_bytes bs)" "\<forall>x \<in> set (take (snd (decode_bytes bs)) bs). 128 \<le> x"
        using decode_high [of b cs] Cons by simp_all
      then have "\<not> P (fst (decode_bytes bs))" using assms by fastforce
      then have "filter P (byte_runes bs) = filter P (drop (snd (decode_bytes bs)) bs)"
        using 1 Cons byte_runes_step [of bs] by simp
      then show ?thesis using filter_take_high [OF h(2) assms] by simp
    qed
  qed simp
qed

lemma byte_runes_ascii: "\<forall>b \<in> set bs. b < 128 \<Longrightarrow> byte_runes bs = bs"
  by (induction bs) (simp_all add: byte_runes_step decode_starts1)

lemma byte_runes_all_low:
  "(\<forall>r \<in> set (byte_runes bs). r < 128) \<longleftrightarrow> (\<forall>b \<in> set bs. b < 128)"
proof (induction bs rule: byte_runes.induct)
  case (1 bs)
  show ?case
  proof (cases bs)
    case (Cons b cs)
    show ?thesis
    proof (cases "b < 128")
      case True
      then show ?thesis using 1 Cons by (simp add: byte_runes_step decode_starts1)
    next
      case False
      then show ?thesis using decode_high [of b cs] Cons
        by (auto simp: byte_runes_step not_less intro: leD)
    qed
  qed simp
qed

text \<open>For a test that only ASCII runes pass, looping over the runes and over the bytes agree.\<close>

lemma all_byte_runes:
  assumes "\<And>x. P x \<Longrightarrow> x < 128"
  shows "(\<forall>r \<in> set (byte_runes bs). P r) \<longleftrightarrow> (\<forall>b \<in> set bs. P b)"
  using byte_runes_all_low [of bs] byte_runes_ascii [of bs] assms by metis

lemma decode_prefix_Cons:
  assumes "snd (decode_bytes (b # bs)) \<le> Suc k"
  shows "decode_bytes (b # take k bs) = decode_bytes (b # bs)"
proof (cases rule: decode_cases [of b bs])
  case invalid
  have w: "snd (decode_bytes (b # bs)) = 1" using invalid by simp
  have split: "\<exists>ds. bs = xs @ ds" if "take k bs = xs @ cs" for xs cs
    using that by (metis append.assoc append_take_drop_id)
  show ?thesis
  proof (cases rule: decode_cases [of b "take k bs"])
    case (two b1 cs)
    then obtain ds where "bs = b1 # ds" using split [of "[b1]" cs] by auto
    then show ?thesis using w decode_starts2 [OF two(2), of ds] by simp
  next
    case (three b1 b2 cs)
    then obtain ds where "bs = b1 # b2 # ds" using split [of "[b1, b2]" cs] by auto
    then show ?thesis using w decode_starts3 [OF three(2), of ds] by simp
  next
    case (four b1 b2 b3 cs)
    then obtain ds where "bs = b1 # b2 # b3 # ds" using split [of "[b1, b2, b3]" cs] by auto
    then show ?thesis using w decode_starts4 [OF four(2), of ds] by simp
  qed (use invalid in simp_all)
next
  case (two b1 cs)
  then show ?thesis using assms by (cases k) (simp_all add: decode_starts2 del: decode_bytes.simps)
next
  case (three b1 b2 cs)
  then obtain j where "k = Suc (Suc j)"
    using assms by (metis Suc_le_D Suc_le_mono numeral_3_eq_3 snd_conv)
  with three show ?thesis by (simp add: decode_starts3 del: decode_bytes.simps)
next
  case (four b1 b2 b3 cs)
  then have "3 \<le> k" using assms by simp
  then obtain j where "k = Suc (Suc (Suc j))"
    by (cases k; cases "k - 1"; cases "k - 2") auto
  with four show ?thesis by (simp add: decode_starts4 del: decode_bytes.simps)
qed (simp add: decode_starts1)

lemma decode_take:
  assumes "0 < k" "snd (decode_bytes bs) \<le> k"
  shows "decode_bytes (take k bs) = decode_bytes bs"
proof (cases bs)
  case (Cons b cs)
  obtain j where "k = Suc j" using assms(1) gr0_implies_Suc by blast
  then show ?thesis using assms(2) Cons decode_prefix_Cons by simp
qed simp

lemma byte_runes_last:
  assumes "bs \<noteq> []" "last (byte_runes bs) \<noteq> rune_error"
  obtains cs where "bs = cs @ encode_bytes (last (byte_runes bs))"
    "byte_runes bs = byte_runes cs @ [last (byte_runes bs)]"
  using assms
proof (induction bs arbitrary: thesis rule: byte_runes.induct)
  case (1 bs)
  let ?n = "snd (decode_bytes bs)" and ?r = "fst (decode_bytes bs)"
  note step = byte_runes_step [OF "1.prems"(2)]
  show ?case
  proof (cases "drop ?n bs = []")
    case True
    then have "last (byte_runes bs) = ?r" "byte_runes bs = [?r]" by (simp_all add: step)
    moreover have "encode_bytes ?r = bs"
      using True calculation 1(3,4) encode_decode [of "hd bs" "tl bs"] by simp
    ultimately show ?thesis using "1.prems"(1) [of "[]"] by simp
  next
    case False
    have last: "last (byte_runes bs) = last (byte_runes (drop ?n bs))"
      using False step by simp
    obtain cs where cs: "drop ?n bs = cs @ encode_bytes (last (byte_runes bs))"
      "byte_runes (drop ?n bs) = byte_runes cs @ [last (byte_runes bs)]"
      using "1.IH" [OF "1.prems"(2) _ False] "1.prems"(3) unfolding last by blast
    let ?cs = "take ?n bs @ cs"
    have split: "bs = ?cs @ encode_bytes (last (byte_runes bs))"
      using cs(1) by (metis append.assoc append_take_drop_id)
    have n: "length (take ?n bs) = ?n" "0 < ?n"
      using decode_width_le [of bs] decode_width_pos [OF "1.prems"(2)] by simp_all
    have len: "length ?cs = ?n + length cs" using n by simp
    have "?cs = take (?n + length cs) bs"
      using split len by (metis append_eq_conv_conj)
    then have dec: "decode_bytes ?cs = decode_bytes bs"
      using decode_take [of "?n + length cs" bs] n by simp
    have "?cs \<noteq> []" using len n by (metis add_gr_0 length_greater_0_conv)
    from byte_runes_step [OF this] have "byte_runes ?cs = ?r # byte_runes cs"
      using dec n by simp
    then have "byte_runes bs = byte_runes ?cs @ [last (byte_runes bs)]"
      using step cs(2) by simp
    with split show ?thesis by (rule "1.prems"(1))
  qed
qed

section \<open>Trimming and upper-casing, on runes\<close>

definition trim_runes :: "nat list \<Rightarrow> nat list" where
  "trim_runes rs = rev (dropWhile is_space (rev (dropWhile is_space rs)))"

lemma is_space_not_error: "is_space r \<Longrightarrow> r \<noteq> rune_error"
  by (auto simp: is_space_def)

lemma trim_Nil [simp]: "trim_left [] = []" "trim_right [] = []"
  by (simp_all add: trim_left.simps [of "[]"] trim_right.simps [of "[]"])

lemma runes_trim_left: "byte_runes (trim_left bs) = dropWhile is_space (byte_runes bs)"
proof (induction bs rule: trim_left.induct)
  case (1 bs)
  then show ?case
    by (cases "bs = []") (auto simp: trim_left.simps [of bs] byte_runes_step)
qed

lemma runes_trim_right:
  "byte_runes (trim_right bs) = rev (dropWhile is_space (rev (byte_runes bs)))"
proof (induction bs rule: trim_right.induct)
  case (1 bs)
  show ?case
  proof (cases "bs \<noteq> [] \<and> is_space (last (byte_runes bs))")
    case True
    then obtain cs where "bs = cs @ encode_bytes (last (byte_runes bs))"
      "byte_runes bs = byte_runes cs @ [last (byte_runes bs)]"
      using byte_runes_last is_space_not_error by blast
    moreover from this(1)
    have "take (length bs - length (encode_bytes (last (byte_runes bs)))) bs = cs"
      by (metis append_eq_conv_conj diff_add_inverse2 length_append)
    ultimately show ?thesis
      using 1 [OF True] True trim_right.simps [of bs]
      by (metis dropWhile.simps(2) rev.simps(2) rev_eq_Cons_iff rev_rev_ident)
  next
    case False
    then show ?thesis
      by (cases "byte_runes bs" rule: rev_cases) (auto simp: trim_right.simps [of bs])
  qed
qed

lemma trim_left_subset: "set (trim_left bs) \<subseteq> set bs"
proof (induction bs rule: trim_left.induct)
  case (1 bs)
  then show ?case
    using set_drop_subset [of "snd (decode_bytes bs)" bs] by (auto simp: trim_left.simps [of bs])
qed

lemma trim_right_subset: "set (trim_right bs) \<subseteq> set bs"
proof (induction bs rule: trim_right.induct)
  case (1 bs)
  then show ?case
    using set_take_subset [of "length bs - length (encode_bytes (last (byte_runes bs)))" bs]
    by (subst trim_right.simps) (auto split: if_splits)
qed

lemma byte_char_of: "\<forall>b \<in> set bs. b < 256 \<Longrightarrow> map byte (map char_of bs) = (bs :: nat list)"
  by (induction bs) simp_all

lemma runes_trim_space: "runes (trim_space s) = trim_runes (runes s)"
proof -
  have "\<forall>b \<in> set (trim_right (trim_left (map byte s))). b < 256"
    using trim_right_subset trim_left_subset by fastforce
  then show ?thesis
    by (simp only: runes_def trim_space_def byte_char_of runes_trim_right runes_trim_left
        trim_runes_def)
qed

definition case_table :: "(nat \<Rightarrow> nat) \<Rightarrow> bool" where
  "case_table uc \<longleftrightarrow> (\<forall>r. 128 \<le> r \<longrightarrow> valid_rune r \<longrightarrow>
     valid_rune (uc r) \<and> upper_rune uc (uc r) = uc r \<and> (is_space (uc r) \<longrightarrow> is_space r))"

lemma case_tableD:
  assumes "case_table uc" "valid_rune r"
  shows "valid_rune (upper_rune uc r)" "upper_rune uc (upper_rune uc r) = upper_rune uc r"
    "is_space (upper_rune uc r) \<Longrightarrow> is_space r"
proof -
  have "valid_rune (upper_rune uc r) \<and> upper_rune uc (upper_rune uc r) = upper_rune uc r \<and>
    (is_space (upper_rune uc r) \<longrightarrow> is_space r)"
  proof (cases "r < 128")
    case True
    moreover have "\<not> is_space (r - 32)" if "97 \<le> r" "r \<le> 122"
      using that by (auto simp: is_space_def)
    ultimately show ?thesis by (auto simp: upper_rune_def valid_rune_def)
  next
    case False
    then have "upper_rune uc r = uc r" by (simp add: upper_rune_def)
    then show ?thesis using False assms by (simp add: case_table_def)
  qed
  then show "valid_rune (upper_rune uc r)" "upper_rune uc (upper_rune uc r) = upper_rune uc r"
    "is_space (upper_rune uc r) \<Longrightarrow> is_space r"
    by simp_all
qed

lemma runes_encode_all:
  assumes "\<forall>r \<in> set rs. valid_rune r"
  shows "runes (concat (map encode_rune rs)) = rs"
proof -
  have "map byte (encode_rune r) = encode_bytes r" if "valid_rune r" for r
    using encode_bytes_small [OF that] byte_char_of [of "encode_bytes r"]
    by (simp add: encode_rune_def)
  then have "map byte (concat (map encode_rune rs)) = concat (map encode_bytes rs)"
    using assms by (induction rs) simp_all
  then show ?thesis using assms by (simp add: runes_def byte_runes_concat)
qed

lemma runes_valid: "r \<in> set (runes s) \<Longrightarrow> valid_rune r"
  by (simp add: runes_def byte_runes_valid)

lemma runes_to_upper:
  "case_table uc \<Longrightarrow> runes (to_upper uc s) = map (upper_rune uc) (runes s)"
  using runes_encode_all [of "map (upper_rune uc) (runes s)"]
  by (simp add: to_upper_def case_tableD(1) runes_valid comp_def)

lemma trim_runes_subset: "set (trim_runes rs) \<subseteq> set rs"
  unfolding trim_runes_def by (metis set_dropWhileD set_rev subsetI)

lemma trim_runes_ends:
  "trim_runes rs \<noteq> [] \<Longrightarrow> \<not> is_space (hd (trim_runes rs)) \<and> \<not> is_space (last (trim_runes rs))"
proof -
  assume ne: "trim_runes rs \<noteq> []"
  let ?l = "dropWhile is_space rs"
  have "rev (trim_runes rs) = dropWhile is_space (rev ?l)" by (simp add: trim_runes_def)
  then have "\<not> is_space (last (trim_runes rs))"
    using ne hd_dropWhile [of is_space "rev ?l"] by (metis hd_rev rev_is_Nil_conv)
  moreover obtain ys where "?l = trim_runes rs @ ys"
    unfolding trim_runes_def
    by (metis rev_append rev_rev_ident takeWhile_dropWhile_id)
  with ne have "hd (trim_runes rs) = hd ?l" "?l \<noteq> []" by (metis hd_append2, auto)
  ultimately show ?thesis using hd_dropWhile [of is_space rs] by simp
qed

lemma trim_runes_id:
  assumes "rs \<noteq> [] \<Longrightarrow> \<not> is_space (hd rs) \<and> \<not> is_space (last rs)"
  shows "trim_runes rs = rs"
proof -
  have "dropWhile is_space rs = rs" using assms by (cases rs) auto
  moreover have "dropWhile is_space (rev rs) = rev rs" using assms by (cases rs rule: rev_cases) auto
  ultimately show ?thesis by (simp add: trim_runes_def)
qed

lemma runes_norm_word:
  "case_table uc \<Longrightarrow> runes (norm_word uc s) = map (upper_rune uc) (trim_runes (runes s))"
  by (simp add: norm_word_def runes_to_upper runes_trim_space)

text \<open>Normalising twice is normalising once.\<close>

lemma norm_word_idem:
  assumes "case_table uc"
  shows "norm_word uc (norm_word uc s) = norm_word uc s"
proof -
  let ?t = "trim_runes (runes s)"
  let ?w = "norm_word uc s"
  have valid: "\<forall>r \<in> set ?t. valid_rune r"
    using trim_runes_subset runes_valid by blast
  have "trim_runes (map (upper_rune uc) ?t) = map (upper_rune uc) ?t"
  proof (rule trim_runes_id)
    assume "map (upper_rune uc) ?t \<noteq> []"
    then have "?t \<noteq> []" by simp
    then show "\<not> is_space (hd (map (upper_rune uc) ?t)) \<and> \<not> is_space (last (map (upper_rune uc) ?t))"
      using trim_runes_ends valid case_tableD(3) [OF assms]
      by (metis hd_in_set hd_map last_in_set last_map)
  qed
  then have "runes (trim_space ?w) = map (upper_rune uc) ?t"
    using assms by (simp add: runes_trim_space runes_norm_word)
  then have "norm_word uc ?w = concat (map (\<lambda>r. encode_rune (upper_rune uc r)) (map (upper_rune uc) ?t))"
    by (simp only: norm_word_def [of uc ?w] to_upper_def)
  also have "\<dots> = concat (map (\<lambda>r. encode_rune (upper_rune uc r)) ?t)"
    using valid case_tableD(2) [OF assms] by (simp add: comp_def cong: map_cong)
  also have "\<dots> = ?w"
    by (simp add: norm_word_def to_upper_def runes_trim_space)
  finally show ?thesis .
qed

section \<open>Plain A--Z words\<close>

definition all_AZ :: "string \<Rightarrow> bool" where
  "all_AZ s \<longleftrightarrow> (\<forall>c \<in> set s. is_AZ (byte c))"

lemma all_AZ_simps [simp]:
  "all_AZ []" "all_AZ (c # s) \<longleftrightarrow> is_AZ (byte c) \<and> all_AZ s"
  "all_AZ (s @ t) \<longleftrightarrow> all_AZ s \<and> all_AZ t"
  by (auto simp: all_AZ_def)

lemma runes_all_AZ: "(\<forall>r \<in> set (runes s). is_AZ r) \<longleftrightarrow> all_AZ s"
  unfolding runes_def by (subst all_byte_runes) (auto simp: all_AZ_def)

lemma runes_AZ: "all_AZ s \<Longrightarrow> runes s = map byte s"
  unfolding runes_def by (rule byte_runes_ascii) (auto simp: all_AZ_def)

lemma filter_runes:
  assumes "\<And>x. P x \<Longrightarrow> x < 128"
  shows "filter P (runes s) = map byte (filter (\<lambda>c. P (byte c)) s)"
  using filter_byte_runes [OF assms] by (simp add: runes_def filter_map comp_def)

lemma count_list_filter: "count_list xs r = length (filter (\<lambda>x. x = r) xs)"
  by (induction xs) auto

lemma count_runes: "r < 128 \<Longrightarrow> count_list (runes s) r = count (mset s) (char_of r)"
proof -
  assume r: "r < 128"
  have "count_list (runes s) r = length (filter (\<lambda>x. x = r) (runes s))"
    by (rule count_list_filter)
  also have "\<dots> = length (filter (\<lambda>c. byte c = r) s)"
    using filter_runes [of "\<lambda>x. x = r" s] r by simp
  also have "\<dots> = count (mset s) (char_of r)"
    using r by (induction s) (auto simp: char_of_eq_iff)
  finally show ?thesis .
qed

lemma encode_upper_AZ: "is_AZ (byte c) \<Longrightarrow> encode_rune (upper_rune uc (byte c)) = [c]"
  by (simp add: encode_rune_def encode_bytes_def upper_rune_def)

lemma to_upper_AZ [simp]: "all_AZ s \<Longrightarrow> to_upper uc s = s"
  unfolding to_upper_def runes_AZ
  by (induction s) (simp_all add: encode_upper_AZ runes_AZ)

lemma byte_inject [simp]: "map byte s = map byte t \<longleftrightarrow> s = t"
  by (simp add: inj_map_eq_map inj_of_char)

lemma trim_space_AZ:
  assumes "all_AZ s"
  shows "trim_space s = s"
proof -
  have "\<not> is_space r" if "is_AZ r" for r using that by (auto simp: is_space_def)
  then have "trim_runes (map byte s) = map byte s"
    using assms by (intro trim_runes_id) (auto simp: all_AZ_def hd_map last_map)
  then have "byte_runes (trim_right (trim_left (map byte s))) = map byte s"
    using runes_AZ [OF assms] unfolding runes_def
    by (simp add: runes_trim_right runes_trim_left trim_runes_def)
  moreover have "\<forall>b \<in> set (trim_right (trim_left (map byte s))). b < 128"
    using trim_right_subset trim_left_subset assms
    by (fastforce simp: all_AZ_def)
  then have "byte_runes (trim_right (trim_left (map byte s))) = trim_right (trim_left (map byte s))"
    by (rule byte_runes_ascii)
  ultimately show ?thesis by (simp add: trim_space_def comp_def)
qed

lemma norm_word_AZ [simp]: "all_AZ s \<Longrightarrow> norm_word uc s = s"
  by (simp add: norm_word_def trim_space_AZ)

end
