(* ===== verification/Dictionary.thy ===== *)
theory Dictionary
  imports Go_Strings
begin

text \<open>
  \<open>internal/dictionary/dictionary.go\<close>: the set of valid words, keyed upper-case, and the two
  questions asked of it: is this a word, and which words can be spelled from these letters. A Go
  \<open>map[string]struct{}\<close> is an association list whose order is the (arbitrary) order in which a
  \<open>range\<close> loop visits it. The embedded word list is an argument, its file not being part of
  the repository. The lemmas show what a dictionary contains after loading, that the letter
  check is multiset inclusion, and the contract \<open>lexicon\<close> the scorer, the racks and the rooms
  rely on.
\<close>

type_synonym dictionary = "(string \<times> unit) list"

definition MinWordLen :: nat where
  "MinWordLen = 3"

definition isAlpha :: "string \<Rightarrow> bool" where
  "isAlpha s = list_all is_AZ (runes s)"

text \<open>One iteration of either loading loop: normalise, filter, store.\<close>

definition add_word :: "(nat \<Rightarrow> nat) \<Rightarrow> string \<Rightarrow> dictionary \<Rightarrow> dictionary" where
  "add_word uc raw d =
    (let w = norm_word uc raw
     in if length w < MinWordLen \<or> \<not> isAlpha w then d else AList.update w () d)"

definition NewFromWords :: "(nat \<Rightarrow> nat) \<Rightarrow> string list \<Rightarrow> dictionary" where
  "NewFromWords uc ws = fold (add_word uc) ws []"

text \<open>
  \<open>bufio.Scanner\<close> with \<open>ScanLines\<close>: the text split at newlines, a carriage return before the
  newline dropped, no empty last line; a line that does not fit the 1 MiB buffer ends the scan.
\<close>

definition max_line :: nat where
  "max_line = 1048576"

fun split_lines :: "string \<Rightarrow> string \<Rightarrow> string list" where
  "split_lines acc [] = (if acc = [] then [] else [rev acc])"
| "split_lines acc (c # cs) =
    (if c = CHR 0x0A then rev acc # split_lines [] cs else split_lines (c # acc) cs)"

definition drop_cr :: "string \<Rightarrow> string" where
  "drop_cr s = (if s \<noteq> [] \<and> last s = CHR 0x0D then butlast s else s)"

definition scan_lines :: "string \<Rightarrow> string list" where
  "scan_lines text = map drop_cr (takeWhile (\<lambda>l. length l < max_line) (split_lines [] text))"

definition newFromReader :: "(nat \<Rightarrow> nat) \<Rightarrow> string \<Rightarrow> dictionary" where
  "newFromReader uc text = fold (add_word uc) (scan_lines text) []"

definition New :: "(nat \<Rightarrow> nat) \<Rightarrow> string \<Rightarrow> dictionary" where
  "New uc embeddedWords = newFromReader uc embeddedWords"

definition Size :: "dictionary \<Rightarrow> int" where
  "Size d = int (length (map_entries d))"

definition AllWords :: "dictionary \<Rightarrow> string list" where
  "AllWords d = map fst (map_entries d)"

definition Contains :: "(nat \<Rightarrow> nat) \<Rightarrow> dictionary \<Rightarrow> string \<Rightarrow> bool" where
  "Contains uc d w \<longleftrightarrow> map_of d (to_upper uc w) \<noteq> None"

text \<open>The 26 counters of a letter multiset, A first.\<close>

definition bump :: "nat \<Rightarrow> nat list \<Rightarrow> nat list" where
  "bump r c = c[r - 65 := c ! (r - 65) + 1]"

definition letterCounts :: "(nat \<Rightarrow> nat) \<Rightarrow> string \<Rightarrow> nat list" where
  "letterCounts uc s =
    fold (\<lambda>r c. if 65 \<le> r \<and> r \<le> 90 then bump r c else c) (runes (to_upper uc s)) (replicate 26 0)"

fun canBuild_loop :: "nat list \<Rightarrow> nat list \<Rightarrow> nat list \<Rightarrow> bool" where
  "canBuild_loop have need [] = True"
| "canBuild_loop have need (r # rs) =
    (if r < 65 \<or> 90 < r then False
     else let need = bump r need
          in if need ! (r - 65) > have ! (r - 65) then False else canBuild_loop have need rs)"

definition canBuild :: "string \<Rightarrow> nat list \<Rightarrow> bool" where
  "canBuild word have = canBuild_loop have (replicate 26 0) (runes word)"

definition FindWords :: "(nat \<Rightarrow> nat) \<Rightarrow> dictionary \<Rightarrow> string \<Rightarrow> string list" where
  "FindWords uc d rack =
    (let have = letterCounts uc rack in filter (\<lambda>w. canBuild w have) (map fst (map_entries d)))"

section \<open>Counting letters\<close>

lemma length_bump [simp]: "length (bump r c) = length c"
  by (simp add: bump_def)

lemma bump_nth:
  "is_AZ r \<Longrightarrow> is_AZ q \<Longrightarrow> length c = 26 \<Longrightarrow>
    bump r c ! (q - 65) = (if q = r then c ! (q - 65) + 1 else c ! (q - 65))"
  by (auto simp: bump_def nth_list_update)

lemma count_fold:
  assumes "length c = 26"
  shows "length (fold (\<lambda>r c. if 65 \<le> r \<and> r \<le> 90 then bump r c else c) rs c) = 26"
    and "is_AZ q \<Longrightarrow> fold (\<lambda>r c. if 65 \<le> r \<and> r \<le> 90 then bump r c else c) rs c ! (q - 65) =
      c ! (q - 65) + count_list rs q"
  using assms by (induction rs arbitrary: c) (auto simp: bump_nth)

lemma canBuild_loop_iff:
  "length need = 26 \<Longrightarrow> canBuild_loop have need rs \<longleftrightarrow>
    (\<forall>r \<in> set rs. is_AZ r \<and> need ! (r - 65) + count_list rs r \<le> have ! (r - 65))"
proof (induction rs arbitrary: need)
  case (Cons r rs)
  show ?case
  proof (cases "is_AZ r")
    case True
    have nth: "bump r need ! (q - 65) = need ! (q - 65) + (if q = r then 1 else 0)" if "is_AZ q" for q
      using bump_nth [OF True that Cons.prems] by simp
    show ?thesis
    proof (cases "r \<in> set rs")
      case True
      then show ?thesis using Cons nth \<open>is_AZ r\<close>
        by (auto simp: not_less split: if_splits)
    next
      case False
      then show ?thesis using Cons nth \<open>is_AZ r\<close>
        by (auto simp: not_less split: if_splits)
    qed
  qed auto
qed simp

lemma zeros_nth: "is_AZ r \<Longrightarrow> replicate 26 (0::nat) ! (r - 65) = 0"
  by (rule nth_replicate) arith

text \<open>
  The letter check as dictionary and scorer both write it: what the counters hold, and what the
  check answers from them. It decides multiset inclusion of the letters.
\<close>

locale letter_fit =
  fixes up :: "string \<Rightarrow> string" and counts :: "string \<Rightarrow> nat list"
    and fits :: "string \<Rightarrow> nat list \<Rightarrow> bool"
  assumes counts_nth: "is_AZ r \<Longrightarrow> counts s ! (r - 65) = count_list (runes (up s)) r"
    and fits_counts: "fits w have \<longleftrightarrow>
      (\<forall>r \<in> set (runes w). is_AZ r \<and> count_list (runes w) r \<le> have ! (r - 65))"
begin

lemma fits_iff: "fits w (counts rack) \<longleftrightarrow> all_AZ w \<and> mset w \<subseteq># mset (up rack)"
proof (cases "all_AZ w")
  case True
  have cnt: "count_list (runes x) (byte c) = count (mset x) c" if "c \<in> set w" for x c
    using True that count_runes [of "byte c" x] by (auto simp: all_AZ_def)
  have "set (runes w) = byte ` set w"
    using runes_AZ [OF True] by simp
  then have "fits w (counts rack) \<longleftrightarrow> (\<forall>c \<in> set w. count (mset w) c \<le> count (mset (up rack)) c)"
    using True cnt by (auto simp: fits_counts counts_nth all_AZ_def)
  also have "\<dots> \<longleftrightarrow> mset w \<subseteq># mset (up rack)"
    by (auto simp: subseteq_mset_def) (metis count_mset_0_iff le0)
  finally show ?thesis using True by simp
next
  case False
  then show ?thesis using runes_all_AZ [of w] by (auto simp: fits_counts)
qed

lemma fits_mono: "fits w (counts r) \<Longrightarrow> mset (up r) \<subseteq># mset (up r') \<Longrightarrow> fits w (counts r')"
  by (auto simp: fits_iff)

lemma fits_length: "fits w (counts rack) \<Longrightarrow> length w \<le> length (up rack)"
  by (metis fits_iff size_mset size_mset_mono)

lemma fits_perm: "fits w (counts rack) \<Longrightarrow> mset w' = mset w \<Longrightarrow> fits w' (counts rack)"
  unfolding fits_iff all_AZ_def by (metis set_mset_mset)

end

interpretation dl: letter_fit "to_upper uc" "letterCounts uc" canBuild for uc
  by unfold_locales
    (auto simp: letterCounts_def count_fold canBuild_def canBuild_loop_iff zeros_nth)

section \<open>What a dictionary holds\<close>

definition dict_ok :: "dictionary \<Rightarrow> bool" where
  "dict_ok d \<longleftrightarrow> map_wf d \<and> (\<forall>w \<in> fst ` set d. MinWordLen \<le> length w \<and> all_AZ w)"

lemma isAlpha_iff [simp]: "isAlpha s \<longleftrightarrow> all_AZ s"
  by (simp add: isAlpha_def list_all_iff runes_all_AZ)

lemma fst_update: "fst ` set (AList.update k v m) = insert k (fst ` set m)"
  by (auto simp: fst_entries dom_def split: if_splits)

lemma add_word_words: "fst ` set (add_word uc raw d) =
  fst ` set d \<union> {w. w = norm_word uc raw \<and> MinWordLen \<le> length w \<and> all_AZ w}"
  by (auto simp: add_word_def Let_def fst_update)

lemma add_word_ok: "dict_ok d \<Longrightarrow> dict_ok (add_word uc raw d)"
  unfolding dict_ok_def add_word_words by (auto simp: add_word_def Let_def)

lemma fold_add_word:
  "fst ` set (fold (add_word uc) ws d) =
    fst ` set d \<union> {w. \<exists>x \<in> set ws. w = norm_word uc x \<and> MinWordLen \<le> length w \<and> all_AZ w}"
  "dict_ok d \<Longrightarrow> dict_ok (fold (add_word uc) ws d)"
  by (induction ws arbitrary: d) (auto simp: add_word_words add_word_ok)

lemma dict_ok_Nil [simp]: "dict_ok []"
  by (simp add: dict_ok_def)

lemma dict_ok_NewFromWords [simp, intro]: "dict_ok (NewFromWords uc ws)"
  by (simp add: NewFromWords_def fold_add_word(2))

lemma dict_ok_New [simp, intro]: "dict_ok (New uc text)"
  by (simp add: New_def newFromReader_def fold_add_word(2))

lemma Contains_iff: "Contains uc d w \<longleftrightarrow> to_upper uc w \<in> fst ` set d"
  by (simp add: Contains_def fst_entries dom_def)

lemma Contains_AZ: "all_AZ w \<Longrightarrow> Contains uc d w \<longleftrightarrow> w \<in> fst ` set d"
  by (simp add: Contains_iff)

lemma FindWords_iff:
  "w \<in> set (FindWords uc d rack) \<longleftrightarrow>
    all_AZ w \<and> Contains uc d w \<and> mset w \<subseteq># mset (to_upper uc rack)"
proof -
  have "w \<in> set (FindWords uc d rack) \<longleftrightarrow> w \<in> fst ` set d \<and> canBuild w (letterCounts uc rack)"
    by (auto simp: FindWords_def Let_def map_entries_def)
  then show ?thesis using Contains_AZ dl.fits_iff by blast
qed

lemma distinct_FindWords: "dict_ok d \<Longrightarrow> distinct (FindWords uc d rack)"
  by (simp add: FindWords_def Let_def map_entries_def dict_ok_def map_wf_def distinct_filter)

text \<open>The contract a dictionary offers the scorer, the rack generator and the rooms.\<close>

locale lexicon =
  fixes up :: "string \<Rightarrow> string" and contains :: "'d \<Rightarrow> string \<Rightarrow> bool"
    and find :: "'d \<Rightarrow> string \<Rightarrow> string list" and ok :: "'d \<Rightarrow> bool"
  assumes word_length: "ok d \<Longrightarrow> contains d w \<Longrightarrow> all_AZ w \<Longrightarrow> MinWordLen \<le> length w"
    and find_iff: "ok d \<Longrightarrow>
      w \<in> set (find d rack) \<longleftrightarrow> all_AZ w \<and> contains d w \<and> mset w \<subseteq># mset (up rack)"
    and find_distinct: "ok d \<Longrightarrow> distinct (find d rack)"
begin

lemma find_word_length:
  "ok d \<Longrightarrow> w \<in> set (find d rack) \<Longrightarrow> MinWordLen \<le> length w \<and> length w \<le> length (up rack)"
  by (metis find_iff word_length size_mset size_mset_mono)

lemma find_mono:
  "ok d \<Longrightarrow> mset (up r) \<subseteq># mset (up r') \<Longrightarrow> set (find d r) \<subseteq> set (find d r')"
  by (auto simp: find_iff)

lemma find_same_words:
  assumes "ok d" "ok d'" "\<And>w. all_AZ w \<Longrightarrow> contains d w = contains d' w"
    and "mset (up r) = mset (up r')"
  shows "mset (find d r) = mset (find d' r')"
proof -
  have "set (find d r) = set (find d' r')"
    using assms by (auto simp: find_iff)
  then show ?thesis using assms by (simp add: set_eq_iff_mset_eq_distinct find_distinct)
qed

lemma find_same_length:
  assumes "ok d" "ok d'" "\<And>w. all_AZ w \<Longrightarrow> contains d w = contains d' w"
  shows "length (find d r) = length (find d' r)"
  using find_same_words [OF assms refl] by (rule mset_eq_length)

end

interpretation lx: lexicon "to_upper uc" "Contains uc" "FindWords uc" dict_ok for uc
  by unfold_locales
    (auto simp: FindWords_iff distinct_FindWords Contains_AZ dict_ok_def)

section \<open>Reading the word file\<close>

lemma split_lines_app:
  "CHR 0x0A \<notin> set l \<Longrightarrow> split_lines acc (l @ CHR 0x0A # cs) = (rev acc @ l) # split_lines [] cs"
  by (induction l arbitrary: acc) auto

lemma scan_lines_unlines:
  assumes "\<And>l. l \<in> set ls \<Longrightarrow> CHR 0x0A \<notin> set l \<and> length l < max_line \<and> drop_cr l = l"
  shows "scan_lines (concat (map (\<lambda>l. l @ [CHR 0x0A]) ls)) = ls"
proof -
  have "split_lines [] (concat (map (\<lambda>l. l @ [CHR 0x0A]) ls)) = ls"
    using assms by (induction ls) (simp_all add: split_lines_app)
  moreover have "takeWhile (\<lambda>l. length l < max_line) ls = ls"
    using assms by simp
  moreover have "map drop_cr ls = ls"
    using assms by (simp add: map_idI)
  ultimately show ?thesis
    by (simp only: scan_lines_def)
qed

section \<open>Properties\<close>

text \<open>
  A dictionary built from a slice contains exactly the normalised words of the slice that are
  at least \<open>MinWordLen\<close> long and purely A--Z; \<open>Contains\<close> answers case-insensitively.
\<close>

theorem NewFromWords_contains:
  "Contains uc (NewFromWords uc ws) q \<longleftrightarrow>
    (\<exists>x \<in> set ws. to_upper uc q = norm_word uc x) \<and> MinWordLen \<le> length (to_upper uc q) \<and>
    isAlpha (to_upper uc q)"
  by (auto simp: Contains_iff NewFromWords_def fold_add_word(1))

text \<open>
  C20: \<open>FindWords\<close> returns every dictionary word whose letters, with multiplicity, are among the
  rack's (case-insensitively), and nothing else: the letter-counting check decides multiset
  inclusion.
\<close>

theorem FindWords_exact:
  "w \<in> set (FindWords uc (New uc text) rack) \<longleftrightarrow>
    isAlpha w \<and> Contains uc (New uc text) w \<and> mset w \<subseteq># mset (to_upper uc rack)"
  by (simp add: FindWords_iff)

text \<open>
  Reading the word file gives the same dictionary as building it from the file's lines, for
  lines without line terminators that fit the scanner's buffer.
\<close>

theorem New_reads_lines:
  assumes "\<And>l. l \<in> set ls \<Longrightarrow> CHR 0x0A \<notin> set l \<and> length l < max_line \<and> drop_cr l = l"
  shows "New uc (concat (map (\<lambda>l. l @ [CHR 0x0A]) ls)) = NewFromWords uc ls"
  using scan_lines_unlines [OF assms] by (simp add: New_def newFromReader_def NewFromWords_def)

theorem New_reads_lines_witness:
  "New (\<lambda>r. r) (concat (map (\<lambda>l. l @ [CHR 0x0A]) [''cat'', ''dog''])) =
    NewFromWords (\<lambda>r. r) [''cat'', ''dog'']"
  by (rule New_reads_lines) (auto simp: max_line_def drop_cr_def)

end
