(* ===== verification/Game.thy ===== *)
theory Game
  imports Dictionary
begin

text \<open>
  \<open>internal/game/score.go\<close>: the referee's judgment of a submission. The loop of \<open>Score\<close> is
  a fold over the words with the set of words seen so far and the result built so far. The lemmas
  give the verdict on every word by its position, in the order of the source's checks, and tie the
  accepted words to \<open>FindWords\<close>: a submission can never score a word the rack does not yield.
\<close>

section \<open>Model\<close>

datatype reason = ReasonTooShort | ReasonNotInRack | ReasonNotAWord | ReasonDuplicate

record WordScore =
  ws_word :: string
  ws_points :: int

record Rejection =
  rj_word :: string
  rj_reason :: reason

record game_result =
  total :: int
  accepted :: "WordScore list"
  rejected :: "Rejection list"

definition WordPoints :: "int \<Rightarrow> int" where
  "WordPoints n =
    (if n < 3 then 0
     else if n = 3 then 1
     else if n = 4 then 2
     else if n = 5 then 4
     else if n = 6 then 6
     else if n = 7 then 10
     else 10 + (n - 7) * 4)"

definition game_letterCounts :: "(nat \<Rightarrow> nat) \<Rightarrow> string \<Rightarrow> nat list" where
  "game_letterCounts uc s =
    fold (\<lambda>r c. if 65 \<le> r \<and> r \<le> 90 then bump r c else c) (runes (to_upper uc s)) (replicate 26 0)"

fun fitsRack_loop :: "nat list \<Rightarrow> nat list \<Rightarrow> nat list \<Rightarrow> bool" where
  "fitsRack_loop have need [] = True"
| "fitsRack_loop have need (r # rs) =
    (if r < 65 \<or> 90 < r then False
     else let need = bump r need
          in if need ! (r - 65) > have ! (r - 65) then False else fitsRack_loop have need rs)"

definition fitsRack :: "string \<Rightarrow> nat list \<Rightarrow> bool" where
  "fitsRack word have = fitsRack_loop have (replicate 26 0) (runes word)"

definition reject :: "string \<Rightarrow> reason \<Rightarrow> game_result \<Rightarrow> game_result" where
  "reject w why res = res\<lparr>rejected := rejected res @ [\<lparr>rj_word = w, rj_reason = why\<rparr>]\<rparr>"

definition accept :: "string \<Rightarrow> int \<Rightarrow> game_result \<Rightarrow> game_result" where
  "accept w p res =
    res\<lparr>accepted := accepted res @ [\<lparr>ws_word = w, ws_points = p\<rparr>], total := total res + p\<rparr>"

definition score_step :: "(nat \<Rightarrow> nat) \<Rightarrow> dictionary \<Rightarrow> nat list \<Rightarrow> string \<Rightarrow>
    string set \<times> game_result \<Rightarrow> string set \<times> game_result" where
  "score_step uc d have raw st =
    (let (seen, res) = st; w = norm_word uc raw
     in if w = [] then (seen, res)
        else if w \<in> seen then (seen, reject w ReasonDuplicate res)
        else let seen = insert w seen
          in if length w < MinWordLen then (seen, reject w ReasonTooShort res)
             else if \<not> fitsRack w have then (seen, reject w ReasonNotInRack res)
             else if \<not> Contains uc d w then (seen, reject w ReasonNotAWord res)
             else (seen, accept w (WordPoints (int (length w))) res))"

definition Score :: "(nat \<Rightarrow> nat) \<Rightarrow> dictionary \<Rightarrow> string \<Rightarrow> string list \<Rightarrow> game_result" where
  "Score uc d rackLetters words =
    snd (fold (score_step uc d (game_letterCounts uc rackLetters)) words
      ({}, \<lparr>total = 0, accepted = [], rejected = []\<rparr>))"

section \<open>The verdict on one word\<close>

lemma fitsRack_loop_eq: "fitsRack_loop = canBuild_loop"
proof (intro ext)
  fix h need rs
  show "fitsRack_loop h need rs = canBuild_loop h need rs"
    by (induction rs arbitrary: need) (auto simp: Let_def)
qed

lemma fitsRack_eq [simp]: "fitsRack = canBuild"
  by (intro ext) (simp add: fitsRack_def canBuild_def fitsRack_loop_eq)

lemma game_letterCounts_eq [simp]: "game_letterCounts = letterCounts"
  by (intro ext) (simp add: game_letterCounts_def letterCounts_def)

interpretation gl: letter_fit "to_upper uc" "game_letterCounts uc" fitsRack for uc
  by unfold_locales (simp_all add: dl.counts_nth dl.fits_counts)

definition verdict :: "(nat \<Rightarrow> nat) \<Rightarrow> dictionary \<Rightarrow> string \<Rightarrow> string \<Rightarrow> reason option" where
  "verdict uc d rack w =
    (if length w < MinWordLen then Some ReasonTooShort
     else if \<not> (all_AZ w \<and> mset w \<subseteq># mset (to_upper uc rack)) then Some ReasonNotInRack
     else if \<not> Contains uc d w then Some ReasonNotAWord
     else None)"

lemma verdict_None:
  assumes "dict_ok d"
  shows "verdict uc d rack w = None \<longleftrightarrow> w \<in> set (FindWords uc d rack)"
  using lx.find_word_length [OF assms, of w uc rack] by (auto simp: verdict_def FindWords_iff)

text \<open>The submission after normalisation, and what is said of its \<open>i\<close>-th word.\<close>

definition entries_of :: "(nat \<Rightarrow> nat) \<Rightarrow> string list \<Rightarrow> string list" where
  "entries_of uc words = filter (\<lambda>w. w \<noteq> []) (map (norm_word uc) words)"

definition outcome :: "(nat \<Rightarrow> nat) \<Rightarrow> dictionary \<Rightarrow> string \<Rightarrow> string list \<Rightarrow> nat \<Rightarrow> reason option" where
  "outcome uc d rack ws i =
    (if ws ! i \<in> set (take i ws) then Some ReasonDuplicate else verdict uc d rack (ws ! i))"

definition accepted_of :: "(nat \<Rightarrow> nat) \<Rightarrow> dictionary \<Rightarrow> string \<Rightarrow> string list \<Rightarrow> string list" where
  "accepted_of uc d rack ws =
    map (\<lambda>i. ws ! i) (filter (\<lambda>i. outcome uc d rack ws i = None) [0..<length ws])"

definition rejected_of :: "(nat \<Rightarrow> nat) \<Rightarrow> dictionary \<Rightarrow> string \<Rightarrow> string list \<Rightarrow> Rejection list" where
  "rejected_of uc d rack ws =
    map (\<lambda>i. \<lparr>rj_word = ws ! i, rj_reason = the (outcome uc d rack ws i)\<rparr>)
      (filter (\<lambda>i. outcome uc d rack ws i \<noteq> None) [0..<length ws])"

lemma outcome_snoc:
  "i < length ws \<Longrightarrow> outcome uc d rack (ws @ [w]) i = outcome uc d rack ws i"
  "outcome uc d rack (ws @ [w]) (length ws) =
    (if w \<in> set ws then Some ReasonDuplicate else verdict uc d rack w)"
  by (simp_all add: outcome_def nth_append)

lemma filter_outcome_snoc:
  "filter (\<lambda>i. P (outcome uc d rack (ws @ [w]) i)) [0..<length ws] =
    filter (\<lambda>i. P (outcome uc d rack ws i)) [0..<length ws]"
  by (rule filter_cong) (simp_all add: outcome_snoc(1))

lemma accepted_of_snoc: "accepted_of uc d rack (ws @ [w]) = accepted_of uc d rack ws @
    (if w \<notin> set ws \<and> verdict uc d rack w = None then [w] else [])"
  using filter_outcome_snoc [where P = "\<lambda>x. x = None"]
  by (simp add: accepted_of_def outcome_snoc(2) nth_append cong: map_cong)

lemma rejected_of_snoc: "rejected_of uc d rack (ws @ [w]) = rejected_of uc d rack ws @
    (if w \<in> set ws then [\<lparr>rj_word = w, rj_reason = ReasonDuplicate\<rparr>]
     else case verdict uc d rack w of None \<Rightarrow> [] | Some r \<Rightarrow> [\<lparr>rj_word = w, rj_reason = r\<rparr>])"
  using filter_outcome_snoc [where P = "\<lambda>x. x \<noteq> None"]
  by (auto simp: rejected_of_def outcome_snoc nth_append cong: map_cong split: option.split)

section \<open>Score computes the verdicts\<close>

definition score_state :: "(nat \<Rightarrow> nat) \<Rightarrow> dictionary \<Rightarrow> string \<Rightarrow> string list \<Rightarrow> string set \<times> game_result" where
  "score_state uc d rack ws =
    (set ws,
     \<lparr>total = (\<Sum>w \<leftarrow> accepted_of uc d rack ws. WordPoints (int (length w))),
      accepted = map (\<lambda>w. \<lparr>ws_word = w, ws_points = WordPoints (int (length w))\<rparr>)
        (accepted_of uc d rack ws),
      rejected = rejected_of uc d rack ws\<rparr>)"

lemma score_step_state:
  assumes "w = norm_word uc raw" "w \<noteq> []"
  shows "score_step uc d (game_letterCounts uc rack) raw (score_state uc d rack ws) =
    score_state uc d rack (ws @ [w])"
proof -
  have "norm_word uc raw = w" using assms by simp
  then show ?thesis
    using assms(2) unfolding score_step_def score_state_def Let_def
    by (auto simp: accepted_of_snoc rejected_of_snoc verdict_def reject_def accept_def dl.fits_iff)
qed

lemma score_fold:
  "fold (score_step uc d (game_letterCounts uc rack)) words (score_state uc d rack ws) =
    score_state uc d rack (ws @ entries_of uc words)"
proof (induction words arbitrary: ws)
  case (Cons raw words)
  show ?case
  proof (cases "norm_word uc raw = []")
    case True
    then show ?thesis using Cons by (simp add: score_step_def score_state_def entries_of_def)
  next
    case False
    then show ?thesis
      using Cons [of "ws @ [norm_word uc raw]"] by (simp add: score_step_state entries_of_def del: game_letterCounts_eq)
  qed
qed (simp add: entries_of_def)

lemma Score_eq: "Score uc d rack words = snd (score_state uc d rack (entries_of uc words))"
proof -
  have "({}, \<lparr>total = 0, accepted = [], rejected = []\<rparr>) = score_state uc d rack []"
    by (simp add: score_state_def accepted_of_def rejected_of_def)
  then show ?thesis
    using score_fold [of uc d rack words "[]"] by (simp add: Score_def del: game_letterCounts_eq)
qed

lemma Score_accepted_words:
  "map ws_word (accepted (Score uc d rack words)) = accepted_of uc d rack (entries_of uc words)"
  by (simp add: Score_eq score_state_def comp_def)

lemma set_accepted_of:
  "set (accepted_of uc d rack ws) = {w \<in> set ws. verdict uc d rack w = None}"
  by (induction ws rule: rev_induct) (auto simp: accepted_of_snoc accepted_of_def [of _ _ _ "[]"])

lemma distinct_accepted_of: "distinct (accepted_of uc d rack ws)"
  by (induction ws rule: rev_induct)
    (auto simp: accepted_of_snoc accepted_of_def [of _ _ _ "[]"] set_accepted_of)

lemma length_accepted_rejected:
  "length (accepted_of uc d rack ws) + length (rejected_of uc d rack ws) = length ws"
  using sum_length_filter_compl [of "\<lambda>i. outcome uc d rack ws i = None" "[0..<length ws]"]
  by (simp add: accepted_of_def rejected_of_def)

lemma WordPoints_nonneg [simp]: "0 \<le> WordPoints n"
  by (simp add: WordPoints_def)

lemma WordPoints_pos: "3 \<le> n \<Longrightarrow> 0 < WordPoints n"
  by (simp add: WordPoints_def)

lemma mono_WordPoints: "mono WordPoints"
  by (rule monoI) (simp add: WordPoints_def)

lemma sum_list_distinct_le:
  fixes f :: "'a \<Rightarrow> int"
  assumes "distinct xs" "distinct ys" "set xs \<subseteq> set ys" "\<And>x. 0 \<le> f x"
  shows "sum_list (map f xs) \<le> sum_list (map f ys)"
  using assms by (simp add: sum_list_distinct_conv_sum_set sum_mono2)

section \<open>Properties\<close>

text \<open>
  C10: the result of \<open>Score\<close>, branch by branch: the \<open>i\<close>-th non-blank word of the submission is a
  duplicate if it occurred before, otherwise judged too short, not in the rack, not a word or
  accepted, in this order; accepted and rejected words are reported in submission order, and the
  total is the sum of the points of the accepted words.
\<close>

theorem Score_functional:
  "Score uc d rack words =
    (let ws = entries_of uc words
     in \<lparr>total = (\<Sum>w \<leftarrow> accepted_of uc d rack ws. WordPoints (int (length w))),
         accepted = map (\<lambda>w. \<lparr>ws_word = w, ws_points = WordPoints (int (length w))\<rparr>)
           (accepted_of uc d rack ws),
         rejected = rejected_of uc d rack ws\<rparr>)"
  by (simp add: Score_eq score_state_def Let_def)

text \<open>
  C25: server-authoritative scoring: the accepted words of any submission are exactly the submitted
  words among the rack's \<open>FindWords\<close>, each once, and the total never exceeds the score of
  submitting every such word.
\<close>

theorem Score_accepts_FindWords:
  assumes "dict_ok d"
  shows "set (map ws_word (accepted (Score uc d rack words))) =
      set (entries_of uc words) \<inter> set (FindWords uc d rack) \<and>
    distinct (map ws_word (accepted (Score uc d rack words))) \<and>
    total (Score uc d rack words) \<le>
      (\<Sum>w \<leftarrow> FindWords uc d rack. WordPoints (int (length w)))"
proof (intro conjI)
  show acc: "set (map ws_word (accepted (Score uc d rack words))) =
      set (entries_of uc words) \<inter> set (FindWords uc d rack)"
    using assms by (auto simp only: Score_accepted_words set_accepted_of verdict_None)
  show "distinct (map ws_word (accepted (Score uc d rack words)))"
    by (simp only: Score_accepted_words distinct_accepted_of)
  show "total (Score uc d rack words) \<le> (\<Sum>w \<leftarrow> FindWords uc d rack. WordPoints (int (length w)))"
    using acc assms unfolding Score_accepted_words
    by (simp add: Score_eq score_state_def sum_list_distinct_le distinct_accepted_of
        lx.find_distinct)
qed

theorem Score_accepts_FindWords_witness:
  "set (map ws_word (accepted (Score (\<lambda>r. r) (NewFromWords (\<lambda>r. r) [''CAT'']) ''TACO'' [''CAT'', ''DOG'']))) =
    {''CAT''}"
proof -
  have "entries_of (\<lambda>r. r) [''CAT'', ''DOG''] = [''CAT'', ''DOG'']"
    by (simp add: entries_of_def)
  moreover have "w \<in> set (FindWords (\<lambda>r. r) (NewFromWords (\<lambda>r. r) [''CAT'']) ''TACO'') \<longleftrightarrow> w = ''CAT''" for w
    by (auto simp: FindWords_iff Contains_AZ NewFromWords_def add_word_def MinWordLen_def)
  ultimately show ?thesis
    using Score_accepts_FindWords [OF dict_ok_NewFromWords, of "\<lambda>r. r" "\<lambda>r. r" "[''CAT'']" "''TACO''"
        "[''CAT'', ''DOG'']"] by auto
qed

text \<open>
  Every non-blank word of the submission is accounted for, as accepted or as a rejection with
  its reason, and points never fall with the length of the word.
\<close>

theorem Score_accounts_for_every_word:
  "length (accepted (Score uc d rack words)) + length (rejected (Score uc d rack words)) =
    length (entries_of uc words) \<and> mono WordPoints"
  by (simp add: Score_eq score_state_def length_accepted_rejected mono_WordPoints)

end
