(* ===== verification/Trie.thy ===== *)
theory Trie
  imports Dictionary
begin

text \<open>
  \<open>internal/grid/trie.go\<close>: the prefix trie as the program stores it, a slice of nodes whose 26
  children are indices into the slice, with -1 for an absent child. Node indices are \<open>int\<close>
  (Go's \<open>int32\<close>; a trie of the word list has far fewer than \<open>2^31\<close> nodes). The lemmas show that
  every sequence of insertions keeps the slice a tree rooted at node 0 and that the trie holds
  exactly the inserted A--Z words; the contract \<open>prefix_index\<close> is what the board solver uses.
\<close>

section \<open>Model\<close>

record trieNode =
  children :: "int list"
  isWordNode :: bool

record Trie =
  nodes :: "trieNode list"

definition newNode :: trieNode where
  "newNode = \<lparr>children = replicate 26 (- 1), isWordNode = False\<rparr>"

text \<open>The loop of \<open>insert\<close> over the bytes of the word, from node \<open>cur\<close>.\<close>

fun insert_loop :: "trieNode list \<Rightarrow> int \<Rightarrow> string \<Rightarrow> trieNode list" where
  "insert_loop ns cur [] = ns[nat cur := (ns ! nat cur)\<lparr>isWordNode := True\<rparr>]"
| "insert_loop ns cur (c # cs) =
    (if byte c < 65 \<or> 90 < byte c then ns
     else
       let idx = byte c - 65;
           nxt = children (ns ! nat cur) ! idx
       in if nxt = - 1 then
            let ns = ns @ [newNode];
                nxt = int (length ns) - 1;
                ns = ns[nat cur := (ns ! nat cur)\<lparr>children := (children (ns ! nat cur))[idx := nxt]\<rparr>]
            in insert_loop ns nxt cs
          else insert_loop ns nxt cs)"

definition trie_insert :: "string \<Rightarrow> Trie \<Rightarrow> Trie" where
  "trie_insert w t = t\<lparr>nodes := insert_loop (nodes t) 0 w\<rparr>"

definition NewTrie :: "string list \<Rightarrow> Trie" where
  "NewTrie ws = fold trie_insert ws \<lparr>nodes = [newNode]\<rparr>"

definition trie_step :: "Trie \<Rightarrow> int \<Rightarrow> char \<Rightarrow> int \<times> bool" where
  "trie_step t node c =
    (if byte c < 65 \<or> 90 < byte c then (0, False)
     else let nxt = children (nodes t ! nat node) ! (byte c - 65) in (nxt, nxt \<noteq> - 1))"

definition isWord :: "Trie \<Rightarrow> int \<Rightarrow> bool" where
  "isWord t node = isWordNode (nodes t ! nat node)"

section \<open>The slice as a tree\<close>

text \<open>Following a word letter by letter from a node.\<close>

primrec follow :: "(int \<Rightarrow> char \<Rightarrow> int \<times> bool) \<Rightarrow> int \<Rightarrow> string \<Rightarrow> int option" where
  "follow stp n [] = Some n"
| "follow stp n (c # cs) = (case stp n c of (m, ok) \<Rightarrow> if ok then follow stp m cs else None)"

lemma follow_append:
  "follow stp n (u @ v) = (case follow stp n u of None \<Rightarrow> None | Some m \<Rightarrow> follow stp m v)"
  by (induction u arbitrary: n) (auto split: prod.splits)

text \<open>Every child is a later node of the slice, and no node has two parents.\<close>

abbreviation in_trie :: "Trie \<Rightarrow> int \<Rightarrow> bool" where
  "in_trie t n \<equiv> 0 \<le> n \<and> n < int (length (nodes t))"

definition trie_wf :: "Trie \<Rightarrow> bool" where
  "trie_wf t \<longleftrightarrow> nodes t \<noteq> [] \<and>
    (\<forall>nd \<in> set (nodes t). length (children nd) = 26) \<and>
    (\<forall>n c m. in_trie t n \<and> trie_step t n c = (m, True) \<longrightarrow> n < m \<and> in_trie t m) \<and>
    (\<forall>n c n' c' m. in_trie t n \<and> in_trie t n' \<and> trie_step t n c = (m, True) \<and>
      trie_step t n' c' = (m, True) \<longrightarrow> n = n' \<and> c = c')"

lemma trie_wf_root: "trie_wf t \<Longrightarrow> in_trie t 0"
  unfolding trie_wf_def by simp

lemma trie_wf_step:
  "trie_wf t \<Longrightarrow> in_trie t n \<Longrightarrow> trie_step t n c = (m, True) \<Longrightarrow> n < m \<and> in_trie t m"
  unfolding trie_wf_def by blast

lemma trie_wf_inj:
  "trie_wf t \<Longrightarrow> in_trie t n \<Longrightarrow> in_trie t n' \<Longrightarrow> trie_step t n c = (m, True) \<Longrightarrow>
    trie_step t n' c' = (m, True) \<Longrightarrow> n = n' \<and> c = c'"
  unfolding trie_wf_def by blast

lemma follow_in_trie:
  "trie_wf t \<Longrightarrow> in_trie t n \<Longrightarrow> follow (trie_step t) n u = Some m \<Longrightarrow> in_trie t m \<and> n \<le> m"
proof (induction u arbitrary: n)
  case (Cons c u)
  obtain k ok where s: "trie_step t n c = (k, ok)" by fastforce
  then have "ok" "follow (trie_step t) k u = Some m" using Cons.prems by (auto split: if_splits)
  then show ?case using Cons.IH [of k] trie_wf_step [of t n c k] Cons.prems s by auto
qed simp

text \<open>Two words that lead to the same node are the same word.\<close>

lemma follow_inj:
  assumes "trie_wf t"
  shows "follow (trie_step t) 0 u = Some m \<Longrightarrow> follow (trie_step t) 0 v = Some m \<Longrightarrow> u = v"
proof (induction u arbitrary: v m rule: rev_induct)
  case Nil
  show ?case
  proof (cases v rule: rev_cases)
    case (snoc v' c)
    then obtain n where n: "follow (trie_step t) 0 v' = Some n" "trie_step t n c = (0, True)"
      using Nil by (auto simp: follow_append split: option.splits prod.splits if_splits)
    have "in_trie t n" using follow_in_trie [OF assms trie_wf_root [OF assms] n(1)] by simp
    then show ?thesis using trie_wf_step [OF assms _ n(2)] by simp
  qed simp
next
  case (snoc c u)
  from snoc.prems(1) obtain n where n: "follow (trie_step t) 0 u = Some n" "trie_step t n c = (m, True)"
    by (auto simp: follow_append split: option.splits prod.splits if_splits)
  note root = trie_wf_root [OF assms]
  have in_n: "in_trie t n" "0 < m"
    using follow_in_trie [OF assms root n(1)] trie_wf_step [OF assms _ n(2)] by auto
  show ?case
  proof (cases v rule: rev_cases)
    case Nil
    then show ?thesis using snoc.prems(2) in_n by simp
  next
    case (snoc v' c')
    then obtain n' where n': "follow (trie_step t) 0 v' = Some n'" "trie_step t n' c' = (m, True)"
      using snoc.prems(2) by (auto simp: follow_append split: option.splits prod.splits if_splits)
    then have "n = n' \<and> c = c'"
      using trie_wf_inj [OF assms in_n(1) _ n(2) n'(2)] follow_in_trie [OF assms root n'(1)] by simp
    then show ?thesis using snoc.IH [OF n(1)] n'(1) snoc by simp
  qed
qed

section \<open>Inserting\<close>

definition trie_words :: "Trie \<Rightarrow> string set" where
  "trie_words t = {w. \<exists>n. follow (trie_step t) 0 w = Some n \<and> isWord t n}"

text \<open>The two updates of \<open>insert\<close>: a fresh node under \<open>cur\<close>, and the mark at the end.\<close>

definition grow :: "Trie \<Rightarrow> int \<Rightarrow> char \<Rightarrow> Trie" where
  "grow t cur c =
    (let ns = nodes t @ [newNode]
     in t\<lparr>nodes := ns[nat cur := (ns ! nat cur)\<lparr>children :=
       (children (ns ! nat cur))[byte c - 65 := int (length ns) - 1]\<rparr>]\<rparr>)"

definition mark :: "Trie \<Rightarrow> int \<Rightarrow> Trie" where
  "mark t cur = t\<lparr>nodes := (nodes t)[nat cur := (nodes t ! nat cur)\<lparr>isWordNode := True\<rparr>]\<rparr>"

lemma insert_loop_Nil: "insert_loop (nodes t) cur [] = nodes (mark t cur)"
  by (simp add: mark_def)

lemma insert_loop_Cons:
  "insert_loop (nodes t) cur (c # cs) =
    (if \<not> is_AZ (byte c) then nodes t
     else case trie_step t cur c of
       (nxt, True) \<Rightarrow> insert_loop (nodes t) nxt cs
     | (nxt, False) \<Rightarrow> insert_loop (nodes (grow t cur c)) (int (length (nodes t))) cs)"
  by (simp add: trie_step_def grow_def Let_def)

lemma AZ_inject: "is_AZ (byte c) \<Longrightarrow> is_AZ (byte d) \<Longrightarrow> byte c - 65 = byte d - 65 \<longleftrightarrow> c = d"
  by (auto simp: eq_diff_iff)

lemma length_grow: "length (nodes (grow t cur c)) = Suc (length (nodes t))"
  by (simp add: grow_def Let_def)

lemma children_newNode: "is_AZ r \<Longrightarrow> children newNode ! (r - 65) = - 1"
proof -
  assume "is_AZ r"
  then have "r - 65 < 26" by arith
  then show ?thesis by (simp add: newNode_def)
qed

lemma step_newNode:
  assumes "nodes t ! nat n = newNode"
  shows "snd (trie_step t n d) = False"
  using assms by (auto simp: trie_step_def Let_def children_newNode)

lemma nodes_grow:
  assumes "in_trie t cur"
  shows "nodes (grow t cur c) ! nat n =
    (if nat n = nat cur then (nodes t ! nat cur)\<lparr>children :=
       (children (nodes t ! nat cur))[byte c - 65 := int (length (nodes t))]\<rparr>
     else if nat n = length (nodes t) then newNode
     else (nodes t @ [newNode]) ! nat n)"
proof -
  have "nat cur < length (nodes t)" using assms by (simp add: nat_less_iff)
  then show ?thesis
    by (simp add: grow_def Let_def nth_list_update nth_append)
qed

lemma nodes_grow_new: "in_trie t cur \<Longrightarrow> nodes (grow t cur c) ! length (nodes t) = newNode"
  using nodes_grow [where n = "int (length (nodes t))"] by (auto simp: nat_less_iff)

lemma children_length:
  assumes "trie_wf t" "in_trie t n"
  shows "length (children (nodes t ! nat n)) = 26"
proof -
  have "\<forall>nd \<in> set (nodes t). length (children nd) = 26"
    using assms(1) unfolding trie_wf_def by blast
  then show ?thesis using assms(2) by (simp add: nat_less_iff)
qed

lemma step_grow:
  assumes "trie_wf t" "in_trie t cur" "is_AZ (byte c)" "in_trie (grow t cur c) n"
  shows "trie_step (grow t cur c) n d =
    (if n = cur \<and> d = c then (int (length (nodes t)), True)
     else if n = int (length (nodes t)) then trie_step \<lparr>nodes = [newNode]\<rparr> 0 d
     else trie_step t n d)"
proof -
  note len = children_length [OF assms(1,2)]
  consider "n = cur" | "n = int (length (nodes t))" | "n \<noteq> cur" "0 \<le> n" "n < int (length (nodes t))"
    using assms(4) by (fastforce simp: length_grow)
  then show ?thesis
  proof cases
    case 1
    have "(children (nodes t ! nat cur))[byte c - 65 := int (length (nodes t))] ! (byte d - 65) =
      (if d = c then int (length (nodes t)) else children (nodes t ! nat cur) ! (byte d - 65))"
      if "is_AZ (byte d)"
      using that assms(3) len AZ_inject [OF that assms(3)] by (auto simp: nth_list_update)
    then show ?thesis
      using 1 assms(2,3) by (auto simp: trie_step_def Let_def nodes_grow)
  next
    case 2
    then show ?thesis
      using assms(2) by (simp add: trie_step_def Let_def nodes_grow_new)
  next
    case 3
    then have "nodes (grow t cur c) ! nat n = nodes t ! nat n"
      using assms(2) by (simp add: nodes_grow nth_append nat_less_iff eq_nat_nat_iff)
    then show ?thesis using 3 by (auto simp: trie_step_def Let_def)
  qed
qed

lemma isWord_grow:
  assumes "in_trie t cur" "in_trie (grow t cur c) n"
  shows "isWord (grow t cur c) n \<longleftrightarrow> n \<noteq> int (length (nodes t)) \<and> isWord t n"
proof -
  consider "n = cur" | "n = int (length (nodes t))" | "n \<noteq> cur" "0 \<le> n" "n < int (length (nodes t))"
    using assms(2) by (fastforce simp: length_grow)
  then show ?thesis
  proof cases
    case 2
    then show ?thesis using nodes_grow_new [OF assms(1)] by (simp add: isWord_def newNode_def)
  qed (use assms(1) in \<open>auto simp: isWord_def nodes_grow nth_append eq_nat_nat_iff nat_less_iff\<close>)
qed

lemma step_empty: "trie_step \<lparr>nodes = [newNode]\<rparr> 0 d \<noteq> (m, True)"
  using step_newNode [of "\<lparr>nodes = [newNode]\<rparr>" 0 d] by auto

lemma step_grow_Some:
  assumes "trie_wf t" "in_trie t cur" "is_AZ (byte c)" "in_trie (grow t cur c) n"
  shows "trie_step (grow t cur c) n d = (m, True) \<longleftrightarrow>
    (if n = cur \<and> d = c then m = int (length (nodes t))
     else in_trie t n \<and> trie_step t n d = (m, True))"
  using step_grow [OF assms, of d] assms(4) step_empty by (auto simp: length_grow)

lemma trie_wf_grow:
  assumes "trie_wf t" "in_trie t cur" "is_AZ (byte c)"
  shows "trie_wf (grow t cur c)"
  unfolding trie_wf_def
proof (intro conjI allI ballI impI)
  let ?t = "grow t cur c"
  show "nodes ?t \<noteq> []" using length_grow [of t cur c] by auto
  fix nd assume "nd \<in> set (nodes ?t)"
  then obtain i where i: "i < Suc (length (nodes t))" "nd = nodes ?t ! i"
    by (metis in_set_conv_nth length_grow)
  show "length (children nd) = 26"
  proof (cases "i = length (nodes t)")
    case True
    then show ?thesis using i nodes_grow_new [OF assms(2)] by (simp add: newNode_def)
  next
    case False
    then have "in_trie t (int i)" using i by simp
    then show ?thesis
      using i assms nodes_grow [OF assms(2), of c "int i"] children_length [of t "int i"]
        children_length [OF assms(1,2)] by (auto simp: nth_append)
  qed
next
  let ?t = "grow t cur c"
  fix n d m assume h: "in_trie ?t n \<and> trie_step ?t n d = (m, True)"
  then consider "n = cur" "m = int (length (nodes t))" | "in_trie t n" "trie_step t n d = (m, True)"
    using step_grow_Some [OF assms, of n d m] by (auto split: if_splits)
  then have "n < m \<and> in_trie ?t m"
  proof cases
    case 1
    then show ?thesis using assms(2) by (simp add: length_grow)
  next
    case 2
    then show ?thesis using trie_wf_step [OF assms(1) 2] by (simp add: length_grow)
  qed
  then show "n < m" "0 \<le> m" "m < int (length (nodes ?t))" by simp_all
next
  let ?t = "grow t cur c"
  fix n d n' d' m
  assume h: "in_trie ?t n \<and> in_trie ?t n' \<and> trie_step ?t n d = (m, True) \<and> trie_step ?t n' d' = (m, True)"
  have old: "m < int (length (nodes t))" if "in_trie t k" "trie_step t k e = (m, True)" for k e
    using trie_wf_step [OF assms(1) that] by simp
  have a: "if n = cur \<and> d = c then m = int (length (nodes t)) else in_trie t n \<and> trie_step t n d = (m, True)"
    and b: "if n' = cur \<and> d' = c then m = int (length (nodes t)) else in_trie t n' \<and> trie_step t n' d' = (m, True)"
    using h step_grow_Some [OF assms, of n d m] step_grow_Some [OF assms, of n' d' m] by blast+
  have "n = n' \<and> d = d'"
  proof (cases "(n = cur \<and> d = c) = (n' = cur \<and> d' = c)")
    case True
    then show ?thesis
      using a b trie_wf_inj [OF assms(1), of n n' d m d'] by (cases "n = cur \<and> d = c") simp_all
  next
    case False
    then show ?thesis using a b old [of n d] old [of n' d'] by (cases "n = cur \<and> d = c") auto
  qed
  then show "n = n'" "d = d'" by simp_all
qed

lemma follow_snoc:
  "follow stp n (u @ [c]) = (case follow stp n u of None \<Rightarrow> None
    | Some m \<Rightarrow> if snd (stp m c) then Some (fst (stp m c)) else None)"
  by (auto simp: follow_append split: option.splits prod.splits)

lemma follow_grow:
  assumes "trie_wf t" "follow (trie_step t) 0 p = Some cur" "is_AZ (byte c)"
    and "snd (trie_step t cur c) = False"
  shows "follow (trie_step (grow t cur c)) 0 u =
    (if u = p @ [c] then Some (int (length (nodes t))) else follow (trie_step t) 0 u)"
proof (induction u rule: rev_induct)
  case (snoc d u)
  let ?t = "grow t cur c"
  note root = trie_wf_root [OF assms(1)]
  have cur: "in_trie t cur" using follow_in_trie [OF assms(1) root assms(2)] by simp
  note sg = step_grow [OF assms(1) cur assms(3)]
  show ?case
  proof (cases "u = p @ [c]")
    case True
    then have "\<not> snd (trie_step ?t (int (length (nodes t))) d)"
      using sg [of "int (length (nodes t))" d] cur step_empty [of d]
      by (auto simp: length_grow) (metis prod.collapse)
    moreover have "follow (trie_step t) 0 (u @ [d]) = None"
      using assms(2,4) True by (cases "trie_step t cur c") (simp add: follow_append)
    ultimately show ?thesis
      using snoc True follow_snoc [of "trie_step ?t" 0 "p @ [c]" d] by simp
  next
    case False
    show ?thesis
    proof (cases "follow (trie_step t) 0 u")
      case None
      moreover from this assms(2) have "u \<noteq> p" by auto
      ultimately show ?thesis using snoc False by (simp add: follow_snoc)
    next
      case (Some n)
      have n: "in_trie t n" using follow_in_trie [OF assms(1) root Some] by simp
      have "n = cur \<longleftrightarrow> u = p"
        using follow_inj [OF assms(1) Some, of p] assms(2) Some by fastforce
      then have eq: "u @ [d] = p @ [c] \<longleftrightarrow> n = cur \<and> d = c" by auto
      have st: "trie_step ?t n d =
          (if n = cur \<and> d = c then (int (length (nodes t)), True) else trie_step t n d)"
        using sg [of n d] n by (simp add: length_grow)
      have "follow (trie_step ?t) 0 u = Some n" using snoc False Some by simp
      then have "follow (trie_step ?t) 0 (u @ [d]) =
          (if snd (trie_step ?t n d) then Some (fst (trie_step ?t n d)) else None)"
        by (simp add: follow_snoc)
      also have "\<dots> = (if n = cur \<and> d = c then Some (int (length (nodes t)))
          else follow (trie_step t) 0 (u @ [d]))"
        unfolding st follow_snoc using Some by simp
      finally show ?thesis unfolding eq .
    qed
  qed
qed simp

lemma words_grow:
  assumes "trie_wf t" "follow (trie_step t) 0 p = Some cur" "is_AZ (byte c)"
    and "snd (trie_step t cur c) = False"
  shows "trie_words (grow t cur c) = trie_words t"
proof -
  note root = trie_wf_root [OF assms(1)]
  have cur: "in_trie t cur" using follow_in_trie [OF assms(1) root assms(2)] by simp
  have "follow (trie_step t) 0 (p @ [c]) = None"
    using assms by (simp add: follow_snoc)
  moreover have "isWord (grow t cur c) n \<longleftrightarrow> isWord t n" if "follow (trie_step t) 0 w = Some n" for w n
    using isWord_grow [OF cur, where n = n] follow_in_trie [OF assms(1) root that] by (simp add: length_grow)
  moreover have "\<not> isWord (grow t cur c) (int (length (nodes t)))"
    using isWord_grow [OF cur, where n = "int (length (nodes t))"] by (simp add: length_grow)
  ultimately show ?thesis
    unfolding trie_words_def follow_grow [OF assms] by auto
qed

lemma step_mark: "trie_step (mark t cur) = trie_step t"
proof (intro ext)
  fix n c
  have "children (nodes (mark t cur) ! nat n) = children (nodes t ! nat n)"
    by (cases "nat cur < length (nodes t)") (auto simp: mark_def nth_list_update list_update_beyond)
  then show "trie_step (mark t cur) n c = trie_step t n c"
    by (simp add: trie_step_def Let_def)
qed

lemma length_mark [simp]: "length (nodes (mark t cur)) = length (nodes t)"
  by (simp add: mark_def)

lemma set_nodes_mark:
  "nd \<in> set (nodes (mark t cur)) \<Longrightarrow> \<exists>nd' \<in> set (nodes t). children nd = children nd'"
  by (cases "nat cur < length (nodes t)")
    (auto simp: mark_def list_update_beyond dest!: set_update_subset_insert [THEN subsetD])

lemma trie_wf_mark: 
  assumes "trie_wf t"
  shows "trie_wf (mark t cur)"
proof -
  have "\<forall>nd \<in> set (nodes (mark t cur)). length (children nd) = 26"
    using assms set_nodes_mark unfolding trie_wf_def by metis
  moreover have "nodes (mark t cur) \<noteq> []"
    using trie_wf_root [OF assms] length_mark [of t cur] by (cases "nodes (mark t cur)") simp_all
  ultimately show ?thesis
    using assms unfolding trie_wf_def step_mark length_mark by blast
qed

lemma words_mark:
  assumes "trie_wf t" "follow (trie_step t) 0 p = Some cur"
  shows "trie_words (mark t cur) = insert p (trie_words t)"
proof -
  note root = trie_wf_root [OF assms(1)]
  have "isWord (mark t cur) n \<longleftrightarrow> n = cur \<or> isWord t n" if "in_trie t n" for n
    using that follow_in_trie [OF assms(1) root assms(2)]
    by (auto simp: isWord_def mark_def nth_list_update nat_less_iff)
  moreover have "w = p" if "follow (trie_step t) 0 w = Some cur" for w
    using follow_inj [OF assms(1) that assms(2)] .
  ultimately show ?thesis
    unfolding trie_words_def step_mark
    using follow_in_trie [OF assms(1) root] assms(2) by blast
qed

text \<open>The insertion loop, started at the node the prefix \<open>p\<close> leads to.\<close>

lemma insert_loop_correct:
  assumes "trie_wf t" "follow (trie_step t) 0 p = Some cur"
  shows "trie_wf (t\<lparr>nodes := insert_loop (nodes t) cur s\<rparr>) \<and>
    trie_words (t\<lparr>nodes := insert_loop (nodes t) cur s\<rparr>) =
      (if all_AZ s then insert (p @ s) (trie_words t) else trie_words t)"
  using assms
proof (induction s arbitrary: t p cur)
  case Nil
  have "t\<lparr>nodes := insert_loop (nodes t) cur []\<rparr> = mark t cur"
    by (simp add: mark_def)
  then show ?case
    using Nil trie_wf_mark words_mark by simp
next
  case (Cons c s)
  show ?case
  proof (cases "is_AZ (byte c)")
    case False
    then show ?thesis using Cons.prems by (auto simp: insert_loop_Cons simp del: insert_loop.simps)
  next
    case AZ: True
    note root = trie_wf_root [OF Cons.prems(1)]
    have cur: "in_trie t cur" using follow_in_trie [OF Cons.prems(1) root Cons.prems(2)] by simp
    obtain nxt ok where st: "trie_step t cur c = (nxt, ok)" by fastforce
    show ?thesis
    proof (cases ok)
      case True
      then have "follow (trie_step t) 0 (p @ [c]) = Some nxt"
        using Cons.prems(2) st by (simp add: follow_snoc)
      from Cons.IH [OF Cons.prems(1) this] show ?thesis
        using True AZ st by (simp add: insert_loop_Cons del: insert_loop.simps)
    next
      case False
      let ?t = "grow t cur c"
      have snd: "snd (trie_step t cur c) = False" using st False by simp
      have wf: "trie_wf ?t" by (rule trie_wf_grow [OF Cons.prems(1) cur AZ])
      have words: "trie_words ?t = trie_words t"
        by (rule words_grow [OF Cons.prems AZ snd])
      have "follow (trie_step ?t) 0 (p @ [c]) = Some (int (length (nodes t)))"
        by (simp add: follow_grow [OF Cons.prems AZ snd])
      moreover have "t\<lparr>nodes := insert_loop (nodes t) cur (c # s)\<rparr> =
        ?t\<lparr>nodes := insert_loop (nodes ?t) (int (length (nodes t))) s\<rparr>"
        using AZ st False by (simp add: insert_loop_Cons grow_def Let_def del: insert_loop.simps)
      ultimately show ?thesis
        using Cons.IH [OF wf] AZ words by simp
    qed
  qed
qed

lemma trie_insert_correct:
  assumes "trie_wf t"
  shows "trie_wf (trie_insert w t)"
    and "trie_words (trie_insert w t) = (if all_AZ w then insert w (trie_words t) else trie_words t)"
  using insert_loop_correct [OF assms, of "[]" 0 w] by (simp_all add: trie_insert_def)

lemma trie_wf_empty: "trie_wf \<lparr>nodes = [newNode]\<rparr>"
proof -
  let ?e = "\<lparr>nodes = [newNode]\<rparr>"
  have leaf: "trie_step ?e n c \<noteq> (m, True)" if "in_trie ?e n" for n c m
  proof -
    have "n = 0" using that by simp
    then show ?thesis using step_empty by simp
  qed
  have "\<forall>nd \<in> set (nodes ?e). length (children nd) = 26" "nodes ?e \<noteq> []"
    by (simp_all add: newNode_def)
  then show ?thesis unfolding trie_wf_def using leaf by blast
qed

lemma trie_words_empty: "trie_words \<lparr>nodes = [newNode]\<rparr> = {}"
proof -
  have "follow (trie_step \<lparr>nodes = [newNode]\<rparr>) 0 w = (if w = [] then Some 0 else None)" for w
    using step_empty by (cases w) (auto split: prod.splits)
  then show ?thesis by (auto simp: trie_words_def isWord_def newNode_def)
qed

lemma fold_trie_insert:
  "trie_wf t \<Longrightarrow> trie_wf (fold trie_insert ws t) \<and>
    trie_words (fold trie_insert ws t) = trie_words t \<union> {w \<in> set ws. all_AZ w}"
  by (induction ws arbitrary: t) (auto simp: trie_insert_correct)

lemma NewTrie_correct: "trie_wf (NewTrie ws)" "trie_words (NewTrie ws) = {w \<in> set ws. all_AZ w}"
  using fold_trie_insert [OF trie_wf_empty] by (simp_all add: NewTrie_def trie_words_empty)

text \<open>
  What a search driven by the trie relies on: following the steps from the root decides membership,
  and every step leads to a later node, so that no search path is longer than the trie.
\<close>

locale prefix_index =
  fixes step :: "'t \<Rightarrow> int \<Rightarrow> char \<Rightarrow> int \<times> bool" and final :: "'t \<Rightarrow> int \<Rightarrow> bool"
    and lang :: "'t \<Rightarrow> string set" and bound :: "'t \<Rightarrow> int" and wf :: "'t \<Rightarrow> bool"
  assumes lang_follow: "wf t \<Longrightarrow> w \<in> lang t \<longleftrightarrow> (\<exists>n. follow (step t) 0 w = Some n \<and> final t n)"
    and root_bound: "wf t \<Longrightarrow> 0 < bound t"
    and step_later: "wf t \<Longrightarrow> 0 \<le> n \<Longrightarrow> n < bound t \<Longrightarrow> step t n c = (m, True) \<Longrightarrow>
      n < m \<and> m < bound t"
begin

lemma prefix_alive:
  "wf t \<Longrightarrow> u @ v \<in> lang t \<Longrightarrow> follow (step t) 0 u \<noteq> None"
  by (auto simp: lang_follow follow_append split: option.splits)

lemma follow_length:
  "wf t \<Longrightarrow> 0 \<le> n \<Longrightarrow> n < bound t \<Longrightarrow> follow (step t) n u = Some m \<Longrightarrow> n + int (length u) \<le> m \<and> m < bound t"
proof (induction u arbitrary: n)
  case (Cons c u)
  then obtain k where "step t n c = (k, True)" "follow (step t) k u = Some m"
    by (auto split: prod.splits if_splits)
  then show ?case using Cons.IH [of k] step_later [of t n c k] Cons.prems by auto
qed simp

lemma word_length: "wf t \<Longrightarrow> w \<in> lang t \<Longrightarrow> int (length w) < bound t"
  using follow_length [of t 0 w] root_bound [of t] by (auto simp: lang_follow)

end

interpretation ti: prefix_index trie_step isWord trie_words "\<lambda>t. int (length (nodes t))" trie_wf
proof unfold_locales
  fix t w assume "trie_wf t"
  show "w \<in> trie_words t \<longleftrightarrow> (\<exists>n. follow (trie_step t) 0 w = Some n \<and> isWord t n)"
    by (simp add: trie_words_def)
next
  fix t assume "trie_wf t" then show "0 < int (length (nodes t))"
    using trie_wf_root by simp
next
  fix t n c m
  assume "trie_wf t" "0 \<le> n" "n < int (length (nodes t))" "trie_step t n c = (m, True)"
  then show "n < m \<and> m < int (length (nodes t))"
    using trie_wf_step by blast
qed

section \<open>Properties\<close>

text \<open>
  C21: the trie built from any list of words, in any order and with duplicates, holds exactly the
  words of the list that consist of A--Z only, and its slice of nodes is a tree rooted at node 0.
\<close>

theorem NewTrie_holds_words:
  "trie_wf (NewTrie ws) \<and>
    (\<exists>n. follow (trie_step (NewTrie ws)) 0 w = Some n \<and> isWord (NewTrie ws) n) =
      (w \<in> set ws \<and> isAlpha w)"
proof (rule conjI)
  show "trie_wf (NewTrie ws)" by (rule NewTrie_correct(1))
  have "w \<in> trie_words (NewTrie ws) \<longleftrightarrow> w \<in> set ws \<and> isAlpha w"
    by (simp add: NewTrie_correct(2))
  then show "(\<exists>n. follow (trie_step (NewTrie ws)) 0 w = Some n \<and> isWord (NewTrie ws) n) =
      (w \<in> set ws \<and> isAlpha w)"
    by (simp only: trie_words_def mem_Collect_eq)
qed

text \<open>
  The constructor is not case-insensitive, unlike its comment says: a word inserted in lower case
  is not found.
\<close>

theorem NewTrie_lower_case_skipped:
  "\<not> (\<exists>n. follow (trie_step (NewTrie [''cat''])) 0 ''CAT'' = Some n \<and> isWord (NewTrie [''cat'']) n)"
proof -
  have "''CAT'' \<notin> trie_words (NewTrie [''cat''])"
    by (simp add: NewTrie_correct(2))
  then show ?thesis by (simp only: trie_words_def mem_Collect_eq not_False_eq_True simp_thms)
qed

end
