(* ===== verification/Solve.thy ===== *)
theory Solve
  imports Trie
begin

unbundle bit_operations_syntax

text \<open>
  \<open>internal/grid/solve.go\<close>: the depth-first search for every word on a board, with the used
  cells in a \<open>uint64\<close> bit mask. A result of \<open>None\<close> is an index out of range of the letters (a
  panic) or an exhausted recursion bound; the bound, one more than the number of trie nodes, is
  always enough, because every level of the search moves to a later node of the trie. The main
  lemma says that on a board of at most 64 cells the search finds exactly the words spelled by
  paths of adjacent, pairwise different cells.
\<close>

section \<open>Model\<close>

text \<open>The set of words found: a \<open>map[string]struct{}\<close>.\<close>

type_synonym found = "(string \<times> unit) list"

definition offsets :: "int list" where
  "offsets = [-1, 0, 1]"

definition neighbours :: "int \<Rightarrow> int \<Rightarrow> int \<Rightarrow> int list" where
  "neighbours w h cell =
    (let row = cell div w; col = cell mod w
     in concat (map (\<lambda>dr. concat (map (\<lambda>dc.
          if dr = 0 \<and> dc = 0 then []
          else let nr = row + dr; nc = col + dc
               in if nr < 0 \<or> nr \<ge> h \<or> nc < 0 \<or> nc \<ge> w then [] else [nr * w + nc])
        offsets)) offsets))"

fun fold_opt :: "('a \<Rightarrow> 's \<Rightarrow> 's option) \<Rightarrow> 'a list \<Rightarrow> 's \<Rightarrow> 's option" where
  "fold_opt f [] s = Some s"
| "fold_opt f (x # xs) s = Option.bind (f x s) (fold_opt f xs)"

primrec dfs :: "nat \<Rightarrow> Trie \<Rightarrow> string \<Rightarrow> int \<Rightarrow> int \<Rightarrow> int \<Rightarrow> int \<Rightarrow> 64 word \<Rightarrow> string \<Rightarrow> found \<Rightarrow>
    found option" where
  "dfs 0 t letters w h cell node used buf found = None"
| "dfs (Suc fuel) t letters w h cell node used buf found =
    (let bit = push_bit (nat cell) (1 :: 64 word)
     in if used AND bit \<noteq> 0 then Some found
        else if \<not> nat cell < length letters then None
        else case trie_step t node (letters ! nat cell) of
          (nxt, False) \<Rightarrow> Some found
        | (nxt, True) \<Rightarrow>
            let buf = buf @ [letters ! nat cell];
                used = used OR bit;
                found = (if isWord t nxt \<and> MinWordLen \<le> length buf
                         then AList.update buf () found else found)
            in fold_opt (\<lambda>nb found. dfs fuel t letters w h nb nxt used buf found)
                 (neighbours w h cell) found)"

definition Solve :: "Trie \<Rightarrow> string \<Rightarrow> int \<Rightarrow> int \<Rightarrow> string list option" where
  "Solve t letters w h =
    map_option (map fst)
      (fold_opt (\<lambda>start found. dfs (Suc (length (nodes t))) t letters w h start 0 0 [] found)
        [0..w * h - 1] [])"

section \<open>Paths on the board\<close>

text \<open>Two cells of a board of width \<open>w\<close> touch, in one of the eight directions.\<close>

definition adjacent :: "int \<Rightarrow> int \<Rightarrow> int \<Rightarrow> bool" where
  "adjacent w a b \<longleftrightarrow> a \<noteq> b \<and> \<bar>a div w - b div w\<bar> \<le> 1 \<and> \<bar>a mod w - b mod w\<bar> \<le> 1"

text \<open>A non-empty path of adjacent cells of the board, none of them in \<open>U\<close> and none visited twice.\<close>

fun trail :: "int \<Rightarrow> int \<Rightarrow> int set \<Rightarrow> int list \<Rightarrow> bool" where
  "trail w h U [] = False"
| "trail w h U (c # cs) =
    (0 \<le> c \<and> c < w * h \<and> c \<notin> U \<and>
     (cs = [] \<or> adjacent w c (hd cs) \<and> trail w h (insert c U) cs))"

definition spell :: "string \<Rightarrow> int list \<Rightarrow> string" where
  "spell letters p = map (\<lambda>c. letters ! nat c) p"

lemma spell_simps [simp]: "spell letters [] = []"
  "spell letters (c # cs) = letters ! nat c # spell letters cs"
  by (simp_all add: spell_def)

lemma mem_neighbours: "b \<in> set (neighbours w h cell) \<longleftrightarrow>
  (\<exists>dr \<in> set offsets. \<exists>dc \<in> set offsets. \<not> (dr = 0 \<and> dc = 0) \<and>
    0 \<le> cell div w + dr \<and> cell div w + dr < h \<and> 0 \<le> cell mod w + dc \<and> cell mod w + dc < w \<and>
    b = (cell div w + dr) * w + (cell mod w + dc))"
  unfolding neighbours_def Let_def by (auto simp: not_less not_le)

lemma set_neighbours:
  assumes "0 < w" "0 \<le> cell" "cell < w * h"
  shows "set (neighbours w h cell) = {b. 0 \<le> b \<and> b < w * h \<and> adjacent w cell b}"
proof (intro equalityI subsetI)
  fix b assume "b \<in> set (neighbours w h cell)"
  then obtain dr dc where d: "dr \<in> set offsets" "dc \<in> set offsets" "\<not> (dr = 0 \<and> dc = 0)"
    "0 \<le> cell div w + dr" "cell div w + dr < h" "0 \<le> cell mod w + dc" "cell mod w + dc < w"
    "b = (cell div w + dr) * w + (cell mod w + dc)"
    unfolding mem_neighbours by auto
  then have dm: "b div w = cell div w + dr" "b mod w = cell mod w + dc"
    using assms(1) by simp_all
  have "b < w * h"
  proof -
    have "b < (cell div w + dr) * w + w" using d(7,8) by linarith
    also have "\<dots> = (cell div w + dr + 1) * w" by (simp add: distrib_right)
    also have "\<dots> \<le> h * w" using d(5) assms(1) by (intro mult_right_mono) auto
    finally show ?thesis by (simp add: mult.commute)
  qed
  moreover have "0 \<le> b" using d assms(1) by simp
  moreover have "cell \<noteq> b" using dm d(3) by auto
  ultimately show "b \<in> {b. 0 \<le> b \<and> b < w * h \<and> adjacent w cell b}"
    using d(1,2) by (auto simp: adjacent_def dm offsets_def)
next
  fix b assume b: "b \<in> {b. 0 \<le> b \<and> b < w * h \<and> adjacent w cell b}"
  let ?dr = "b div w - cell div w" and ?dc = "b mod w - cell mod w"
  have "\<not> (?dr = 0 \<and> ?dc = 0)"
  proof
    assume "?dr = 0 \<and> ?dc = 0"
    then have "b div w * w + b mod w = cell div w * w + cell mod w" by simp
    then show False using b by (simp add: adjacent_def)
  qed
  moreover have "?dr \<in> set offsets" "?dc \<in> set offsets"
    using b by (auto simp: adjacent_def offsets_def abs_le_iff)
  moreover have "b div w < h"
  proof (rule ccontr)
    assume "\<not> b div w < h"
    then have "w * h \<le> w * (b div w)" using assms(1) by simp
    also have "\<dots> \<le> b"
      using minus_mod_eq_mult_div [of b w] pos_mod_sign [OF assms(1), of b] by linarith
    finally show False using b by simp
  qed
  moreover have "0 \<le> b div w" "0 \<le> b mod w" "b mod w < w"
    using b assms(1) by (simp_all add: pos_imp_zdiv_nonneg_iff)
  moreover have "b = (cell div w + ?dr) * w + (cell mod w + ?dc)" by simp
  ultimately show "b \<in> set (neighbours w h cell)"
    unfolding mem_neighbours by (intro bexI [of _ ?dr] bexI [of _ ?dc]) simp_all
qed

section \<open>What the search collects\<close>

definition used_set :: "64 word \<Rightarrow> int set" where
  "used_set used = {c. 0 \<le> c \<and> bit used (nat c)}"

lemma used_test:
  "0 \<le> c \<Longrightarrow> c < 64 \<Longrightarrow> used AND push_bit (nat c) (1 :: 64 word) \<noteq> 0 \<longleftrightarrow> c \<in> used_set used"
  by (simp add: used_set_def bit_iff_and_push_bit_not_eq_0)

lemma used_insert:
  assumes "0 \<le> c" "c < 64"
  shows "used_set (used OR push_bit (nat c) (1 :: 64 word)) = insert c (used_set used)"
proof -
  have "nat c < 64" using assms by (simp add: nat_less_iff)
  then have "bit (push_bit (nat c) (1 :: 64 word)) k \<longleftrightarrow> k = nat c" for k
    by (auto simp: bit_simps)
  then show ?thesis
    using assms by (auto simp: used_set_def bit_or_iff)
qed

text \<open>The words a call of \<open>dfs\<close> at \<open>cell\<close> with these arguments adds.\<close>

definition words_from :: "Trie \<Rightarrow> string \<Rightarrow> int \<Rightarrow> int \<Rightarrow> int set \<Rightarrow> int \<Rightarrow> int \<Rightarrow> string \<Rightarrow> string set" where
  "words_from t letters w h U cell node buf =
    {buf @ spell letters p |p. trail w h U p \<and> hd p = cell \<and>
      (\<exists>n. follow (trie_step t) node (spell letters p) = Some n \<and> isWord t n) \<and>
      MinWordLen \<le> length (buf @ spell letters p)}"

lemma trail_start:
  assumes "trail w h U p" "hd p = cell"
  obtains "p = [cell]" "cell \<notin> U"
  | q where "p = cell # q" "cell \<notin> U" "adjacent w cell (hd q)" "trail w h (insert cell U) q"
  using assms by (cases p; cases "tl p") auto

lemma trail_range: "trail w h U p \<Longrightarrow> 0 \<le> hd p \<and> hd p < w * h"
  by (cases p) auto

lemma words_from_used: "cell \<in> U \<Longrightarrow> words_from t letters w h U cell node buf = {}"
  by (auto simp: words_from_def elim: trail_start)

lemma words_from_dead:
  "trie_step t node (letters ! nat cell) = (m, False) \<Longrightarrow> words_from t letters w h U cell node buf = {}"
proof -
  assume dead: "trie_step t node (letters ! nat cell) = (m, False)"
  have "follow (trie_step t) node (spell letters p) = None" if "trail w h U p" "hd p = cell" for p
    using that dead by (cases p) auto
  then show ?thesis by (auto simp: words_from_def)
qed

lemma words_from_step:
  assumes "0 < w" "0 \<le> cell" "cell < w * h" "cell \<notin> U"
    and "trie_step t node (letters ! nat cell) = (m, True)"
  shows "words_from t letters w h U cell node buf =
    (if isWord t m \<and> MinWordLen \<le> length (buf @ [letters ! nat cell])
     then {buf @ [letters ! nat cell]} else {}) \<union>
    (\<Union>nb \<in> set (neighbours w h cell).
      words_from t letters w h (insert cell U) nb m (buf @ [letters ! nat cell]))"
    (is "?L = ?A \<union> ?B")
proof (intro equalityI subsetI)
  fix x assume "x \<in> ?L"
  then obtain p n where p: "x = buf @ spell letters p" "trail w h U p" "hd p = cell"
    "follow (trie_step t) node (spell letters p) = Some n" "isWord t n" "MinWordLen \<le> length x"
    by (auto simp: words_from_def)
  from p(2,3) show "x \<in> ?A \<union> ?B"
  proof (cases rule: trail_start)
    case 1
    then show ?thesis using p assms(5) by simp
  next
    case (2 q)
    then have "hd q \<in> set (neighbours w h cell)"
      using trail_range set_neighbours [OF assms(1-3)] by blast
    moreover have "x \<in> words_from t letters w h (insert cell U) (hd q) m (buf @ [letters ! nat cell])"
      unfolding words_from_def using 2 p assms(5) by auto
    ultimately show ?thesis by blast
  qed
next
  fix x assume "x \<in> ?A \<union> ?B"
  then consider "x \<in> ?A" | nb where "nb \<in> set (neighbours w h cell)"
    "x \<in> words_from t letters w h (insert cell U) nb m (buf @ [letters ! nat cell])"
    by blast
  then show "x \<in> ?L"
  proof cases
    case 1
    then show ?thesis unfolding words_from_def using assms
      by (auto intro!: exI [of _ "[cell]"] split: if_splits)
  next
    case 2
    then obtain q n where q: "x = (buf @ [letters ! nat cell]) @ spell letters q"
      "trail w h (insert cell U) q" "hd q = nb"
      "follow (trie_step t) m (spell letters q) = Some n" "isWord t n" "MinWordLen \<le> length x"
      by (auto simp: words_from_def)
    have "adjacent w cell nb" using 2(1) set_neighbours [OF assms(1-3)] by simp
    then have "trail w h U (cell # q)" using q assms by (cases q) auto
    then show ?thesis unfolding words_from_def
      using q assms(5) by (auto intro!: exI [of _ "cell # q"])
  qed
qed

lemma fold_opt_collects:
  assumes "\<And>x s. x \<in> set xs \<Longrightarrow> map_wf s \<Longrightarrow>
    \<exists>s'. f x s = Some s' \<and> map_wf s' \<and> fst ` set s' = fst ` set s \<union> A x"
    and "map_wf s"
  shows "\<exists>s'. fold_opt f xs s = Some s' \<and> map_wf s' \<and> fst ` set s' = fst ` set s \<union> (\<Union>x \<in> set xs. A x)"
  using assms
proof (induction xs arbitrary: s)
  case (Cons x xs)
  obtain s1 where s1: "f x s = Some s1" "map_wf s1" "fst ` set s1 = fst ` set s \<union> A x"
    using Cons.prems(1) [of x s] Cons.prems(2) by auto
  obtain s2 where "fold_opt f xs s1 = Some s2" "map_wf s2"
    "fst ` set s2 = fst ` set s1 \<union> (\<Union>x \<in> set xs. A x)"
    using Cons.IH [OF _ s1(2)] Cons.prems(1) by auto
  then show ?case using s1 by auto
qed simp

section \<open>The search is correct\<close>

lemma dfs_correct:
  assumes "trie_wf t" "0 < w" "w * h \<le> 64" "w * h \<le> int (length letters)"
  shows "in_trie t node \<Longrightarrow> 0 \<le> cell \<Longrightarrow> cell < w * h \<Longrightarrow>
    int (length (nodes t)) - node < int fuel \<Longrightarrow> map_wf found \<Longrightarrow>
    \<exists>r. dfs fuel t letters w h cell node used buf found = Some r \<and> map_wf r \<and>
      fst ` set r = fst ` set found \<union> words_from t letters w h (used_set used) cell node buf"
proof (induction fuel arbitrary: cell node used buf found)
  case (Suc fuel)
  let ?bit = "push_bit (nat cell) (1 :: 64 word)" and ?c = "letters ! nat cell"
  have c64: "0 \<le> cell" "cell < 64" and len: "nat cell < length letters"
    using Suc.prems assms(3,4) by (simp_all add: nat_less_iff)
  show ?case
  proof (cases "cell \<in> used_set used")
    case True
    then have "used AND ?bit \<noteq> 0" using used_test [OF c64] by simp
    then show ?thesis using True Suc.prems by (simp add: words_from_used Let_def)
  next
    case fresh: False
    then have test: "used AND ?bit = 0" using used_test [OF c64, of used] by blast
    obtain m ok where st: "trie_step t node ?c = (m, ok)" by fastforce
    show ?thesis
    proof (cases ok)
      case False
      then show ?thesis
        using st test len Suc.prems by (simp add: words_from_dead Let_def)
    next
      case True
      define buf' where "buf' = buf @ [?c]"
      define used' where "used' = used OR ?bit"
      define found' where "found' =
        (if isWord t m \<and> MinWordLen \<le> length buf' then AList.update buf' () found else found)"
      have m: "node < m" "in_trie t m"
        using trie_wf_step [OF assms(1) Suc.prems(1)] st True by auto
      have "\<exists>r. fold_opt (\<lambda>nb found. dfs fuel t letters w h nb m used' buf' found)
          (neighbours w h cell) found' = Some r \<and> map_wf r \<and>
        fst ` set r = fst ` set found' \<union>
          (\<Union>nb \<in> set (neighbours w h cell). words_from t letters w h (used_set used') nb m buf')"
      proof (rule fold_opt_collects)
        fix nb s
        assume "nb \<in> set (neighbours w h cell)" "map_wf (s :: found)"
        then show "\<exists>s'. dfs fuel t letters w h nb m used' buf' s = Some s' \<and> map_wf s' \<and>
            fst ` set s' = fst ` set s \<union> words_from t letters w h (used_set used') nb m buf'"
          using Suc.IH [OF m(2)] Suc.prems m set_neighbours [OF assms(2) Suc.prems(2,3)] by auto
      next
        show "map_wf found'" using Suc.prems by (simp add: found'_def)
      qed
      moreover have "used_set used' = insert cell (used_set used)"
        unfolding used'_def by (rule used_insert [OF c64])
      moreover have "fst ` set found' = fst ` set found \<union>
          (if isWord t m \<and> MinWordLen \<le> length buf' then {buf'} else {})"
        by (auto simp: found'_def fst_update)
      moreover have "dfs (Suc fuel) t letters w h cell node used buf found =
          fold_opt (\<lambda>nb found. dfs fuel t letters w h nb m used' buf' found) (neighbours w h cell) found'"
        using st True test len by (simp add: buf'_def used'_def found'_def Let_def)
      moreover have "words_from t letters w h (used_set used) cell node buf =
          (if isWord t m \<and> MinWordLen \<le> length buf' then {buf'} else {}) \<union>
          (\<Union>nb \<in> set (neighbours w h cell).
            words_from t letters w h (insert cell (used_set used)) nb m buf')"
        unfolding buf'_def by (rule words_from_step [OF assms(2) Suc.prems(2,3) fresh]) (simp add: st True)
      ultimately show ?thesis by (simp only: Un_assoc)
    qed
  qed
qed simp

lemma Solve_correct:
  assumes "trie_wf t" "0 < w" "w * h \<le> 64" "w * h \<le> int (length letters)"
  shows "\<exists>out. Solve t letters w h = Some out \<and> distinct out \<and>
    set out = {spell letters p |p. trail w h {} p \<and> spell letters p \<in> trie_words t \<and>
      MinWordLen \<le> length p}"
proof -
  let ?dfs = "\<lambda>start found. dfs (Suc (length (nodes t))) t letters w h start 0 0 [] found"
  have none: "used_set 0 = {}" by (auto simp: used_set_def)
  have root: "in_trie t 0" by (rule trie_wf_root [OF assms(1)])
  have "\<exists>r. fold_opt ?dfs [0..w * h - 1] [] = Some r \<and> map_wf r \<and>
    fst ` set r = fst ` set ([] :: found) \<union>
      (\<Union>start \<in> set [0..w * h - 1]. words_from t letters w h {} start 0 [])"
  proof (rule fold_opt_collects)
    fix start s assume "start \<in> set [0..w * h - 1]" "map_wf (s :: found)"
    then show "\<exists>s'. ?dfs start s = Some s' \<and> map_wf s' \<and>
        fst ` set s' = fst ` set s \<union> words_from t letters w h {} start 0 []"
      using dfs_correct [OF assms root, of start "Suc (length (nodes t))" s 0 "[]"] none by simp
  qed simp
  then obtain r where r: "fold_opt ?dfs [0..w * h - 1] [] = Some r" "map_wf r"
    "fst ` set r = (\<Union>start \<in> set [0..w * h - 1]. words_from t letters w h {} start 0 [])"
    by auto
  have "(\<Union>start \<in> set [0..w * h - 1]. words_from t letters w h {} start 0 []) =
    {spell letters p |p. trail w h {} p \<and> spell letters p \<in> trie_words t \<and> MinWordLen \<le> length p}"
    using trail_range by (fastforce simp: words_from_def trie_words_def spell_def)
  then show ?thesis
    using r by (simp add: Solve_def map_wf_def)
qed

section \<open>Properties\<close>

text \<open>
  C11: on every board of at most 64 cells the solver returns, and it returns exactly the words of
  the trie's word list, of at least \<open>MinWordLen\<close> letters, that some path of adjacent cells
  without repetition spells, each word once.
\<close>

theorem Solve_sound_complete:
  assumes "0 < w" "w * h \<le> 64" "w * h \<le> int (length letters)"
  shows "\<exists>out. Solve (NewTrie ws) letters w h = Some out \<and> distinct out \<and>
    set out = {spell letters p |p. trail w h {} p \<and> spell letters p \<in> set ws \<and>
      isAlpha (spell letters p) \<and> MinWordLen \<le> length p}"
  using Solve_correct [OF NewTrie_correct(1) assms] by (simp add: NewTrie_correct(2))

theorem Solve_sound_complete_witness:
  "\<exists>out. Solve (NewTrie [''CAT'', ''TAG'']) ''CATXXXXXG'' 3 3 = Some out \<and> ''CAT'' \<in> set out"
proof -
  have "trail 3 3 {} [0, 1, 2]" by (simp add: adjacent_def)
  moreover have "spell ''CATXXXXXG'' [0, 1, 2] = ''CAT''" by simp
  ultimately have "''CAT'' \<in> {spell ''CATXXXXXG'' p |p. trail 3 3 {} p \<and>
      spell ''CATXXXXXG'' p \<in> set [''CAT'', ''TAG''] \<and> isAlpha (spell ''CATXXXXXG'' p) \<and>
      MinWordLen \<le> length p}"
    by (intro CollectI exI [of _ "[0, 1, 2]"]) (simp add: MinWordLen_def)
  then show ?thesis
    using Solve_sound_complete [of 3 3 "''CATXXXXXG''" "[''CAT'', ''TAG'']"] by auto
qed

end
