(* ===== verification/Rand.thy ===== *)
theory Rand
  imports Go_Strings
begin

unbundle bit_operations_syntax

text \<open>
  The parts of Go's \<open>math/rand\<close> and \<open>hash/fnv\<close> the rack and board generators use. The
  generator behind a \<open>rand.Rand\<close> is an argument: a state, how a seed makes one, and the
  draws \<open>Intn\<close> and \<open>int31n\<close>; \<open>rng_ok\<close> is their documented contract. \<open>Shuffle\<close> and the
  FNV-1a hash are written out. \<open>None\<close> is a panic (an index out of range). The locale
  \<open>retry_loop\<close> holds what the two generators' bounded retry loops share.
\<close>

record 'r rng =
  new_source :: "int \<Rightarrow> 'r"
  intn :: "nat \<Rightarrow> 'r \<Rightarrow> nat \<times> 'r"
  int31n :: "nat \<Rightarrow> 'r \<Rightarrow> nat \<times> 'r"

definition rng_ok :: "'r rng \<Rightarrow> bool" where
  "rng_ok G \<longleftrightarrow> (\<forall>n r. 0 < n \<longrightarrow> fst (intn G n r) < n \<and> fst (int31n G n r) < n)"

text \<open>\<open>bag[rng.Intn(len(bag))]\<close>, \<open>n\<close> times, appended to \<open>b\<close>.\<close>

primrec draw_letters :: "'r rng \<Rightarrow> string \<Rightarrow> nat \<Rightarrow> string \<Rightarrow> 'r \<Rightarrow> (string \<times> 'r) option" where
  "draw_letters G bag 0 b r = Some (b, r)"
| "draw_letters G bag (Suc n) b r =
    (case intn G (length bag) r of
      (i, r) \<Rightarrow> if i < length bag then draw_letters G bag n (b @ [bag ! i]) r else None)"

text \<open>\<open>rng.Shuffle(len(b), swap)\<close>: for \<open>i\<close> from the last index down to 1, swap with a drawn \<open>j\<close>.\<close>

definition swap :: "nat \<Rightarrow> nat \<Rightarrow> 'a list \<Rightarrow> 'a list" where
  "swap i j b = b[i := b ! j, j := b ! i]"

primrec shuffle_loop :: "'r rng \<Rightarrow> nat \<Rightarrow> 'a list \<Rightarrow> 'r \<Rightarrow> ('a list \<times> 'r) option" where
  "shuffle_loop G 0 b r = Some (b, r)"
| "shuffle_loop G (Suc i) b r =
    (case int31n G (Suc (Suc i)) r of
      (j, r) \<Rightarrow> if Suc i < length b \<and> j < length b
        then shuffle_loop G i (swap (Suc i) j b) r else None)"

definition shuffle :: "'r rng \<Rightarrow> 'a list \<Rightarrow> 'r \<Rightarrow> ('a list \<times> 'r) option" where
  "shuffle G b r = shuffle_loop G (length b - 1) b r"

text \<open>\<open>fnv.New64a\<close>: FNV-1a over the bytes, and the seed made from it.\<close>

definition fnv64a :: "string \<Rightarrow> 64 word" where
  "fnv64a s =
    fold (\<lambda>c h. (h XOR word_of_nat (byte c)) * 1099511628211) s 14695981039346656037"

definition date_seed :: "string \<Rightarrow> int" where
  "date_seed key = sint (fnv64a key)"

section \<open>Drawing and shuffling\<close>

lemma draw_letters_total:
  assumes "rng_ok G" "bag \<noteq> []"
  shows "\<exists>b' r'. draw_letters G bag n b r = Some (b', r') \<and>
    (\<exists>ls. b' = b @ ls \<and> length ls = n \<and> set ls \<subseteq> set bag)"
proof (induction n arbitrary: b r)
  case (Suc n)
  obtain i r1 where i: "intn G (length bag) r = (i, r1)" by fastforce
  then have lt: "i < length bag"
    using assms unfolding rng_ok_def by (metis fst_conv length_greater_0_conv)
  obtain b' r' ls where "draw_letters G bag n (b @ [bag ! i]) r1 = Some (b', r')"
    "b' = (b @ [bag ! i]) @ ls" "length ls = n" "set ls \<subseteq> set bag"
    using Suc.IH [of "b @ [bag ! i]" r1] by blast
  then show ?case using i lt by (auto intro!: exI [of _ "bag ! i # ls"])
qed simp

lemma mset_swap: "i < length b \<Longrightarrow> j < length b \<Longrightarrow> mset (swap i j b) = mset b"
  unfolding swap_def by (rule mset_swap)

lemma length_swap [simp]: "length (swap i j b) = length b"
  by (simp add: swap_def)

lemma shuffle_loop_total:
  assumes "rng_ok G"
  shows "i < length b \<or> i = 0 \<Longrightarrow>
    \<exists>b' r'. shuffle_loop G i b r = Some (b', r') \<and> mset b' = mset b"
proof (induction i arbitrary: b r)
  case (Suc i)
  obtain j r1 where j: "int31n G (Suc (Suc i)) r = (j, r1)" by fastforce
  then have "j < Suc (Suc i)"
    using assms unfolding rng_ok_def by (metis fst_conv zero_less_Suc)
  then have lt: "j < length b" "Suc i < length b" using Suc.prems by auto
  then show ?case
    using Suc.IH [of "swap (Suc i) j b" r1] j mset_swap [OF lt(2,1)] by auto
qed simp

lemma shuffle_total:
  assumes "rng_ok G"
  shows "\<exists>b' r'. shuffle G b r = Some (b', r') \<and> mset b' = mset b"
  unfolding shuffle_def by (rule shuffle_loop_total [OF assms]) (cases b, auto)

text \<open>
  Both generators draw \<open>nv\<close> letters from one bag and \<open>nc\<close> from another and shuffle them; \<open>P\<close>
  tells the bags apart.
\<close>

lemma draw_two_bags:
  assumes "rng_ok G" "vb \<noteq> []" "cb \<noteq> []" "\<forall>c \<in> set vb. P c" "\<forall>c \<in> set cb. \<not> P c"
  shows "\<exists>b0 r1 b1 r2 b r3. draw_letters G vb nv [] r = Some (b0, r1) \<and>
    draw_letters G cb nc b0 r1 = Some (b1, r2) \<and> shuffle G b1 r2 = Some (b, r3) \<and>
    length b = nv + nc \<and> set b \<subseteq> set vb \<union> set cb \<and> length (filter P b) = nv"
proof -
  obtain vs r1 where v: "draw_letters G vb nv [] r = Some (vs, r1)"
    "length vs = nv" "set vs \<subseteq> set vb"
    using draw_letters_total [OF assms(1,2), of nv "[]" r] by auto
  obtain cs r2 where c: "draw_letters G cb nc vs r1 = Some (vs @ cs, r2)"
    "length cs = nc" "set cs \<subseteq> set cb"
    using draw_letters_total [OF assms(1,3), of nc vs r1] by auto
  obtain b r3 where s: "shuffle G (vs @ cs) r2 = Some (b, r3)" "mset b = mset (vs @ cs)"
    using shuffle_total [OF assms(1)] by blast
  have "set b = set vs \<union> set cs" using s(2) by (metis set_append set_mset_mset)
  then have "set b \<subseteq> set vb \<union> set cb" using v(3) c(3) by blast
  moreover have "length b = nv + nc" using s(2) v(2) c(2) by (metis length_append size_mset)
  moreover have "filter P vs = vs" "filter P cs = []"
    using v(3) c(3) assms(4,5) by (auto simp: filter_id_conv filter_empty_conv)
  then have "mset (filter P b) = mset vs"
    using s(2) by (simp only: mset_filter mset_append filter_union_mset) (metis add_0_right
      mset.simps(1) mset_filter)
  then have "length (filter P b) = nv" using v(2) by (metis size_mset)
  ultimately show ?thesis using v(1) c(1) s(1) by blast
qed

lemma rel_option_map_fst:
  "rel_option (rel_prod R (=)) x y \<Longrightarrow> rel_option R (map_option fst x) (map_option fst y)"
  by (cases x; cases y) auto

section \<open>Bounded retries for a good candidate\<close>

text \<open>The first \<open>n\<close> candidates of a draw.\<close>

primrec draws :: "('r \<Rightarrow> ('a \<times> 'r) option) \<Rightarrow> nat \<Rightarrow> 'r \<Rightarrow> 'a list option" where
  "draws dr 0 r = Some []"
| "draws dr (Suc n) r =
    (case dr r of None \<Rightarrow> None | Some (x, r) \<Rightarrow> map_option (\<lambda>xs. x # xs) (draws dr n r))"

lemma draws_total:
  assumes "\<And>r. \<exists>x r'. dr r = Some (x, r') \<and> P x"
  shows "\<exists>xs. draws dr n r = Some xs \<and> length xs = n \<and> (\<forall>x \<in> set xs. P x)"
proof (induction n arbitrary: r)
  case (Suc n)
  obtain x r1 where x: "dr r = Some (x, r1)" "P x" using assms by blast
  obtain xs where "draws dr n r1 = Some xs" "length xs = n" "\<forall>x \<in> set xs. P x"
    using Suc.IH by blast
  with x show ?case by simp
qed simp

text \<open>
  A loop that draws up to \<open>n\<close> candidates, returns the first one whose \<open>score\<close> reaches the
  floor, and otherwise the best seen so far. The program has two such loops.
\<close>

locale retry_loop =
  fixes dr :: "'r \<Rightarrow> ('c \<times> 'r) option" and mk :: "'c \<Rightarrow> 'res" and score :: "'res \<Rightarrow> nat"
    and floor :: int and loop :: "nat \<Rightarrow> 'res \<Rightarrow> 'r \<Rightarrow> ('res \<times> 'r) option"
  assumes loop_0: "loop 0 best r = Some (best, r)"
    and loop_Suc: "loop (Suc n) best r =
      (case dr r of None \<Rightarrow> None
       | Some (l, r) \<Rightarrow>
           if floor \<le> int (score (mk l)) then Some (mk l, r)
           else loop n (if score best < score (mk l) then mk l else best) r)"
begin

lemma loop_result:
  assumes "draws dr n r = Some ls"
  shows "\<exists>res r'. loop n best r = Some (res, r') \<and> (res = best \<or> res \<in> mk ` set ls) \<and>
    (floor \<le> int (score res) \<or> (\<forall>l \<in> set ls. score (mk l) \<le> score res) \<and> score best \<le> score res)"
  using assms
proof (induction n arbitrary: r ls best)
  case 0
  then show ?case by (simp add: loop_0)
next
  case (Suc n)
  from Suc.prems obtain l r1 ks where d: "dr r = Some (l, r1)" "draws dr n r1 = Some ks" "ls = l # ks"
    by (auto split: option.splits)
  show ?case
  proof (cases "floor \<le> int (score (mk l))")
    case True
    then show ?thesis using d by (simp add: loop_Suc)
  next
    case False
    define best' where "best' = (if score best < score (mk l) then mk l else best)"
    obtain res r' where res: "loop n best' r1 = Some (res, r')" "res = best' \<or> res \<in> mk ` set ks"
      "floor \<le> int (score res) \<or> (\<forall>l \<in> set ks. score (mk l) \<le> score res) \<and> score best' \<le> score res"
      using Suc.IH [OF d(2), of best'] by blast
    have "loop (Suc n) best r = Some (res, r')"
      using d False res(1) by (simp add: loop_Suc best'_def)
    moreover have "res = best \<or> res \<in> mk ` set ls"
      using res(2) d(3) by (auto simp: best'_def split: if_splits)
    moreover have "floor \<le> int (score res) \<or>
      (\<forall>l \<in> set ls. score (mk l) \<le> score res) \<and> score best \<le> score res"
      using res(3) d(3) by (auto simp: best'_def split: if_splits)
    ultimately show ?thesis by auto
  qed
qed

end

text \<open>
  Two loops over the same draws whose candidates score alike make the same choices: what a second
  run of the program sees when its maps iterate in another order.
\<close>

locale retry_pair =
  A: retry_loop dr mk score floor loop + B: retry_loop dr' mk' score' floor loop'
  for dr :: "'r \<Rightarrow> ('c \<times> 'r) option" and floor :: int
    and mk :: "'c \<Rightarrow> 'res" and score :: "'res \<Rightarrow> nat" and loop :: "nat \<Rightarrow> 'res \<Rightarrow> 'r \<Rightarrow> ('res \<times> 'r) option"
    and dr' :: "'r \<Rightarrow> ('c \<times> 'r) option"
    and mk' :: "'c \<Rightarrow> 'res" and score' :: "'res \<Rightarrow> nat"
    and loop' :: "nat \<Rightarrow> 'res \<Rightarrow> 'r \<Rightarrow> ('res \<times> 'r) option"
begin

definition alike :: "('c \<Rightarrow> bool) \<Rightarrow> 'res \<Rightarrow> 'res \<Rightarrow> 'res \<Rightarrow> bool" where
  "alike good zero x y \<longleftrightarrow> (x = zero \<and> y = zero \<and> score zero = score' zero) \<or>
    (\<exists>l. good l \<and> x = mk l \<and> y = mk' l)"

lemma alike_mk: "good l \<Longrightarrow> alike good zero (mk l) (mk' l)"
  by (auto simp: alike_def)

lemma loops_alike:
  assumes dr: "\<And>r. dr' r = dr r"
    and good: "\<And>l x r. dr r = Some (l, x) \<Longrightarrow> good l"
    and sc: "\<And>l. good l \<Longrightarrow> score (mk l) = score' (mk' l)"
  shows "alike good zero b b' \<Longrightarrow>
    rel_option (rel_prod (alike good zero) (=)) (loop n b r) (loop' n b' r)"
proof (induction n arbitrary: b b' r)
  case 0
  then show ?case by (simp add: A.loop_0 B.loop_0)
next
  case (Suc n)
  show ?case
  proof (cases "dr r")
    case None
    then show ?thesis by (simp add: A.loop_Suc B.loop_Suc dr)
  next
    case (Some lr)
    obtain l r1 where lr: "lr = (l, r1)" by fastforce
    let ?b = "if score b < score (mk l) then mk l else b"
    let ?b' = "if score' b' < score' (mk' l) then mk' l else b'"
    have d: "dr r = Some (l, r1)" using Some lr by simp
    note g = good [OF d]
    then have mk: "alike good zero (mk l) (mk' l)" by (rule alike_mk)
    have "score b = score' b'" using Suc.prems by (auto simp: alike_def sc)
    then have "alike good zero ?b ?b'" using Suc.prems by (simp add: sc [OF g] mk)
    then have "rel_option (rel_prod (alike good zero) (=)) (loop n ?b r1) (loop' n ?b' r1)"
      by (rule Suc.IH)
    then show ?thesis by (simp add: A.loop_Suc B.loop_Suc dr d sc [OF g] mk)
  qed
qed

end

end
