(* ===== verification/Rack.thy ===== *)
theory Rack
  imports Rand Game
begin

text \<open>
  \<open>internal/rack/rack.go\<close>: racks of letters, redrawn until they yield enough words. The
  generator's retry loop is the interpretation \<open>rk\<close> of \<open>retry_loop\<close>. The lemmas show the
  composition of a drawn rack, that the loop returns a rack clearing the floor or the best of its
  300 draws, and that the daily rack does not depend on the iteration order of the dictionary.
\<close>

section \<open>Model\<close>

definition consonantBag :: string where
  "consonantBag = ''BBCCDDDDFFGGGHHJKLLLLMMNNNNNNPPRRRRRRSSSSTTTTTTVWWXYZ''"

definition vowelBag :: string where
  "vowelBag = ''AAAAEEEEEEIIIIOOOOUU''"

record rack_result =
  rk_letters :: string
  rk_words :: "string list"

definition minWords :: "int \<Rightarrow> int" where
  "minWords sz =
    (if sz \<le> 3 then 2
     else if sz = 4 then 4
     else if sz = 5 then 6
     else if sz = 6 then 10
     else if sz = 7 then 14
     else 18)"

text \<open>Go's integer division truncates towards zero.\<close>

definition vowelCount :: "int \<Rightarrow> int" where
  "vowelCount sz =
    (let v = (if sz < 0 then - (- sz div 3) else sz div 3);
         v = (if v < 2 then 2 else v);
         v = (if v > sz - 2 then sz - 2 else v)
     in v)"

text \<open>\<open>make([]byte, 0, sz)\<close> panics for a negative sz.\<close>

definition drawRack :: "(nat \<Rightarrow> nat) \<Rightarrow> 'r rng \<Rightarrow> int \<Rightarrow> 'r \<Rightarrow> (string \<times> 'r) option" where
  "drawRack uc G sz r =
    (let nv = vowelCount sz
     in if sz < 0 then None
        else do {
          (b, r) \<leftarrow> draw_letters G vowelBag (nat nv) [] r;
          (b, r) \<leftarrow> draw_letters G consonantBag (nat (sz - nv)) b r;
          (b, r) \<leftarrow> shuffle G b r;
          Some (to_upper uc b, r)
        })"

definition maxTries :: nat where
  "maxTries = 300"

primrec generate_loop :: "(nat \<Rightarrow> nat) \<Rightarrow> 'r rng \<Rightarrow> dictionary \<Rightarrow> int \<Rightarrow> int \<Rightarrow> nat \<Rightarrow> rack_result \<Rightarrow> 'r \<Rightarrow>
    (rack_result \<times> 'r) option" where
  "generate_loop uc G d sz floor 0 best r = Some (best, r)"
| "generate_loop uc G d sz floor (Suc n) best r =
    (case drawRack uc G sz r of
       None \<Rightarrow> None
     | Some (letters, r) \<Rightarrow>
         let words = FindWords uc d letters;
             best = (if length words > length (rk_words best)
                     then \<lparr>rk_letters = letters, rk_words = words\<rparr> else best)
         in if int (length words) \<ge> floor then Some (\<lparr>rk_letters = letters, rk_words = words\<rparr>, r)
            else generate_loop uc G d sz floor n best r)"

definition generate :: "(nat \<Rightarrow> nat) \<Rightarrow> 'r rng \<Rightarrow> dictionary \<Rightarrow> int \<Rightarrow> 'r \<Rightarrow> (rack_result \<times> 'r) option" where
  "generate uc G d sz r =
    generate_loop uc G d sz (minWords sz) maxTries \<lparr>rk_letters = [], rk_words = []\<rparr> r"

text \<open>The seed of a solo rack is drawn from the global generator; it is an argument.\<close>

definition GenerateSolo :: "(nat \<Rightarrow> nat) \<Rightarrow> 'r rng \<Rightarrow> dictionary \<Rightarrow> int \<Rightarrow> int \<Rightarrow> rack_result option" where
  "GenerateSolo uc G d sz seed = map_option fst (generate uc G d sz (new_source G seed))"

definition GenerateDaily :: "(nat \<Rightarrow> nat) \<Rightarrow> 'r rng \<Rightarrow> dictionary \<Rightarrow> string \<Rightarrow> int \<Rightarrow> rack_result option" where
  "GenerateDaily uc G d dateKey sz =
    map_option fst (generate uc G d sz (new_source G (date_seed dateKey)))"

section \<open>A drawn rack\<close>

abbreviation is_vowel :: "char \<Rightarrow> bool" where
  "is_vowel c \<equiv> c \<in> set ''AEIOU''"

lemma set_bags: "set vowelBag = set ''AEIOU''" "set consonantBag = set ''BCDFGHJKLMNPRSTVWXYZ''"
  by (auto simp: vowelBag_def consonantBag_def)

lemma bags_AZ: "set ls \<subseteq> set vowelBag \<union> set consonantBag \<Longrightarrow> all_AZ ls"
  unfolding set_bags all_AZ_def by auto

lemma consonant_not_vowel: "c \<in> set consonantBag \<Longrightarrow> \<not> is_vowel c"
  unfolding set_bags by auto

lemma vowelCount_range: "2 \<le> sz \<Longrightarrow> 0 \<le> vowelCount sz \<and> vowelCount sz \<le> sz - 2"
  by (auto simp: vowelCount_def Let_def)

lemma drawRack_total:
  assumes "rng_ok G" "2 \<le> sz"
  shows "\<exists>b r'. drawRack uc G sz r = Some (b, r') \<and> int (length b) = sz \<and>
    all_AZ b \<and> int (length (filter is_vowel b)) = vowelCount sz"
proof -
  note nv = vowelCount_range [OF assms(2)]
  have "vowelBag \<noteq> []" "consonantBag \<noteq> []" by (simp_all add: vowelBag_def consonantBag_def)
  moreover have "\<forall>c \<in> set vowelBag. is_vowel c" by (simp only: set_bags) simp
  moreover have "\<forall>c \<in> set consonantBag. \<not> is_vowel c" using consonant_not_vowel by blast
  ultimately obtain b0 r1 b1 r2 b r3 where
    d: "draw_letters G vowelBag (nat (vowelCount sz)) [] r = Some (b0, r1)"
    "draw_letters G consonantBag (nat (sz - vowelCount sz)) b0 r1 = Some (b1, r2)"
    "shuffle G b1 r2 = Some (b, r3)"
    and b: "length b = nat (vowelCount sz) + nat (sz - vowelCount sz)"
      "set b \<subseteq> set vowelBag \<union> set consonantBag" "length (filter is_vowel b) = nat (vowelCount sz)"
    using draw_two_bags [OF assms(1), of vowelBag consonantBag is_vowel] by blast
  have az: "all_AZ b" by (rule bags_AZ [OF b(2)])
  then have "drawRack uc G sz r = Some (b, r3)"
    using d assms(2) by (simp add: drawRack_def Let_def)
  then show ?thesis using az b(1,3) nv by (intro exI) auto
qed

section \<open>The retry loop\<close>

abbreviation rack_of :: "(nat \<Rightarrow> nat) \<Rightarrow> dictionary \<Rightarrow> string \<Rightarrow> rack_result" where
  "rack_of uc d letters \<equiv> \<lparr>rk_letters = letters, rk_words = FindWords uc d letters\<rparr>"

interpretation rk: retry_loop "drawRack uc G sz" "rack_of uc d" "\<lambda>x. length (rk_words x)" floor
  "generate_loop uc G d sz floor"
  for uc G sz d floor
  by unfold_locales (auto simp: Let_def split: option.splits prod.splits)

lemma FindWords_empty_rack:
  assumes "dict_ok d"
  shows "FindWords uc d [] = []"
proof (rule ccontr)
  assume "FindWords uc d [] \<noteq> []"
  then obtain w where w: "w \<in> set (FindWords uc d [])" by (meson last_in_set)
  have "all_AZ []" by (simp add: all_AZ_def)
  then have "to_upper uc [] = []" by (rule to_upper_AZ)
  then have "MinWordLen \<le> 0" using lx.find_word_length [OF assms w] by (metis le_trans list.size(3))
  then show False by (simp add: MinWordLen_def)
qed

lemma draws_racks:
  assumes "rng_ok G" "2 \<le> sz"
  shows "\<exists>ls. draws (drawRack uc G sz) n r = Some ls \<and> length ls = n \<and>
    (\<forall>l \<in> set ls. int (length l) = sz \<and> all_AZ l)"
  by (rule draws_total) (use drawRack_total [OF assms] in blast)

text \<open>
  A different order of the same word set draws the same letters and finds the same words.
\<close>

definition same_rack :: "rack_result \<Rightarrow> rack_result \<Rightarrow> bool" where
  "same_rack x y \<longleftrightarrow> rk_letters x = rk_letters y \<and> mset (rk_words x) = mset (rk_words y)"

lemma FindWords_perm:
  assumes "dict_ok d" "dict_ok d'" "map_of d = map_of d'"
  shows "mset (FindWords uc d rack) = mset (FindWords uc d' rack)"
proof -
  have "set (FindWords uc d rack) = set (FindWords uc d' rack)"
    using assms(3) by (auto simp: FindWords_iff Contains_def)
  then show ?thesis
    using assms by (simp add: set_eq_iff_mset_eq_distinct distinct_FindWords)
qed

lemma generate_cases:
  assumes "dict_ok d" "rng_ok G" "2 \<le> sz"
  obtains ls res r' where "draws (drawRack uc G sz) maxTries r = Some ls" "length ls = maxTries"
    "\<forall>l \<in> set ls. int (length l) = sz \<and> all_AZ l"
    "generate uc G d sz r = Some (res, r')" "rk_words res = FindWords uc d (rk_letters res)"
    "rk_letters res \<in> insert [] (set ls)"
    "minWords sz \<le> int (length (rk_words res)) \<or>
      (\<forall>l \<in> set ls. length (FindWords uc d l) \<le> length (rk_words res))"
proof -
  let ?zero = "\<lparr>rk_letters = [], rk_words = []\<rparr>"
  obtain ls where ls: "draws (drawRack uc G sz) maxTries r = Some ls" "length ls = maxTries"
    "\<forall>l \<in> set ls. int (length l) = sz \<and> all_AZ l"
    using draws_racks [OF assms(2,3)] by blast
  obtain res r' where res: "generate_loop uc G d sz (minWords sz) maxTries ?zero r = Some (res, r')"
    "res = ?zero \<or> res \<in> rack_of uc d ` set ls"
    "minWords sz \<le> int (length (rk_words res)) \<or>
      (\<forall>l \<in> set ls. length (rk_words (rack_of uc d l)) \<le> length (rk_words res)) \<and>
      length (rk_words ?zero) \<le> length (rk_words res)"
    using rk.loop_result [OF ls(1)] by blast
  have "rk_words res = FindWords uc d (rk_letters res)" "rk_letters res \<in> insert [] (set ls)"
    using res(2) FindWords_empty_rack [OF assms(1)] by auto
  moreover have "minWords sz \<le> int (length (rk_words res)) \<or>
      (\<forall>l \<in> set ls. length (FindWords uc d l) \<le> length (rk_words res))"
    using res(3) by auto
  ultimately show thesis using that ls res(1) by (simp add: generate_def)
qed

lemma GenerateSolo_total:
  assumes "dict_ok d" "rng_ok G" "2 \<le> sz"
  shows "\<exists>rk. GenerateSolo uc G d sz seed = Some rk"
proof -
  obtain res r' where "generate uc G d sz (new_source G seed) = Some (res, r')"
    by (rule generate_cases [OF assms])
  then show ?thesis by (simp add: GenerateSolo_def)
qed

lemma map_of_AllWords:
  assumes "set (AllWords d) = set (AllWords d')"
  shows "map_of d = map_of d'"
proof
  fix k
  have "map_of d k = None \<longleftrightarrow> map_of d' k = None"
    using assms by (simp add: AllWords_def map_entries_def map_of_eq_None_iff)
  then show "map_of d k = map_of d' k"
    by (cases "map_of d k"; cases "map_of d' k") auto
qed

interpretation rkp: retry_pair "drawRack uc G sz" floor
  "rack_of uc d" "\<lambda>x. length (rk_words x)" "generate_loop uc G d sz floor"
  "drawRack uc G sz" "rack_of uc d'" "\<lambda>x. length (rk_words x)" "generate_loop uc G d' sz floor"
  for uc G sz floor d d'
  by unfold_locales

lemma generate_perm:
  assumes "dict_ok d" "dict_ok d'" "map_of d = map_of d'"
  shows "rel_option (rel_prod same_rack (=)) (generate uc G d sz r) (generate uc G d' sz r)"
proof -
  let ?zero = "\<lparr>rk_letters = [], rk_words = []\<rparr>"
  have len: "length (FindWords uc d l) = length (FindWords uc d' l)" for l
    using FindWords_perm [OF assms] by (metis size_mset)
  have "same_rack x y" if "rkp.alike uc d d' (\<lambda>_. True) ?zero x y" for x y
    using that FindWords_perm [OF assms] by (auto simp: rkp.alike_def same_rack_def)
  then have le: "rel_prod (rkp.alike uc d d' (\<lambda>_. True) ?zero) (=) \<le> rel_prod same_rack (=)"
    by (intro prod.rel_mono) auto
  have "rel_option (rel_prod (rkp.alike uc d d' (\<lambda>_. True) ?zero) (=))
      (generate_loop uc G d sz (minWords sz) maxTries ?zero r)
      (generate_loop uc G d' sz (minWords sz) maxTries ?zero r)"
    by (rule rkp.loops_alike) (simp_all add: len rkp.alike_def)
  then show ?thesis
    unfolding generate_def using option.rel_mono [OF le] by blast
qed

section \<open>Properties\<close>

text \<open>
  C23: a solo rack of size at least 2 is always produced, from any dictionary the loader builds;
  its answer list is exactly what \<open>FindWords\<close> gives for its letters, and either it clears the
  difficulty floor or no rack among the 300 drawn has more words. Its letters are one of the
  drawn racks, of the requested size, or empty when no draw had any word.
\<close>

theorem GenerateSolo_playable_or_best:
  assumes "rng_ok G" "2 \<le> sz"
  shows "\<exists>ls res. draws (drawRack uc G sz) maxTries (new_source G seed) = Some ls \<and>
    length ls = maxTries \<and> (\<forall>l \<in> set ls. int (length l) = sz) \<and>
    GenerateSolo uc G (New uc text) sz seed = Some res \<and>
    rk_words res = FindWords uc (New uc text) (rk_letters res) \<and>
    rk_letters res \<in> insert [] (set ls) \<and>
    (minWords sz \<le> int (length (rk_words res)) \<or>
      (\<forall>l \<in> set ls. length (FindWords uc (New uc text) l) \<le> length (rk_words res)))"
proof -
  obtain ls res r' where "draws (drawRack uc G sz) maxTries (new_source G seed) = Some ls"
    "length ls = maxTries" "\<forall>l \<in> set ls. int (length l) = sz \<and> all_AZ l"
    "generate uc G (New uc text) sz (new_source G seed) = Some (res, r')"
    "rk_words res = FindWords uc (New uc text) (rk_letters res)"
    "rk_letters res \<in> insert [] (set ls)"
    "minWords sz \<le> int (length (rk_words res)) \<or>
      (\<forall>l \<in> set ls. length (FindWords uc (New uc text) l) \<le> length (rk_words res))"
    by (rule generate_cases [OF dict_ok_New assms]) blast
  then show ?thesis by (auto simp: GenerateSolo_def)
qed

text \<open>A generator that always draws the first choice.\<close>

definition first_rng :: "unit rng" where
  "first_rng = \<lparr>new_source = (\<lambda>_. ()), intn = (\<lambda>_ r. (0, r)), int31n = (\<lambda>_ r. (0, r))\<rparr>"

lemma rng_ok_first: "rng_ok first_rng"
  by (simp add: rng_ok_def first_rng_def)

theorem GenerateSolo_playable_or_best_witness:
  "\<exists>ls res. draws (drawRack (\<lambda>r. r) first_rng 5) maxTries () = Some ls \<and>
    (\<forall>l \<in> set ls. int (length l) = 5) \<and>
    GenerateSolo (\<lambda>r. r) first_rng (New (\<lambda>r. r) ''ABBA'') 5 7 = Some res \<and>
    rk_words res = FindWords (\<lambda>r. r) (New (\<lambda>r. r) ''ABBA'') (rk_letters res)"
  using GenerateSolo_playable_or_best [OF rng_ok_first, of 5 "\<lambda>r. r" 7 "''ABBA''"]
  by (simp add: first_rng_def) blast

text \<open>
  The daily rack of a date is the same for everyone who has the same words: two dictionaries
  that hold the same words in another order give the same letters, and the same answer set.
\<close>

theorem GenerateDaily_deterministic:
  assumes "set (AllWords (NewFromWords uc ws)) = set (AllWords (NewFromWords uc ws'))"
  shows "rel_option same_rack (GenerateDaily uc G (NewFromWords uc ws) dateKey sz)
    (GenerateDaily uc G (NewFromWords uc ws') dateKey sz)"
proof -
  have "map_of (NewFromWords uc ws) = map_of (NewFromWords uc ws')"
    using assms by (rule map_of_AllWords)
  then have "rel_option (rel_prod same_rack (=))
      (generate uc G (NewFromWords uc ws) sz (new_source G (date_seed dateKey)))
      (generate uc G (NewFromWords uc ws') sz (new_source G (date_seed dateKey)))"
    by (rule generate_perm [OF dict_ok_NewFromWords dict_ok_NewFromWords])
  then show ?thesis
    unfolding GenerateDaily_def by (rule rel_option_map_fst)
qed

theorem GenerateDaily_deterministic_witness:
  "rel_option same_rack
    (GenerateDaily (\<lambda>r. r) first_rng (NewFromWords (\<lambda>r. r) [''BAB'', ''ABBA'']) ''2026-07-16'' 5)
    (GenerateDaily (\<lambda>r. r) first_rng (NewFromWords (\<lambda>r. r) [''ABBA'', ''BAB'', ''BAB'']) ''2026-07-16'' 5)"
  by (rule GenerateDaily_deterministic)
    (simp add: NewFromWords_def add_word_def AllWords_def map_entries_def norm_word_AZ all_AZ_def
      MinWordLen_def insert_commute)

text \<open>
  A drawn rack has the requested size, only the letters A to Z and the intended number of
  vowels: a third of the letters but at least two, and never more than the size less two.
\<close>

theorem drawRack_composition:
  assumes "rng_ok G" "2 \<le> sz"
  shows "\<exists>b r'. drawRack uc G sz r = Some (b, r') \<and> int (length b) = sz \<and> isAlpha b \<and>
    int (length (filter (\<lambda>c. c \<in> set ''AEIOU'') b)) = min (max (sz div 3) 2) (sz - 2)"
  using drawRack_total [OF assms, of uc r] assms(2)
  by (simp add: vowelCount_def Let_def min_def max_def del: set_simps)
    (auto split: if_splits)

theorem drawRack_composition_witness:
  "\<exists>b r'. drawRack (\<lambda>r. r) first_rng 6 () = Some (b, r') \<and> int (length b) = 6 \<and> isAlpha b \<and>
    int (length (filter (\<lambda>c. c \<in> set ''AEIOU'') b)) = 2"
  using drawRack_composition [OF rng_ok_first, of 6 "\<lambda>r. r" "()"] by simp

text \<open>A dictionary without words gives the empty rack after 300 draws.\<close>

lemma GenerateSolo_no_words:
  assumes "rng_ok G" "2 \<le> sz"
  shows "\<exists>res. GenerateSolo uc G [] sz seed = Some res \<and> rk_words res = []"
proof -
  have "dict_ok []" by (simp add: dict_ok_def)
  then obtain res r' where "generate uc G [] sz (new_source G seed) = Some (res, r')"
    "rk_words res = FindWords uc [] (rk_letters res)"
    by (rule generate_cases [OF _ assms]) blast
  then show ?thesis by (auto simp: GenerateSolo_def FindWords_def Let_def map_entries_def)
qed

end
