(* ===== verification/Grid.thy ===== *)
theory Grid
  imports Solve Rand
begin

text \<open>
  \<open>internal/grid/grid.go\<close>: boards of letters, redrawn until the solver finds enough words on
  them. The retry loop is the interpretation \<open>gr\<close> of \<open>retry_loop\<close>. The lemmas show the
  composition of a board, that the generator returns a solved board clearing the floor or the best
  of its 300 draws, and that the daily board depends only on the set of words in the trie.
\<close>

section \<open>Model\<close>

definition grid_consonantBag :: string where
  "grid_consonantBag = ''BBCCDDDDFFGGGHHJKLLLLMMNNNNNNPPRRRRRRSSSSTTTTTTVWWXYZ''"

definition grid_vowelBag :: string where
  "grid_vowelBag = ''AAAAAEEEEEEEIIIIIOOOOOUUU''"

record grid_result =
  gr_letters :: string
  gr_width :: int
  gr_height :: int
  gr_words :: "string list"

definition grid_minWords :: "int \<Rightarrow> int" where
  "grid_minWords sz = (if sz \<le> 16 then 8 else if sz \<le> 25 then 16 else 24)"

definition grid_vowelCount :: "int \<Rightarrow> int" where
  "grid_vowelCount sz =
    (let v = (if sz < 0 then - (- sz div 3) else sz div 3);
         v = (if v < 3 then 3 else v);
         v = (if v > sz - 3 then sz - 3 else v)
     in v)"

text \<open>\<open>make([]byte, 0, size)\<close> panics for a negative size.\<close>

definition drawGrid :: "(nat \<Rightarrow> nat) \<Rightarrow> 'r rng \<Rightarrow> int \<Rightarrow> 'r \<Rightarrow> (string \<times> 'r) option" where
  "drawGrid uc G sz r =
    (let nv = grid_vowelCount sz
     in if sz < 0 then None
        else do {
          (b, r) \<leftarrow> draw_letters G grid_vowelBag (nat nv) [] r;
          (b, r) \<leftarrow> draw_letters G grid_consonantBag (nat (sz - nv)) b r;
          (b, r) \<leftarrow> shuffle G b r;
          Some (to_upper uc b, r)
        })"

definition grid_maxTries :: nat where
  "grid_maxTries = 300"

primrec grid_loop :: "(nat \<Rightarrow> nat) \<Rightarrow> 'r rng \<Rightarrow> Trie \<Rightarrow> int \<Rightarrow> int \<Rightarrow> int \<Rightarrow> nat \<Rightarrow> grid_result \<Rightarrow> 'r \<Rightarrow>
    (grid_result \<times> 'r) option" where
  "grid_loop uc G t w h floor 0 best r = Some (best, r)"
| "grid_loop uc G t w h floor (Suc n) best r =
    (case drawGrid uc G (w * h) r of
       None \<Rightarrow> None
     | Some (letters, r) \<Rightarrow>
         (case Solve t letters w h of
            None \<Rightarrow> None
          | Some words \<Rightarrow>
              let cand = \<lparr>gr_letters = letters, gr_width = w, gr_height = h, gr_words = words\<rparr>;
                  best = (if length words > length (gr_words best) then cand else best)
              in if int (length words) \<ge> floor then Some (cand, r)
                 else grid_loop uc G t w h floor n best r))"

definition grid_zero :: grid_result where
  "grid_zero = \<lparr>gr_letters = [], gr_width = 0, gr_height = 0, gr_words = []\<rparr>"

definition grid_generate :: "(nat \<Rightarrow> nat) \<Rightarrow> 'r rng \<Rightarrow> Trie \<Rightarrow> int \<Rightarrow> int \<Rightarrow> 'r \<Rightarrow> (grid_result \<times> 'r) option" where
  "grid_generate uc G t w h r =
    grid_loop uc G t w h (grid_minWords (w * h)) grid_maxTries grid_zero r"

definition grid_GenerateSolo :: "(nat \<Rightarrow> nat) \<Rightarrow> 'r rng \<Rightarrow> Trie \<Rightarrow> int \<Rightarrow> int \<Rightarrow> 'r \<Rightarrow>
    (grid_result \<times> 'r) option" where
  "grid_GenerateSolo uc G t w h r = grid_generate uc G t w h r"

definition grid_GenerateDaily :: "(nat \<Rightarrow> nat) \<Rightarrow> 'r rng \<Rightarrow> Trie \<Rightarrow> int \<Rightarrow> int \<Rightarrow> string \<Rightarrow>
    grid_result option" where
  "grid_GenerateDaily uc G t w h dateKey =
    map_option fst (grid_generate uc G t w h (new_source G (date_seed dateKey)))"

section \<open>A drawn board\<close>

abbreviation is_grid_vowel :: "char \<Rightarrow> bool" where
  "is_grid_vowel c \<equiv> c \<in> set ''AEIOU''"

lemma set_grid_bags: "set grid_vowelBag = set ''AEIOU''"
  "set grid_consonantBag = set ''BCDFGHJKLMNPRSTVWXYZ''"
  by (auto simp: grid_vowelBag_def grid_consonantBag_def)

lemma grid_bags_AZ: "set ls \<subseteq> set grid_vowelBag \<union> set grid_consonantBag \<Longrightarrow> all_AZ ls"
  unfolding set_grid_bags all_AZ_def by auto

lemma grid_consonant_not_vowel: "c \<in> set grid_consonantBag \<Longrightarrow> \<not> is_grid_vowel c"
  unfolding set_grid_bags by auto

lemma grid_vowelCount_range: "3 \<le> sz \<Longrightarrow> 0 \<le> grid_vowelCount sz \<and> grid_vowelCount sz \<le> sz - 3"
  by (auto simp: grid_vowelCount_def Let_def)

lemma drawGrid_total:
  assumes "rng_ok G" "3 \<le> sz"
  shows "\<exists>b r'. drawGrid uc G sz r = Some (b, r') \<and> int (length b) = sz \<and>
    all_AZ b \<and> int (length (filter is_grid_vowel b)) = grid_vowelCount sz"
proof -
  note nv = grid_vowelCount_range [OF assms(2)]
  have "grid_vowelBag \<noteq> []" "grid_consonantBag \<noteq> []"
    by (simp_all add: grid_vowelBag_def grid_consonantBag_def)
  moreover have "\<forall>c \<in> set grid_vowelBag. is_grid_vowel c" by (simp only: set_grid_bags) simp
  moreover have "\<forall>c \<in> set grid_consonantBag. \<not> is_grid_vowel c" using grid_consonant_not_vowel by blast
  ultimately obtain b0 r1 b1 r2 b r3 where
    d: "draw_letters G grid_vowelBag (nat (grid_vowelCount sz)) [] r = Some (b0, r1)"
    "draw_letters G grid_consonantBag (nat (sz - grid_vowelCount sz)) b0 r1 = Some (b1, r2)"
    "shuffle G b1 r2 = Some (b, r3)"
    and b: "length b = nat (grid_vowelCount sz) + nat (sz - grid_vowelCount sz)"
      "set b \<subseteq> set grid_vowelBag \<union> set grid_consonantBag"
      "length (filter is_grid_vowel b) = nat (grid_vowelCount sz)"
    using draw_two_bags [OF assms(1), of grid_vowelBag grid_consonantBag is_grid_vowel] by blast
  have az: "all_AZ b" by (rule grid_bags_AZ [OF b(2)])
  then have "drawGrid uc G sz r = Some (b, r3)"
    using d assms(2) by (simp add: drawGrid_def Let_def)
  then show ?thesis using az b(1,3) nv by (intro exI) auto
qed

section \<open>The retry loop\<close>

text \<open>A draw the solver accepts, and the board it makes.\<close>

definition solvable :: "(nat \<Rightarrow> nat) \<Rightarrow> 'r rng \<Rightarrow> Trie \<Rightarrow> int \<Rightarrow> int \<Rightarrow> 'r \<Rightarrow> (string \<times> 'r) option" where
  "solvable uc G t w h r =
    (case drawGrid uc G (w * h) r of
       None \<Rightarrow> None
     | Some (l, r) \<Rightarrow> if Solve t l w h = None then None else Some (l, r))"

definition board_of :: "Trie \<Rightarrow> int \<Rightarrow> int \<Rightarrow> string \<Rightarrow> grid_result" where
  "board_of t w h l =
    \<lparr>gr_letters = l, gr_width = w, gr_height = h, gr_words = the (Solve t l w h)\<rparr>"

interpretation gr: retry_loop "solvable uc G t w h" "board_of t w h" "\<lambda>x. length (gr_words x)" floor
  "grid_loop uc G t w h floor"
  for uc G t w h floor
  by unfold_locales
    (auto simp: solvable_def board_of_def Let_def split: option.splits prod.splits)

text \<open>The words a player can trace on a board: the specification of its answer set.\<close>

definition board_words :: "string list \<Rightarrow> int \<Rightarrow> int \<Rightarrow> string \<Rightarrow> string set" where
  "board_words ws w h l = {spell l p |p. trail w h {} p \<and> spell l p \<in> set ws \<and>
    isAlpha (spell l p) \<and> MinWordLen \<le> length p}"

lemma Solve_board_words:
  assumes "0 < w" "w * h \<le> 64" "int (length l) = w * h"
  obtains out where "Solve (NewTrie ws) l w h = Some out" "distinct out"
    "set out = board_words ws w h l"
  using Solve_correct [OF NewTrie_correct(1) [of ws] assms(1,2), of l] assms(3)
  by (auto simp: board_words_def NewTrie_correct(2))

lemma drawGrid_length:
  assumes "rng_ok G" "3 \<le> w * h" "drawGrid uc G (w * h) r = Some (l, r')"
  shows "int (length l) = w * h"
  using drawGrid_total [OF assms(1,2), of uc r] assms(3) by auto

lemma solvable_eq_drawGrid:
  assumes "rng_ok G" "0 < w" "3 \<le> w * h" "w * h \<le> 64"
  shows "solvable uc G (NewTrie ws) w h = drawGrid uc G (w * h)"
proof
  fix r
  obtain b r' where b: "drawGrid uc G (w * h) r = Some (b, r')" "int (length b) = w * h"
    using drawGrid_total [OF assms(1,3)] by blast
  obtain out where "Solve (NewTrie ws) b w h = Some out"
    by (rule Solve_board_words [OF assms(2,4) b(2)])
  then show "solvable uc G (NewTrie ws) w h r = drawGrid uc G (w * h) r"
    by (simp add: solvable_def b(1))
qed

lemma board_of_words:
  assumes "0 < w" "w * h \<le> 64" "int (length l) = w * h"
  shows "distinct (gr_words (board_of (NewTrie ws) w h l))"
    "set (gr_words (board_of (NewTrie ws) w h l)) = board_words ws w h l"
    "length (gr_words (board_of (NewTrie ws) w h l)) = card (board_words ws w h l)"
proof -
  obtain out where o: "Solve (NewTrie ws) l w h = Some out" "distinct out"
    "set out = board_words ws w h l"
    by (rule Solve_board_words [OF assms])
  then show "distinct (gr_words (board_of (NewTrie ws) w h l))"
    "set (gr_words (board_of (NewTrie ws) w h l)) = board_words ws w h l"
    "length (gr_words (board_of (NewTrie ws) w h l)) = card (board_words ws w h l)"
    using distinct_card [OF o(2)] by (simp_all add: board_of_def)
qed

lemma grid_generate_cases:
  assumes "rng_ok G" "0 < w" "3 \<le> w * h" "w * h \<le> 64"
  obtains ls res r' where "draws (drawGrid uc G (w * h)) grid_maxTries r = Some ls"
    "length ls = grid_maxTries" "\<forall>l \<in> set ls. int (length l) = w * h"
    "grid_generate uc G (NewTrie ws) w h r = Some (res, r')"
    "res = grid_zero \<or> res \<in> board_of (NewTrie ws) w h ` set ls"
    "grid_minWords (w * h) \<le> int (length (gr_words res)) \<or>
      (\<forall>l \<in> set ls. card (board_words ws w h l) \<le> length (gr_words res))"
proof -
  let ?t = "NewTrie ws"
  have "\<exists>ls. draws (drawGrid uc G (w * h)) grid_maxTries r = Some ls \<and> length ls = grid_maxTries \<and>
    (\<forall>l \<in> set ls. int (length l) = w * h)"
    by (rule draws_total) (use drawGrid_total [OF assms(1,3)] in blast)
  then obtain ls where ls: "draws (drawGrid uc G (w * h)) grid_maxTries r = Some ls"
    "length ls = grid_maxTries" "\<forall>l \<in> set ls. int (length l) = w * h" by blast
  have "draws (solvable uc G ?t w h) grid_maxTries r = Some ls"
    using ls(1) by (simp add: solvable_eq_drawGrid [OF assms])
  from gr.loop_result [OF this, of "grid_minWords (w * h)" grid_zero]
  obtain res r' where res: "grid_generate uc G ?t w h r = Some (res, r')"
    "res = grid_zero \<or> res \<in> board_of ?t w h ` set ls"
    "grid_minWords (w * h) \<le> int (length (gr_words res)) \<or>
      (\<forall>l \<in> set ls. length (gr_words (board_of ?t w h l)) \<le> length (gr_words res))"
    unfolding grid_generate_def by blast
  have "card (board_words ws w h l) = length (gr_words (board_of ?t w h l))" if "l \<in> set ls" for l
    using ls(3) that board_of_words(3) [OF assms(2,4)] by auto
  then show thesis using that [OF ls res(1,2)] res(3) by auto
qed

interpretation grp: retry_pair "solvable uc G t w h" floor
  "board_of t w h" "\<lambda>x. length (gr_words x)" "grid_loop uc G t w h floor"
  "solvable uc G t' w h" "board_of t' w h" "\<lambda>x. length (gr_words x)" "grid_loop uc G t' w h floor"
  for uc G w h floor t t'
  by unfold_locales

definition same_board :: "grid_result \<Rightarrow> grid_result \<Rightarrow> bool" where
  "same_board x y \<longleftrightarrow> gr_letters x = gr_letters y \<and> gr_width x = gr_width y \<and>
    gr_height x = gr_height y \<and> mset (gr_words x) = mset (gr_words y)"

lemma same_board_of:
  assumes "0 < w" "w * h \<le> 64" "int (length l) = w * h" "set ws = set ws'"
  shows "same_board (board_of (NewTrie ws) w h l) (board_of (NewTrie ws') w h l)"
proof -
  have "set (gr_words (board_of (NewTrie ws) w h l)) = set (gr_words (board_of (NewTrie ws') w h l))"
    using assms(4) by (simp add: board_of_words(2) [OF assms(1-3)] board_words_def)
  then have "mset (gr_words (board_of (NewTrie ws) w h l)) = mset (gr_words (board_of (NewTrie ws') w h l))"
    by (simp add: set_eq_iff_mset_eq_distinct board_of_words(1) [OF assms(1-3)])
  then show ?thesis by (simp add: same_board_def) (simp add: board_of_def)
qed

lemma grid_generate_perm:
  assumes "rng_ok G" "0 < w" "3 \<le> w * h" "w * h \<le> 64" "set ws = set ws'"
  shows "rel_option (rel_prod same_board (=))
    (grid_generate uc G (NewTrie ws) w h r) (grid_generate uc G (NewTrie ws') w h r)"
proof -
  let ?good = "\<lambda>l :: string. int (length l) = w * h"
  let ?al = "grp.alike (NewTrie ws) w h (NewTrie ws') ?good grid_zero"
  have "same_board x y" if "?al x y" for x y
    using that same_board_of [OF assms(2,4) _ assms(5)] by (auto simp: grp.alike_def same_board_def)
  then have le: "rel_prod ?al (=) \<le> rel_prod same_board (=)"
    by (intro prod.rel_mono) auto
  have "rel_option (rel_prod ?al (=))
      (grid_loop uc G (NewTrie ws) w h (grid_minWords (w * h)) grid_maxTries grid_zero r)
      (grid_loop uc G (NewTrie ws') w h (grid_minWords (w * h)) grid_maxTries grid_zero r)"
  proof (rule grp.loops_alike)
    fix r show "solvable uc G (NewTrie ws') w h r = solvable uc G (NewTrie ws) w h r"
      by (simp add: solvable_eq_drawGrid [OF assms(1-4)])
  next
    fix l x r assume "solvable uc G (NewTrie ws) w h r = Some (l, x)"
    then show "?good l"
      using drawGrid_length [OF assms(1,3)] by (simp add: solvable_eq_drawGrid [OF assms(1-4)])
  next
    fix l assume "?good l"
    then have "same_board (board_of (NewTrie ws) w h l) (board_of (NewTrie ws') w h l)"
      by (rule same_board_of [OF assms(2,4) _ assms(5)])
    then show "length (gr_words (board_of (NewTrie ws) w h l)) =
        length (gr_words (board_of (NewTrie ws') w h l))"
      unfolding same_board_def by (metis size_mset)
  qed (simp add: grp.alike_def)
  then show ?thesis
    unfolding grid_generate_def using option.rel_mono [OF le] by blast
qed

section \<open>Properties\<close>

text \<open>
  C24: generating a board always returns, for every board of 3 to 64 cells; the board has
  the requested dimensions, its letters are one of the 300 draws and its answer set is exactly the
  words that can be traced on it, and either it clears the difficulty floor or no draw has more
  words (with no traceable word in any draw the zero board is returned).
\<close>

theorem grid_GenerateSolo_correct:
  assumes "rng_ok G" "0 < w" "3 \<le> w * h" "w * h \<le> 64"
  shows "\<exists>ls res r'. draws (drawGrid uc G (w * h)) grid_maxTries r = Some ls \<and>
    grid_GenerateSolo uc G (NewTrie ws) w h r = Some (res, r') \<and>
    (res = grid_zero \<or> gr_letters res \<in> set ls \<and> gr_width res = w \<and> gr_height res = h \<and>
      distinct (gr_words res) \<and> set (gr_words res) = board_words ws w h (gr_letters res)) \<and>
    (grid_minWords (w * h) \<le> int (length (gr_words res)) \<or>
      (\<forall>l \<in> set ls. card (board_words ws w h l) \<le> length (gr_words res)))"
proof -
  obtain ls res r' where g: "draws (drawGrid uc G (w * h)) grid_maxTries r = Some ls"
    "\<forall>l \<in> set ls. int (length l) = w * h"
    "grid_generate uc G (NewTrie ws) w h r = Some (res, r')"
    "res = grid_zero \<or> res \<in> board_of (NewTrie ws) w h ` set ls"
    "grid_minWords (w * h) \<le> int (length (gr_words res)) \<or>
      (\<forall>l \<in> set ls. card (board_words ws w h l) \<le> length (gr_words res))"
    by (rule grid_generate_cases [OF assms]) blast
  have "gr_letters res \<in> set ls \<and> gr_width res = w \<and> gr_height res = h \<and>
      distinct (gr_words res) \<and> set (gr_words res) = board_words ws w h (gr_letters res)"
    if res: "res \<in> board_of (NewTrie ws) w h ` set ls"
  proof -
    obtain l where l: "l \<in> set ls" "res = board_of (NewTrie ws) w h l" using res by blast
    then have "int (length l) = w * h" using g(2) by blast
    then show ?thesis
      using l board_of_words(1,2) [OF assms(2,4), of l ws] by (simp add: board_of_def)
  qed
  then show ?thesis using g unfolding grid_GenerateSolo_def by blast
qed

text \<open>
  The daily board of a date is determined by the date, the dimensions and the set of words:
  tries built from the same words in another order, or with repetitions, give the same letters and
  the same answer set.
\<close>

theorem grid_GenerateDaily_deterministic:
  assumes "rng_ok G" "0 < w" "3 \<le> w * h" "w * h \<le> 64" "set ws = set ws'"
  shows "rel_option same_board (grid_GenerateDaily uc G (NewTrie ws) w h dateKey)
    (grid_GenerateDaily uc G (NewTrie ws') w h dateKey)"
  unfolding grid_GenerateDaily_def by (rule rel_option_map_fst) (rule grid_generate_perm [OF assms])

text \<open>
  A drawn board has one letter A to Z per cell and the intended number of vowels: a third of
  the cells but at least three, and never more than the size less three.
\<close>

theorem drawGrid_composition:
  assumes "rng_ok G" "3 \<le> sz"
  shows "\<exists>b r'. drawGrid uc G sz r = Some (b, r') \<and> int (length b) = sz \<and> isAlpha b \<and>
    int (length (filter (\<lambda>c. c \<in> set ''AEIOU'') b)) = min (max (sz div 3) 3) (sz - 3)"
  using drawGrid_total [OF assms, of uc r] assms(2)
  by (simp add: grid_vowelCount_def Let_def min_def max_def del: set_simps)
    (auto split: if_splits)

section \<open>Witnesses\<close>

text \<open>A generator that always draws the first choice.\<close>

definition grid_rng :: "unit rng" where
  "grid_rng = \<lparr>new_source = (\<lambda>_. ()), intn = (\<lambda>_ r. (0, r)), int31n = (\<lambda>_ r. (0, r))\<rparr>"

lemma rng_ok_grid_rng: "rng_ok grid_rng"
  by (simp add: rng_ok_def grid_rng_def)

theorem grid_GenerateSolo_correct_witness:
  "\<exists>ls res r'. draws (drawGrid (\<lambda>r. r) grid_rng 16) grid_maxTries () = Some ls \<and>
    grid_GenerateSolo (\<lambda>r. r) grid_rng (NewTrie [''BAB'']) 4 4 () = Some (res, r') \<and>
    (8 \<le> int (length (gr_words res)) \<or>
      (\<forall>l \<in> set ls. card (board_words [''BAB''] 4 4 l) \<le> length (gr_words res)))"
  using grid_GenerateSolo_correct [OF rng_ok_grid_rng, of 4 4 "\<lambda>r. r" "()" "[''BAB'']"]
  by (simp add: grid_minWords_def) blast

theorem grid_GenerateDaily_deterministic_witness:
  "rel_option same_board
    (grid_GenerateDaily (\<lambda>r. r) grid_rng (NewTrie [''BAB'', ''ABBA'']) 4 4 ''2026-07-16'')
    (grid_GenerateDaily (\<lambda>r. r) grid_rng (NewTrie [''ABBA'', ''BAB'', ''BAB'']) 4 4 ''2026-07-16'')"
  by (rule grid_GenerateDaily_deterministic [OF rng_ok_grid_rng]) auto

theorem drawGrid_composition_witness:
  "\<exists>b r'. drawGrid (\<lambda>r. r) grid_rng 16 () = Some (b, r') \<and> int (length b) = 16 \<and> isAlpha b \<and>
    int (length (filter (\<lambda>c. c \<in> set ''AEIOU'') b)) = 5"
  using drawGrid_composition [OF rng_ok_grid_rng, of 16 "\<lambda>r. r" "()"] by simp

end
