(* ===== verification/Numbers.thy ===== *)
theory Numbers
  imports Go_Strings
begin

text \<open>
  Numbers and dates as text: decimal \<open>big.Int\<close> strings (\<open>SetString(s, 10)\<close>, \<open>String\<close>),
  \<open>strconv.Atoi\<close>, and the UTC date of a time with \<open>AddDate\<close> and the layout \<open>2006-01-02\<close>. Times
  are nanoseconds since the zero time, 0001-01-01. The lemmas are the round trip of the decimal
  strings and that different days have different date keys.
\<close>

section \<open>Decimal strings\<close>

definition digit :: "nat \<Rightarrow> char" where
  "digit d = char_of (48 + d)"

fun digits :: "nat \<Rightarrow> string" where
  "digits n = (if n < 10 then [digit n] else digits (n div 10) @ [digit (n mod 10)])"

declare digits.simps [simp del]

definition big_String :: "int \<Rightarrow> string" where
  "big_String x = (if x < 0 then CHR ''-'' # digits (nat (- x)) else digits (nat x))"

definition is_digit :: "char \<Rightarrow> bool" where
  "is_digit c \<longleftrightarrow> 48 \<le> byte c \<and> byte c \<le> 57"

fun parse_digits :: "nat \<Rightarrow> string \<Rightarrow> nat option" where
  "parse_digits acc [] = Some acc"
| "parse_digits acc (c # cs) =
    (if is_digit c then parse_digits (acc * 10 + (byte c - 48)) cs else None)"

definition parse_nat :: "string \<Rightarrow> nat option" where
  "parse_nat s = (if s = [] then None else parse_digits 0 s)"

definition big_SetString :: "string \<Rightarrow> int option" where
  "big_SetString s =
    (case s of
       [] \<Rightarrow> None
     | c # cs \<Rightarrow>
         if c = CHR ''-'' then map_option (\<lambda>n. - int n) (parse_nat cs)
         else if c = CHR ''+'' then map_option int (parse_nat cs)
         else map_option int (parse_nat s))"

text \<open>\<open>strconv.Atoi\<close> and \<open>ParseInt(s, 10, 64)\<close>: the same syntax, within 64 bits.\<close>

definition Atoi :: "string \<Rightarrow> int option" where
  "Atoi s = (case big_SetString s of
     Some n \<Rightarrow> if - (2 ^ 63) \<le> n \<and> n < 2 ^ 63 then Some n else None | None \<Rightarrow> None)"

lemma byte_digit: "d < 10 \<Longrightarrow> byte (digit d) = 48 + d"
  by (simp add: digit_def)

lemma is_digit_digit: "d < 10 \<Longrightarrow> is_digit (digit d)"
  by (simp add: is_digit_def byte_digit)

lemma digits_set: "c \<in> set (digits n) \<Longrightarrow> is_digit c"
  by (induction n rule: digits.induct)
    (subst (asm) (2) digits.simps, auto simp: is_digit_digit split: if_splits)

lemma digits_not_Nil [simp]: "digits n \<noteq> []"
  by (subst digits.simps) simp

lemma parse_digits_append:
  "parse_digits acc (s @ t) = Option.bind (parse_digits acc s) (\<lambda>m. parse_digits m t)"
  by (induction s arbitrary: acc) auto

lemma parse_digits_digits: "parse_digits 0 (digits n) = Some n"
proof (induction n rule: digits.induct)
  case (1 n)
  show ?case
  proof (cases "n < 10")
    case True
    then show ?thesis by (subst digits.simps) (simp add: is_digit_digit byte_digit)
  next
    case False
    then show ?thesis using 1
      by (subst digits.simps) (simp add: parse_digits_append is_digit_digit byte_digit)
  qed
qed

lemma digits_hd_sign: "hd (digits n) \<noteq> CHR ''-''" "hd (digits n) \<noteq> CHR ''+''"
  using digits_set [of "hd (digits n)" n] by (auto simp: is_digit_def)

text \<open>Every integer reads back as printed.\<close>

lemma SetString_String: "big_SetString (big_String x) = Some x"
proof (cases "x < 0")
  case True
  then show ?thesis
    by (simp add: big_String_def big_SetString_def parse_nat_def parse_digits_digits)
next
  case False
  obtain c cs where d: "digits (nat x) = c # cs" by (metis digits_not_Nil neq_Nil_conv)
  then have "c \<noteq> CHR ''-''" "c \<noteq> CHR ''+''" using digits_hd_sign [of "nat x"] by auto
  moreover have "parse_digits 0 (c # cs) = Some (nat x)" using parse_digits_digits [of "nat x"] d by simp
  ultimately show ?thesis using False d by (simp add: big_String_def big_SetString_def parse_nat_def)
qed

lemma inj_big_String: "inj big_String"
  by (rule injI) (metis SetString_String option.inject)

lemma inj_digits: "inj digits"
  by (rule injI) (metis parse_digits_digits option.inject)

section \<open>Dates\<close>

type_synonym date = "nat \<times> nat \<times> nat"

definition leap :: "nat \<Rightarrow> bool" where
  "leap y \<longleftrightarrow> y mod 4 = 0 \<and> (y mod 100 \<noteq> 0 \<or> y mod 400 = 0)"

definition month_days :: "nat \<Rightarrow> nat \<Rightarrow> nat" where
  "month_days y m =
    (if m = 2 then (if leap y then 29 else 28) else if m \<in> {4, 6, 9, 11} then 30 else 31)"

fun next_day :: "date \<Rightarrow> date" where
  "next_day (y, m, d) =
    (if d < month_days y m then (y, m, d + 1) else if m < 12 then (y, m + 1, 1) else (y + 1, 1, 1))"

definition day_ns :: int where
  "day_ns = 86400 * 1000000000"

text \<open>The date of a day number; day 0 is 0001-01-01.\<close>

definition date_of_day :: "nat \<Rightarrow> date" where
  "date_of_day n = (next_day ^^ n) (1, 1, 1)"

definition pad :: "nat \<Rightarrow> string \<Rightarrow> string" where
  "pad w s = replicate (w - length s) (CHR ''0'') @ s"

fun format_date :: "date \<Rightarrow> string" where
  "format_date (y, m, d) = pad 4 (digits y) @ CHR ''-'' # pad 2 (digits m) @ CHR ''-'' # pad 2 (digits d)"

text \<open>\<open>t.UTC().Format("2006-01-02")\<close> and \<open>t.AddDate(0, 0, i)\<close>: in UTC every day has 24 hours.\<close>

definition date_key :: "int \<Rightarrow> string" where
  "date_key t = format_date (date_of_day (nat (t div day_ns)))"

definition add_days :: "int \<Rightarrow> nat \<Rightarrow> int" where
  "add_days t i = t + int i * day_ns"

definition date_less :: "date \<Rightarrow> date \<Rightarrow> bool" where
  "date_less a b \<longleftrightarrow> (case a of (y, m, d) \<Rightarrow> case b of (y', m', d') \<Rightarrow>
    y < y' \<or> y = y' \<and> (m < m' \<or> m = m' \<and> d < d'))"

lemma date_less_next: "date_less a (next_day a)"
  by (cases a) (auto simp: date_less_def)

lemma date_less_trans: "date_less a b \<Longrightarrow> date_less b c \<Longrightarrow> date_less a c"
  unfolding date_less_def by (auto split: prod.splits)

lemma date_less_irrefl: "\<not> date_less a a"
  by (simp add: date_less_def split: prod.split)

lemma date_of_day_mono: "i < j \<Longrightarrow> date_less (date_of_day i) (date_of_day j)"
proof (induction j)
  case (Suc j)
  have s: "date_less (date_of_day j) (date_of_day (Suc j))"
    by (simp add: date_of_day_def date_less_next)
  show ?case
  proof (cases "i = j")
    case False
    then have "date_less (date_of_day i) (date_of_day j)" using Suc by simp
    then show ?thesis using s by (rule date_less_trans)
  qed (use s in simp)
qed simp

lemma inj_date_of_day: "inj date_of_day"
  by (rule injI) (metis date_of_day_mono date_less_irrefl linorder_neqE_nat)

lemma is_digit_pad: "c \<in> set (pad w (digits n)) \<Longrightarrow> is_digit c"
  by (auto simp: pad_def digits_set) (simp add: is_digit_def)

lemma parse_zeros: "parse_digits 0 (replicate k (CHR ''0'') @ s) = parse_digits 0 s"
  by (induction k) (auto simp: is_digit_def)

lemma pad_inj: "pad w (digits n) = pad w (digits m) \<Longrightarrow> n = m"
  using parse_zeros by (metis pad_def parse_digits_digits option.inject)

lemma split_dash:
  assumes "\<forall>c \<in> set a. is_digit c" "\<forall>c \<in> set b. is_digit c"
    "a @ CHR ''-'' # s = b @ CHR ''-'' # t"
  shows "a = b \<and> s = t"
proof -
  have d: "\<not> is_digit (CHR ''-'')" by (simp add: is_digit_def)
  have "takeWhile is_digit (a @ CHR ''-'' # s) = a" "takeWhile is_digit (b @ CHR ''-'' # t) = b"
    using assms(1,2) d by (simp_all add: takeWhile_append2)
  then show ?thesis using assms(3) by simp
qed

lemma inj_format_date: "inj format_date"
proof (rule injI)
  fix a b :: date assume e: "format_date a = format_date b"
  obtain y m d y' m' d' where ab: "a = (y, m, d)" "b = (y', m', d')" by (cases a; cases b)
  have dg: "\<forall>c \<in> set (pad w (digits n)). is_digit c" for w n using is_digit_pad by blast
  have 1: "pad 4 (digits y) = pad 4 (digits y') \<and>
      pad 2 (digits m) @ CHR ''-'' # pad 2 (digits d) = pad 2 (digits m') @ CHR ''-'' # pad 2 (digits d')"
    using e by (intro split_dash [OF dg dg]) (simp add: ab)
  have "pad 2 (digits m) = pad 2 (digits m') \<and> pad 2 (digits d) = pad 2 (digits d')"
    by (intro split_dash [OF dg dg]) (simp only: 1)
  then show "a = b" using 1 pad_inj by (simp add: ab) blast
qed

lemma date_key_add_days:
  "0 \<le> t \<Longrightarrow> date_key (add_days t i) = format_date (date_of_day (nat (t div day_ns) + i))"
  by (simp add: date_key_def add_days_def day_ns_def nat_add_distrib pos_imp_zdiv_nonneg_iff
      add.commute)

lemma date_key_days_inj:
  assumes "0 \<le> t"
  shows "date_key (add_days t i) = date_key (add_days t j) \<longleftrightarrow> i = j"
proof
  assume "date_key (add_days t i) = date_key (add_days t j)"
  then have "date_of_day (nat (t div day_ns) + i) = date_of_day (nat (t div day_ns) + j)"
    unfolding date_key_add_days [OF assms] by (rule injD [OF inj_format_date])
  then have "nat (t div day_ns) + i = nat (t div day_ns) + j"
    by (rule injD [OF inj_date_of_day])
  then show "i = j" by simp
qed simp

end
