(* ===== verification/Store.thy ===== *)
theory Store
  imports Go_Strings "HOL-Library.Product_Lexorder"
begin

text \<open>
  \<open>internal/store/store.go\<close>: the daily rounds and their leaderboards. A \<open>Persister\<close> is a record
  of functions over a state of its own, as the Go interface is; the argument \<open>None\<close> is the nil
  persister. A \<open>*Daily\<close> is reached through its date key, which the store never reassigns. Times
  are nanoseconds, 0 the zero time. Each operation runs under its mutex and is one step. The
  locale \<open>persister\<close> is what the store relies on; \<open>key_order\<close> gives the ranking.
\<close>

section \<open>Model\<close>

record Submission =
  sub_address :: string
  sub_score :: int
  sub_words :: int
  sub_at :: int

record PaidRoundInfo =
  pr_dateKey :: string
  pr_letters :: string
  pr_roundID :: string
  pr_endTime :: int

record 'p Persister =
  UpsertDailyRound :: "string \<Rightarrow> string \<Rightarrow> bool \<Rightarrow> string \<Rightarrow> int \<Rightarrow> 'p \<Rightarrow> 'p"
  LoadDailyRound :: "string \<Rightarrow> 'p \<Rightarrow> (string \<times> bool \<times> string \<times> int) option \<times> 'p"
  ListPaidDailyRounds :: "'p \<Rightarrow> PaidRoundInfo list \<times> 'p"
  UpsertSubmission :: "string \<Rightarrow> Submission \<Rightarrow> 'p \<Rightarrow> 'p"
  LoadSubmissions :: "string \<Rightarrow> 'p \<Rightarrow> Submission list \<times> 'p"
  UpsertPlayerName :: "string \<Rightarrow> string \<Rightarrow> 'p \<Rightarrow> 'p"

record Daily =
  d_dateKey :: string
  d_letters :: string
  d_paid :: bool
  d_roundID :: string
  d_endTime :: int
  d_submissions :: "(string \<times> Submission) list"

record LeaderboardEntry =
  lb_rank :: int
  lb_address :: string
  lb_score :: int
  lb_words :: int

text \<open>The store, with the state of the persister beside it.\<close>

record 'p Store =
  dailies :: "(string \<times> Daily) list"
  pstate :: 'p

definition store_New :: "'p \<Rightarrow> 'p Store" where
  "store_New p = \<lparr>dailies = [], pstate = p\<rparr>"

definition lower_char :: "char \<Rightarrow> char" where
  "lower_char c = (if 65 \<le> byte c \<and> byte c \<le> 90 then char_of (byte c + 32) else c)"

definition lower :: "string \<Rightarrow> string" where
  "lower s = map lower_char s"

definition blank_daily :: "string \<Rightarrow> string \<Rightarrow> Daily" where
  "blank_daily dateKey letters = \<lparr>d_dateKey = dateKey, d_letters = letters, d_paid = False,
    d_roundID = [], d_endTime = 0, d_submissions = []\<rparr>"

definition restore_subs :: "Submission list \<Rightarrow> (string \<times> Submission) list" where
  "restore_subs subs = fold (\<lambda>sub m. AList.update (lower (sub_address sub)) sub m) subs []"

definition recover_daily :: "'p Persister option \<Rightarrow> string \<Rightarrow> 'p \<Rightarrow> Daily \<times> 'p" where
  "recover_daily P dateKey p =
    (let d = blank_daily dateKey []
     in case P of
          None \<Rightarrow> (d, p)
        | Some P \<Rightarrow>
            (case LoadDailyRound P dateKey p of
               (None, p) \<Rightarrow> (d, p)
             | (Some (letters, paid, roundID, endTime), p) \<Rightarrow>
                 (case LoadSubmissions P dateKey p of
                    (subs, p) \<Rightarrow>
                      (d\<lparr>d_letters := letters, d_paid := paid, d_roundID := roundID,
                         d_endTime := endTime, d_submissions := restore_subs subs\<rparr>, p))))"

text \<open>The thunk \<open>gen\<close> is its outcome, used only when no letters are known.\<close>

definition GetOrCreateDaily :: "'p Persister option \<Rightarrow> string \<Rightarrow> string res \<Rightarrow> 'p Store \<Rightarrow>
    Daily res \<times> 'p Store" where
  "GetOrCreateDaily P dateKey gen s =
    (case map_of (dailies s) dateKey of
       Some d \<Rightarrow> (Ok d, s)
     | None \<Rightarrow>
         (case recover_daily P dateKey (pstate s) of
            (d, p) \<Rightarrow>
              (case (if d_letters d = [] then gen else Ok (d_letters d)) of
                 Ok l \<Rightarrow> let d = d\<lparr>d_letters := l\<rparr>
                   in (Ok d, s\<lparr>dailies := AList.update dateKey d (dailies s), pstate := p\<rparr>)
               | Err e \<Rightarrow> (Err e, s\<lparr>pstate := p\<rparr>)
               | Panic \<Rightarrow> (Panic, s\<lparr>pstate := p\<rparr>))))"

definition OpenPaidDaily :: "'p Persister option \<Rightarrow> string \<Rightarrow> string \<Rightarrow> int \<Rightarrow> string \<Rightarrow> 'p Store \<Rightarrow>
    Daily \<times> 'p Store" where
  "OpenPaidDaily P dateKey roundID endTime letters s =
    (let d = (case map_of (dailies s) dateKey of Some d \<Rightarrow> d | None \<Rightarrow> blank_daily dateKey letters);
         d = d\<lparr>d_paid := True, d_roundID := roundID, d_endTime := endTime\<rparr>;
         p = (case P of
                None \<Rightarrow> pstate s
              | Some P \<Rightarrow> UpsertDailyRound P dateKey (d_letters d) True roundID endTime (pstate s))
     in (d, s\<lparr>dailies := AList.update dateKey d (dailies s), pstate := p\<rparr>))"

definition paid_info :: "Daily \<Rightarrow> PaidRoundInfo" where
  "paid_info d = \<lparr>pr_dateKey = d_dateKey d, pr_letters = d_letters d, pr_roundID = d_roundID d,
    pr_endTime = d_endTime d\<rparr>"

definition later_key :: "PaidRoundInfo \<Rightarrow> PaidRoundInfo \<Rightarrow> bool" where
  "later_key x y \<longleftrightarrow> pr_dateKey x > pr_dateKey y"

definition ListPaidDailies :: "'p Persister option \<Rightarrow> 'p Store \<Rightarrow> PaidRoundInfo list \<times> 'p Store" where
  "ListPaidDailies P s =
    (case P of
       Some P \<Rightarrow> (case ListPaidDailyRounds P (pstate s) of (out, p) \<Rightarrow> (out, s\<lparr>pstate := p\<rparr>))
     | None \<Rightarrow> (sort_slice later_key
         (map paid_info (filter d_paid (map snd (map_entries (dailies s))))), s))"

definition Daily_Submit :: "'p Persister option \<Rightarrow> Submission \<Rightarrow> Daily \<times> 'p \<Rightarrow> Daily \<times> 'p" where
  "Daily_Submit P sub dp =
    (case dp of
       (d, p) \<Rightarrow>
         let key = lower (sub_address sub)
         in if (case map_of (d_submissions d) key of
                  Some prev \<Rightarrow> sub_score prev \<ge> sub_score sub | None \<Rightarrow> False)
            then (d, p)
            else (d\<lparr>d_submissions := AList.update key sub (d_submissions d)\<rparr>,
                  case P of None \<Rightarrow> p | Some P \<Rightarrow> UpsertSubmission P (d_dateKey d) sub p))"

text \<open>\<open>d.Submit\<close> through the pointer the store holds under the key.\<close>

definition store_submit :: "'p Persister option \<Rightarrow> string \<Rightarrow> Submission \<Rightarrow> 'p Store \<Rightarrow> 'p Store" where
  "store_submit P dateKey sub s =
    (case map_of (dailies s) dateKey of
       None \<Rightarrow> s
     | Some d \<Rightarrow>
         (case Daily_Submit P sub (d, pstate s) of
            (d, p) \<Rightarrow> s\<lparr>dailies := AList.update dateKey d (dailies s), pstate := p\<rparr>))"

definition ranks_before :: "Submission \<Rightarrow> Submission \<Rightarrow> bool" where
  "ranks_before x y =
    (if sub_score x \<noteq> sub_score y then sub_score x > sub_score y else sub_at x < sub_at y)"

definition ranked :: "Daily \<Rightarrow> Submission list" where
  "ranked d = sort_slice ranks_before (map snd (map_entries (d_submissions d)))"

definition Leaderboard :: "Daily \<Rightarrow> LeaderboardEntry list" where
  "Leaderboard d =
    map (\<lambda>(i, s). \<lparr>lb_rank = int i + 1, lb_address = sub_address s, lb_score = sub_score s,
        lb_words = sub_words s\<rparr>)
      (enumerate 0 (ranked d))"

text \<open>The operations of the store, as requests reach them.\<close>

datatype store_op =
    Get_Or_Create string "string res"
  | Open_Paid string string int string
  | Submit_To string Submission

fun run_op :: "'p Persister option \<Rightarrow> store_op \<Rightarrow> 'p Store \<Rightarrow> 'p Store" where
  "run_op P (Get_Or_Create k gen) s = snd (GetOrCreateDaily P k gen s)"
| "run_op P (Open_Paid k rid et l) s = snd (OpenPaidDaily P k rid et l s)"
| "run_op P (Submit_To k sub) s = store_submit P k sub s"

section \<open>Submissions\<close>

definition keep_best :: "Submission \<Rightarrow> (string \<times> Submission) list \<Rightarrow> (string \<times> Submission) list" where
  "keep_best sub m =
    (case map_of m (lower (sub_address sub)) of
       Some prev \<Rightarrow> if sub_score sub \<le> sub_score prev then m
         else AList.update (lower (sub_address sub)) sub m
     | None \<Rightarrow> AList.update (lower (sub_address sub)) sub m)"

lemma Daily_Submit_fst: "fst (Daily_Submit P sub (d, p)) =
    d\<lparr>d_submissions := keep_best sub (d_submissions d)\<rparr>"
  by (simp add: Daily_Submit_def keep_best_def Let_def split: option.splits)

lemma Daily_Submit_snd: "snd (Daily_Submit P sub (d, p)) =
    (if keep_best sub (d_submissions d) = d_submissions d \<and>
        (\<exists>prev. map_of (d_submissions d) (lower (sub_address sub)) = Some prev \<and>
          sub_score sub \<le> sub_score prev) then p
     else case P of None \<Rightarrow> p | Some P \<Rightarrow> UpsertSubmission P (d_dateKey d) sub p)"
  by (simp add: Daily_Submit_def keep_best_def Let_def split: option.splits)

text \<open>
  \<open>s\<close> is the first submission of the player \<open>k\<close> with the player's highest score.
\<close>

definition first_best :: "string \<Rightarrow> Submission list \<Rightarrow> Submission \<Rightarrow> bool" where
  "first_best k subs s \<longleftrightarrow> (\<exists>us vs. subs = us @ s # vs \<and> lower (sub_address s) = k \<and>
    (\<forall>t \<in> set us. lower (sub_address t) = k \<longrightarrow> sub_score t < sub_score s) \<and>
    (\<forall>t \<in> set vs. lower (sub_address t) = k \<longrightarrow> sub_score t \<le> sub_score s))"

lemma first_best_Nil [simp]: "\<not> first_best k [] s"
  by (simp add: first_best_def)

lemma first_best_snoc: "first_best k (xs @ [x]) s \<longleftrightarrow>
  (s = x \<and> lower (sub_address x) = k \<and>
    (\<forall>t \<in> set xs. lower (sub_address t) = k \<longrightarrow> sub_score t < sub_score x)) \<or>
  (first_best k xs s \<and> (lower (sub_address x) = k \<longrightarrow> sub_score x \<le> sub_score s))"
  (is "?L \<longleftrightarrow> ?A \<or> ?B")
proof
  assume ?L
  then obtain us vs where d: "xs @ [x] = us @ s # vs" "lower (sub_address s) = k"
    "\<forall>t \<in> set us. lower (sub_address t) = k \<longrightarrow> sub_score t < sub_score s"
    "\<forall>t \<in> set vs. lower (sub_address t) = k \<longrightarrow> sub_score t \<le> sub_score s"
    unfolding first_best_def by blast
  show "?A \<or> ?B"
  proof (cases vs rule: rev_cases)
    case Nil
    then show ?thesis using d by simp
  next
    case (snoc ws y)
    then have "xs = us @ s # ws" "y = x" using d(1) by simp_all
    then show ?thesis using d snoc unfolding first_best_def by auto
  qed
next
  assume "?A \<or> ?B"
  then show ?L
  proof
    assume ?A
    then show ?L unfolding first_best_def by (intro exI [of _ xs] exI [of _ "[]"]) simp
  next
    assume B: ?B
    then obtain us vs where "xs = us @ s # vs" "lower (sub_address s) = k"
      "\<forall>t \<in> set us. lower (sub_address t) = k \<longrightarrow> sub_score t < sub_score s"
      "\<forall>t \<in> set vs. lower (sub_address t) = k \<longrightarrow> sub_score t \<le> sub_score s"
      unfolding first_best_def by blast
    then show ?L using B unfolding first_best_def by (intro exI [of _ us] exI [of _ "vs @ [x]"]) auto
  qed
qed

lemma first_best_mem: "first_best k xs s \<Longrightarrow> s \<in> set xs \<and> lower (sub_address s) = k"
  by (auto simp: first_best_def)

lemma first_best_max:
  assumes "first_best k xs s" "t \<in> set xs" "lower (sub_address t) = k"
  shows "sub_score t \<le> sub_score s"
proof -
  obtain us vs where d: "xs = us @ s # vs"
    "\<forall>t \<in> set us. lower (sub_address t) = k \<longrightarrow> sub_score t < sub_score s"
    "\<forall>t \<in> set vs. lower (sub_address t) = k \<longrightarrow> sub_score t \<le> sub_score s"
    using assms(1) unfolding first_best_def by blast
  then consider "t \<in> set us" | "t = s" | "t \<in> set vs" using assms(2) by auto
  then show ?thesis using d(2,3) assms(3) by cases (force intro: less_imp_le)+
qed

lemma map_of_keep_best: "map_of (keep_best sub m) k =
  (if lower (sub_address sub) \<noteq> k then map_of m k
   else case map_of m k of None \<Rightarrow> Some sub
     | Some prev \<Rightarrow> if sub_score sub \<le> sub_score prev then Some prev else Some sub)"
  by (auto simp: keep_best_def split: option.splits)

lemma fold_keep_best:
  "(map_of (fold keep_best xs []) k = None \<longleftrightarrow> (\<forall>t \<in> set xs. lower (sub_address t) \<noteq> k)) \<and>
    (\<forall>s. map_of (fold keep_best xs []) k = Some s \<longleftrightarrow> first_best k xs s)"
proof (induction xs rule: rev_induct)
  case Nil
  then show ?case by simp
next
  case (snoc x xs)
  let ?M = "fold keep_best xs []"
  have M: "map_of (fold keep_best (xs @ [x]) []) k = map_of (keep_best x ?M) k" by simp
  show ?case
  proof (cases "lower (sub_address x) = k")
    case False
    then show ?thesis using snoc by (auto simp: M map_of_keep_best first_best_snoc)
  next
    case x: True
    show ?thesis
    proof (cases "map_of ?M k")
      case None
      then have no: "\<forall>t \<in> set xs. lower (sub_address t) \<noteq> k" "\<And>s. \<not> first_best k xs s"
        using snoc by auto
      then show ?thesis using None x by (auto simp: M map_of_keep_best first_best_snoc)
    next
      case (Some prev)
      have u: "first_best k xs s \<longleftrightarrow> s = prev" for s
        using snoc.IH Some by (metis option.inject)
      then have p: "first_best k xs prev" by simp
      note mem = first_best_mem [OF p] and mx = first_best_max [OF p]
      have "first_best k (xs @ [x]) s \<longleftrightarrow>
          s = (if sub_score x \<le> sub_score prev then prev else x)" for s
        using u mem mx x by (force simp: first_best_snoc)
      then show ?thesis using Some x by (auto simp: M map_of_keep_best)
    qed
  qed
qed

lemma fold_Daily_Submit:
  "d_submissions (fst (fold (Daily_Submit P) subs (d, p))) = fold keep_best subs (d_submissions d)"
proof (induction subs arbitrary: d p)
  case (Cons x xs)
  obtain d1 p1 where dp: "Daily_Submit P x (d, p) = (d1, p1)" by fastforce
  then have "d1 = d\<lparr>d_submissions := keep_best x (d_submissions d)\<rparr>"
    using Daily_Submit_fst [of P x d p] by simp
  then show ?case using Cons [of d1 p1] by (simp add: dp)
qed simp

section \<open>The leaderboard\<close>

definition rank_key :: "Submission \<Rightarrow> int \<times> int" where
  "rank_key s = (- sub_score s, sub_at s)"

interpretation lb: key_order ranks_before rank_key
  by unfold_locales (auto simp: ranks_before_def rank_key_def less_prod_def)

lemma mset_ranked: "mset (ranked d) = mset (map snd (d_submissions d))"
  by (simp add: ranked_def map_entries_def)

lemma Leaderboard_nth:
  "i < length (ranked d) \<Longrightarrow> Leaderboard d ! i = \<lparr>lb_rank = int i + 1,
    lb_address = sub_address (ranked d ! i), lb_score = sub_score (ranked d ! i),
    lb_words = sub_words (ranked d ! i)\<rparr>"
  by (simp add: Leaderboard_def nth_enumerate_eq)

lemma length_Leaderboard: "length (Leaderboard d) = length (d_submissions d)"
  by (simp add: Leaderboard_def ranked_def map_entries_def)

lemma ranked_sorted: "i < j \<Longrightarrow> j < length (ranked d) \<Longrightarrow>
  \<not> ranks_before (ranked d ! j) (ranked d ! i)"
  using lb.sorted_sort_slice [of "map snd (map_entries (d_submissions d))"]
  unfolding ranked_def by (simp add: sorted_wrt_iff_nth_less)

section \<open>The rounds of a store\<close>

text \<open>A submission map: every entry sits under the lower-cased address it carries.\<close>

definition keyed :: "(string \<times> Submission) list \<Rightarrow> bool" where
  "keyed m \<longleftrightarrow> map_wf m \<and> (\<forall>a s. map_of m a = Some s \<longrightarrow> lower (sub_address s) = a)"

lemma keyed_Nil [simp]: "keyed []"
  by (simp add: keyed_def)

lemma keyed_update: "keyed m \<Longrightarrow> keyed (AList.update (lower (sub_address s)) s m)"
  by (simp add: keyed_def)

lemma keyed_keep_best: "keyed m \<Longrightarrow> keyed (keep_best s m)"
  using keyed_update by (auto simp: keep_best_def split: option.splits)

lemma restore_subs_snoc: "restore_subs (xs @ [x]) = AList.update (lower (sub_address x)) x (restore_subs xs)"
  by (simp add: restore_subs_def)

lemma restore_subs_Nil [simp]: "restore_subs [] = []"
  by (simp add: restore_subs_def)

lemma keyed_restore_subs: "keyed (restore_subs xs)"
  by (induction xs rule: rev_induct) (auto simp: restore_subs_snoc intro: keyed_update)

lemma restore_subs_distinct:
  assumes "distinct (map sub_address xs)" "\<forall>s \<in> set xs. lower (sub_address s) = sub_address s"
  shows "map_of (restore_subs xs) a = Some s \<longleftrightarrow> s \<in> set xs \<and> sub_address s = a"
  using assms
proof (induction xs rule: rev_induct)
  case (snoc x xs)
  have "s \<notin> set xs" if "sub_address s = sub_address x" for s
    using snoc.prems(1) that by (auto simp: image_iff)
  then show ?case using snoc by (auto simp: restore_subs_snoc)
qed simp

definition daily_ok :: "string \<Rightarrow> Daily \<Rightarrow> bool" where
  "daily_ok k d \<longleftrightarrow> d_dateKey d = k \<and> keyed (d_submissions d)"

definition store_ok :: "'p Store \<Rightarrow> bool" where
  "store_ok s \<longleftrightarrow> map_wf (dailies s) \<and> (\<forall>k d. map_of (dailies s) k = Some d \<longrightarrow> daily_ok k d)"

lemma store_ok_New: "store_ok (store_New p)"
  by (simp add: store_ok_def store_New_def)

lemma daily_ok_Submit: "daily_ok k d \<Longrightarrow> daily_ok k (fst (Daily_Submit P sub (d, p)))"
  by (simp add: daily_ok_def Daily_Submit_fst keyed_keep_best)

lemma daily_ok_recover: "daily_ok k (fst (recover_daily P k p))"
  by (auto simp: recover_daily_def daily_ok_def blank_daily_def keyed_restore_subs Let_def
      split: option.splits prod.splits)

lemma store_ok_update:
  "store_ok s \<Longrightarrow> daily_ok k d \<Longrightarrow> store_ok (s\<lparr>dailies := AList.update k d (dailies s), pstate := p\<rparr>)"
  by (auto simp: store_ok_def)

lemma store_ok_pstate: "store_ok s \<Longrightarrow> store_ok (s\<lparr>pstate := p\<rparr>)"
  by (simp add: store_ok_def)

lemma daily_ok_more [simp]:
  "daily_ok k (d\<lparr>d_letters := l\<rparr>) = daily_ok k d"
  "daily_ok k (d\<lparr>d_paid := b, d_roundID := rid, d_endTime := et\<rparr>) = daily_ok k d"
  by (simp_all add: daily_ok_def)

lemma daily_ok_blank [simp]: "daily_ok k (blank_daily k l)"
  by (simp add: daily_ok_def blank_daily_def)

text \<open>Each operation, by the case of the round's existence.\<close>

lemma GetOrCreate_existing:
  "map_of (dailies s) k = Some d \<Longrightarrow> GetOrCreateDaily P k gen s = (Ok d, s)"
  by (simp add: GetOrCreateDaily_def)

lemma GetOrCreate_new:
  assumes "map_of (dailies s) k = None" "recover_daily P k (pstate s) = (d, p)"
  shows "GetOrCreateDaily P k gen s =
    (case (if d_letters d = [] then gen else Ok (d_letters d)) of
       Ok l \<Rightarrow> (Ok (d\<lparr>d_letters := l\<rparr>),
         s\<lparr>dailies := AList.update k (d\<lparr>d_letters := l\<rparr>) (dailies s), pstate := p\<rparr>)
     | Err e \<Rightarrow> (Err e, s\<lparr>pstate := p\<rparr>) | Panic \<Rightarrow> (Panic, s\<lparr>pstate := p\<rparr>))"
  using assms unfolding GetOrCreateDaily_def Let_def by simp

lemma store_ok_GetOrCreate:
  assumes "store_ok s"
  shows "store_ok (snd (GetOrCreateDaily P k gen s))"
proof (cases "map_of (dailies s) k")
  case None
  obtain d p where dp: "recover_daily P k (pstate s) = (d, p)" by fastforce
  have "daily_ok k d" using daily_ok_recover [of k P "pstate s"] by (simp add: dp)
  then show ?thesis
    using assms by (auto simp: GetOrCreate_new [OF None dp] store_ok_update store_ok_pstate
        split: res.splits)
qed (use assms in \<open>simp add: GetOrCreate_existing\<close>)

lemma store_ok_run_op: "store_ok s \<Longrightarrow> store_ok (run_op P op s)"
proof (cases op)
  case (Get_Or_Create k gen)
  assume "store_ok s"
  then show ?thesis by (simp add: Get_Or_Create store_ok_GetOrCreate)
next
  case (Open_Paid k rid et l)
  assume ok: "store_ok s"
  then have "daily_ok k (case map_of (dailies s) k of Some d \<Rightarrow> d | None \<Rightarrow> blank_daily k l)"
    by (auto simp: store_ok_def split: option.splits)
  then show ?thesis using ok
    by (simp add: Open_Paid OpenPaidDaily_def Let_def store_ok_update)
next
  case (Submit_To k sub)
  assume ok: "store_ok s"
  show ?thesis
  proof (cases "map_of (dailies s) k")
    case (Some d)
    then have d: "daily_ok k d" using ok by (simp add: store_ok_def)
    obtain d' p where dp: "Daily_Submit P sub (d, pstate s) = (d', p)" by fastforce
    then have "daily_ok k d'" using daily_ok_Submit [OF d, of P sub "pstate s"] by simp
    then show ?thesis using ok Some dp by (simp add: Submit_To store_submit_def store_ok_update)
  qed (use ok in \<open>simp add: Submit_To store_submit_def\<close>)
qed

lemma store_ok_run: "store_ok s \<Longrightarrow> store_ok (fold (run_op P) ops s)"
  by (induction ops arbitrary: s) (auto simp: store_ok_run_op)

text \<open>What a later request sees of a round: nothing a player has is ever taken back.\<close>

definition daily_le :: "Daily \<Rightarrow> Daily \<Rightarrow> bool" where
  "daily_le d d' \<longleftrightarrow> d_dateKey d' = d_dateKey d \<and> d_letters d' = d_letters d \<and>
    (d_paid d \<longrightarrow> d_paid d') \<and>
    (\<forall>a s. map_of (d_submissions d) a = Some s \<longrightarrow>
      (\<exists>s'. map_of (d_submissions d') a = Some s' \<and> sub_score s \<le> sub_score s'))"

lemma daily_le_refl [simp]: "daily_le d d"
  by (simp add: daily_le_def)

lemma daily_le_trans: "daily_le a b \<Longrightarrow> daily_le b c \<Longrightarrow> daily_le a c"
  unfolding daily_le_def by (metis order_trans)

lemma daily_le_Submit: "daily_le d (fst (Daily_Submit P sub (d, p)))"
  by (auto simp: daily_le_def Daily_Submit_fst map_of_keep_best split: option.splits)

lemma run_op_grows:
  assumes "map_of (dailies s) k = Some d"
  shows "\<exists>d'. map_of (dailies (run_op P op s)) k = Some d' \<and> daily_le d d'"
proof (cases op)
  case (Get_Or_Create k' gen)
  show ?thesis
  proof (cases "map_of (dailies s) k'")
    case None
    then have ne: "k \<noteq> k'" using assms by auto
    obtain d1 p where dp: "recover_daily P k' (pstate s) = (d1, p)" by fastforce
    have "map_of (dailies (run_op P op s)) k = Some d"
      using assms ne by (simp add: Get_Or_Create GetOrCreate_new [OF None dp] split: res.splits)
    then show ?thesis by simp
  qed (simp add: Get_Or_Create GetOrCreate_existing assms)
next
  case (Open_Paid k' rid et l)
  then show ?thesis using assms
    by (cases "k = k'") (simp_all add: OpenPaidDaily_def Let_def daily_le_def)
next
  case (Submit_To k' sub)
  show ?thesis
  proof (cases "map_of (dailies s) k'")
    case (Some d1)
    obtain d2 p where dp: "Daily_Submit P sub (d1, pstate s) = (d2, p)" by fastforce
    have "daily_le d1 d2" using daily_le_Submit [of d1 P sub "pstate s"] by (simp add: dp)
    moreover have "run_op P op s = s\<lparr>dailies := AList.update k' d2 (dailies s), pstate := p\<rparr>"
      by (simp add: Submit_To store_submit_def Some dp)
    ultimately show ?thesis using assms Some by (cases "k = k'") simp_all
  qed (simp add: Submit_To store_submit_def assms)
qed

lemma run_grows:
  "map_of (dailies s) k = Some d \<Longrightarrow>
    \<exists>d'. map_of (dailies (fold (run_op P) ops s)) k = Some d' \<and> daily_le d d'"
proof (induction ops arbitrary: s d)
  case (Cons op ops)
  obtain d1 where d1: "map_of (dailies (run_op P op s)) k = Some d1" "daily_le d d1"
    using run_op_grows [OF Cons.prems] by blast
  then show ?case using Cons.IH [OF d1(1)] daily_le_trans by fastforce
qed auto

section \<open>Leaderboards after a restart\<close>

text \<open>Times that are stored rounded leave the leaderboard as it is, when they still tell equal scores apart.\<close>

lemma mset_stamped:
  assumes "map_wf m" "map_wf m'" "\<forall>a. map_of m' a = map_option f (map_of m a)"
  shows "mset (map snd m') = mset (map f (map snd m))"
proof -
  let ?g = "\<lambda>(k, v). (k, f v)"
  have "map fst (map ?g m) = map fst m" by (simp add: case_prod_unfold)
  then have d: "distinct m'" "distinct (map ?g m)"
    using assms(1,2) unfolding map_wf_def by (metis distinct_map)+
  have "(k, v) \<in> set m' \<longleftrightarrow> (k, v) \<in> set (map ?g m)" for k v
  proof -
    have "(k, v) \<in> set m' \<longleftrightarrow> (\<exists>z. (k, z) \<in> set m \<and> v = f z)"
      using assms(3) by (auto simp: set_entries_iff [OF assms(2)] set_entries_iff [OF assms(1)])
    then show ?thesis by (auto simp: image_iff) force
  qed
  then have "mset m' = mset (map ?g m)" using set_eq_iff_mset_eq_distinct [OF d] by auto
  then have "mset (map snd m') = mset (map snd (map ?g m))" by (metis mset_map)
  then show ?thesis by (simp add: comp_def case_prod_unfold)
qed

lemma Leaderboard_restored:
  assumes "keyed (d_submissions d)" "keyed (d_submissions d')"
    "\<forall>a. map_of (d_submissions d') a = map_option (\<lambda>s. s\<lparr>sub_at := ts (sub_at s)\<rparr>) (map_of (d_submissions d) a)"
    "mono ts" "inj_on (\<lambda>s. (sub_score s, ts (sub_at s))) (ran (map_of (d_submissions d)))"
  shows "Leaderboard d' = Leaderboard d"
proof -
  let ?f = "\<lambda>s. s\<lparr>sub_at := ts (sub_at s)\<rparr>"
  have wf: "map_wf (d_submissions d)" "map_wf (d_submissions d')" using assms(1,2) by (simp_all add: keyed_def)
  have m: "mset (map snd (d_submissions d')) = mset (map ?f (ranked d))"
    using mset_stamped [OF wf assms(3)] by (simp only: mset_map mset_ranked)
  have "ran (map_of (d_submissions d)) = snd ` set (d_submissions d)"
    by (auto simp: ran_def set_entries_iff [OF wf(1), symmetric] image_iff) force
  moreover have "set (ranked d) = snd ` set (d_submissions d)" by (simp add: ranked_def map_entries_def)
  ultimately have "inj_on rank_key (set (map ?f (ranked d)))"
    using assms(5) by (auto simp: inj_on_def rank_key_def)
  then have "ranked d' = sort_slice ranks_before (map ?f (ranked d))"
    unfolding ranked_def [of d'] map_entries_def using m by (intro lb.sort_slice_unique) (metis mset_eq_setD)+
  also have "\<dots> = map ?f (ranked d)"
  proof (rule sort_slice_sorted)
    have "sorted_wrt (\<lambda>x y. \<not> ranks_before y x) (ranked d)" unfolding ranked_def by (rule lb.sorted_sort_slice)
    then have "sorted_wrt (\<lambda>x y. \<not> ranks_before (?f y) (?f x)) (ranked d)"
      by (rule sorted_wrt_mono_rel [rotated])
        (use monoD [OF assms(4)] in \<open>auto simp: ranks_before_def not_less split: if_splits\<close>)
    then show "sorted_wrt (\<lambda>x y. \<not> ranks_before y x) (map ?f (ranked d))" by (simp add: sorted_wrt_map)
  qed
  finally have r: "ranked d' = map ?f (ranked d)" .
  then have "length (Leaderboard d') = length (Leaderboard d)" by (simp add: Leaderboard_def)
  then show ?thesis
    by (rule nth_equalityI) (simp add: Leaderboard_def r nth_enumerate_eq)
qed

section \<open>The paid rounds\<close>

interpretation pk: weak_order later_key
  by unfold_locales (auto simp: later_key_def)

lemma later_key_decreasing:
  assumes "distinct (map pr_dateKey l)"
  shows "sorted_wrt (\<lambda>x y. pr_dateKey x > pr_dateKey y) (sort_slice later_key l)"
proof -
  let ?out = "sort_slice later_key l"
  have d: "distinct (map pr_dateKey ?out)"
    using assms by (simp add: distinct_map_sort_slice)
  have s: "sorted_wrt (\<lambda>x y. \<not> later_key y x) ?out"
    by (rule pk.sorted_sort_slice)
  have "pr_dateKey (?out ! j) < pr_dateKey (?out ! i)" if "i < j" "j < length ?out" for i j
  proof -
    have "pr_dateKey (?out ! j) \<noteq> pr_dateKey (?out ! i)"
      using that d by (simp add: distinct_conv_nth)
    moreover have "\<not> later_key (?out ! j) (?out ! i)"
      using that s by (simp add: sorted_wrt_iff_nth_less)
    ultimately show ?thesis by (simp add: later_key_def)
  qed
  then show ?thesis unfolding sorted_wrt_iff_nth_less by blast
qed

lemma dateKeys: "store_ok s \<Longrightarrow> map d_dateKey (map snd (dailies s)) = map fst (dailies s)"
  by (auto simp: store_ok_def daily_ok_def map_wf_def split: prod.splits)

lemma paid_list:
  assumes "store_ok s"
  shows "sorted_wrt (\<lambda>x y. pr_dateKey x > pr_dateKey y) (fst (ListPaidDailies None s)) \<and>
    set (fst (ListPaidDailies None s)) =
      {paid_info d |d k. map_of (dailies s) k = Some d \<and> d_paid d}"
proof
  let ?l = "map paid_info (filter d_paid (map snd (dailies s)))"
  have out: "fst (ListPaidDailies None s) = sort_slice later_key ?l"
    by (simp add: ListPaidDailies_def map_entries_def)
  have wf: "map_wf (dailies s)" using assms by (simp add: store_ok_def)
  have "distinct (map d_dateKey (map snd (dailies s)))"
    using wf by (simp only: dateKeys [OF assms] map_wf_def)
  then have "distinct (map pr_dateKey ?l)"
    by (simp add: paid_info_def comp_def distinct_map_filter)
  then show "sorted_wrt (\<lambda>x y. pr_dateKey x > pr_dateKey y) (fst (ListPaidDailies None s))"
    unfolding out by (rule later_key_decreasing)
  show "set (fst (ListPaidDailies None s)) =
      {paid_info d |d k. map_of (dailies s) k = Some d \<and> d_paid d}"
    unfolding out by (auto simp: set_entries_iff [OF wf, symmetric] intro!: imageI rev_image_eqI)
qed

section \<open>What the store relies on\<close>

text \<open>
  The contract of a persister that is working (\<open>ok\<close>): its rounds and its submissions, by date
  and address as spelled, with times as it stores them (\<open>ts\<close>, and \<open>te\<close> for
  the cutoff of a round).
\<close>

locale persister =
  fixes P :: "'p Persister" and ok :: "'p \<Rightarrow> bool" and ts te :: "int \<Rightarrow> int"
    and rounds :: "'p \<Rightarrow> string \<Rightarrow> (string \<times> bool \<times> string \<times> int) option"
    and subs :: "'p \<Rightarrow> string \<Rightarrow> string \<Rightarrow> Submission option"
    and fits :: "Submission \<Rightarrow> bool"
  assumes upsert_round: "ok p \<Longrightarrow> ok (UpsertDailyRound P k l pd rid et p) \<and>
      rounds (UpsertDailyRound P k l pd rid et p) = (rounds p)(k \<mapsto>
        ((case rounds p k of None \<Rightarrow> l | Some r \<Rightarrow> fst r), pd, rid, te et)) \<and>
      subs (UpsertDailyRound P k l pd rid et p) = subs p"
    and load_round: "ok p \<Longrightarrow> fst (LoadDailyRound P k p) = rounds p k \<and>
      ok (snd (LoadDailyRound P k p)) \<and> rounds (snd (LoadDailyRound P k p)) = rounds p \<and>
      subs (snd (LoadDailyRound P k p)) = subs p"
    and upsert_sub: "ok p \<Longrightarrow> fits s \<Longrightarrow> ok (UpsertSubmission P k s p) \<and>
      rounds (UpsertSubmission P k s p) = rounds p \<and>
      subs (UpsertSubmission P k s p) =
        (if (case subs p k (sub_address s) of Some old \<Rightarrow> sub_score s \<le> sub_score old | None \<Rightarrow> False)
         then subs p
         else (subs p)(k := (subs p k)(sub_address s \<mapsto> s\<lparr>sub_at := ts (sub_at s)\<rparr>)))"
    and load_subs: "ok p \<Longrightarrow> distinct (map sub_address (fst (LoadSubmissions P k p))) \<and>
      set (fst (LoadSubmissions P k p)) = ran (subs p k) \<and>
      ok (snd (LoadSubmissions P k p)) \<and> rounds (snd (LoadSubmissions P k p)) = rounds p \<and>
      subs (snd (LoadSubmissions P k p)) = subs p"
    and subs_key: "ok p \<Longrightarrow> subs p k a = Some s \<Longrightarrow> sub_address s = a"
begin

definition stored :: "Submission \<Rightarrow> Submission" where
  "stored s = s\<lparr>sub_at := ts (sub_at s)\<rparr>"

text \<open>
  Memory and persister agree: every submission of a round the store holds is persisted under the
  player's address, and every paid round is registered.
\<close>

definition daily_sync :: "'p \<Rightarrow> string \<Rightarrow> Daily \<Rightarrow> bool" where
  "daily_sync p k d \<longleftrightarrow> daily_ok k d \<and>
    (\<forall>a. subs p k a = map_option stored (map_of (d_submissions d) a)) \<and>
    rounds p k = (if d_paid d then Some (d_letters d, True, d_roundID d, te (d_endTime d)) else None)"

definition round_sync :: "'p \<Rightarrow> string \<Rightarrow> Daily option \<Rightarrow> bool" where
  "round_sync p k od = (case od of
     Some d \<Rightarrow> daily_sync p k d | None \<Rightarrow> rounds p k = None \<and> subs p k = Map.empty)"

lemma round_sync_simps [simp]:
  "round_sync p k (Some d) = daily_sync p k d"
  "round_sync p k None \<longleftrightarrow> rounds p k = None \<and> subs p k = Map.empty"
  by (simp_all add: round_sync_def)

lemma round_sync_cong: "rounds p' k = rounds p k \<Longrightarrow> subs p' k = subs p k \<Longrightarrow>
    round_sync p' k od = round_sync p k od"
  by (cases od) (simp_all add: daily_sync_def)

definition sync :: "'p Store \<Rightarrow> bool" where
  "sync s \<longleftrightarrow> ok (pstate s) \<and> map_wf (dailies s) \<and>
    (\<forall>k. round_sync (pstate s) k (map_of (dailies s) k))"

lemma sync_ok: "sync s \<Longrightarrow> ok (pstate s)"
  and sync_get: "sync s \<Longrightarrow> map_of (dailies s) k = Some d \<Longrightarrow> daily_sync (pstate s) k d"
  and sync_none: "sync s \<Longrightarrow> map_of (dailies s) k = None \<Longrightarrow>
    rounds (pstate s) k = None \<and> subs (pstate s) k = Map.empty"
  unfolding sync_def by (metis round_sync_simps(1), metis round_sync_simps(1), metis round_sync_simps(2))

lemma sync_update:
  assumes "sync s" "ok p" "daily_sync p k d"
    and other: "\<And>k'. k' \<noteq> k \<Longrightarrow> rounds p k' = rounds (pstate s) k' \<and> subs p k' = subs (pstate s) k'"
  shows "sync (s\<lparr>dailies := AList.update k d (dailies s), pstate := p\<rparr>)"
proof -
  have "round_sync p k' (map_of (AList.update k d (dailies s)) k')" for k'
  proof (cases "k' = k")
    case False
    then have "round_sync p k' od = round_sync (pstate s) k' od" for od
      using other round_sync_cong [of p k' "pstate s"] by blast
    then show ?thesis using False assms(1) by (simp add: sync_def)
  qed (use assms(3) in simp)
  then show ?thesis using assms(1,2) by (simp add: sync_def)
qed

lemma sync_pstate:
  assumes "sync s" and p: "ok p" "rounds p = rounds (pstate s)" "subs p = subs (pstate s)"
  shows "sync (s\<lparr>pstate := p\<rparr>)"
proof -
  have "round_sync p k od = round_sync (pstate s) k od" for k od
    by (rule round_sync_cong) (simp_all only: p)
  then show ?thesis using assms(1) p(1) unfolding sync_def by simp
qed

lemma recover_unknown:
  assumes "ok p" "rounds p k = None"
  shows "\<exists>p'. recover_daily (Some P) k p = (blank_daily k [], p') \<and> ok p' \<and>
    rounds p' = rounds p \<and> subs p' = subs p"
proof -
  obtain r p' where l: "LoadDailyRound P k p = (r, p')" by fastforce
  then show ?thesis using load_round [OF assms(1), of k] assms(2)
    by (simp add: recover_daily_def Let_def)
qed

lemma sync_GetOrCreate:
  assumes "sync s"
  shows "sync (snd (GetOrCreateDaily (Some P) k gen s))"
proof (cases "map_of (dailies s) k")
  case None
  have n: "rounds (pstate s) k = None" "subs (pstate s) k = Map.empty" and ok: "ok (pstate s)"
    using sync_none [OF assms None] assms by (simp_all add: sync_def)
  obtain p' where p': "recover_daily (Some P) k (pstate s) = (blank_daily k [], p')" "ok p'"
    "rounds p' = rounds (pstate s)" "subs p' = subs (pstate s)"
    using recover_unknown [OF ok n(1)] by blast
  have bl: "d_letters (blank_daily k []) = []" by (simp add: blank_daily_def)
  have "daily_sync p' k ((blank_daily k [])\<lparr>d_letters := l\<rparr>)" for l
    using n p'(3,4) by (simp add: daily_sync_def) (simp add: blank_daily_def)
  then have "sync (s\<lparr>dailies := AList.update k ((blank_daily k [])\<lparr>d_letters := l\<rparr>) (dailies s),
      pstate := p'\<rparr>)" for l
    using p'(3,4) by (intro sync_update [OF assms p'(2)]) simp_all
  moreover note sync_pstate [OF assms p'(2-4)]
  ultimately show ?thesis by (cases gen) (simp_all add: GetOrCreate_new [OF None p'(1)] bl)
qed (use assms in \<open>simp add: GetOrCreate_existing\<close>)

lemma sync_OpenPaid:
  assumes "sync s"
  shows "sync (snd (OpenPaidDaily (Some P) k rid et l s))"
proof -
  define d where "d = (case map_of (dailies s) k of Some d \<Rightarrow> d | None \<Rightarrow> blank_daily k l)"
  let ?d = "d\<lparr>d_paid := True, d_roundID := rid, d_endTime := et\<rparr>"
  let ?p = "UpsertDailyRound P k (d_letters d) True rid et (pstate s)"
  have ok: "ok (pstate s)" using assms by (simp add: sync_def)
  note up = upsert_round [OF ok, of k "d_letters d" True rid et]
  have d: "daily_ok k d" "\<forall>a. subs (pstate s) k a = map_option stored (map_of (d_submissions d) a)"
    "case rounds (pstate s) k of None \<Rightarrow> True | Some r \<Rightarrow> fst r = d_letters d"
    using sync_none [OF assms, of k] sync_get [OF assms, of k]
    by (auto simp: d_def daily_sync_def split: option.splits) (simp_all add: blank_daily_def)
  have "daily_sync ?p k ?d"
    using d up by (auto simp: daily_sync_def split: option.splits)
  then have "sync (s\<lparr>dailies := AList.update k ?d (dailies s), pstate := ?p\<rparr>)"
    using up by (intro sync_update [OF assms]) auto
  then show ?thesis by (simp add: OpenPaidDaily_def Let_def d_def)
qed

lemma daily_sync_Submit:
  assumes "ok p" "daily_sync p k d" "fits sub" "lower (sub_address sub) = sub_address sub"
    and dp: "Daily_Submit (Some P) sub (d, p) = (d', p')"
  shows "ok p' \<and> daily_sync p' k d' \<and> rounds p' = rounds p \<and>
    (\<forall>k'. k' \<noteq> k \<longrightarrow> subs p' k' = subs p k')"
proof (cases "\<exists>prev. map_of (d_submissions d) (sub_address sub) = Some prev \<and> sub_score sub \<le> sub_score prev")
  case True
  then have "d' = d" "p' = p" using dp assms(4) by (auto simp: Daily_Submit_def Let_def)
  then show ?thesis using assms by simp
next
  case False
  have k: "d_dateKey d = k" and m: "\<And>a. subs p k a = map_option stored (map_of (d_submissions d) a)"
    using assms(2) by (simp_all add: daily_sync_def daily_ok_def)
  have d': "d' = d\<lparr>d_submissions := AList.update (sub_address sub) sub (d_submissions d)\<rparr>"
    and p': "p' = UpsertSubmission P k sub p"
    using dp assms(4) False k by (auto simp: Daily_Submit_def Let_def split: option.splits if_splits)
  note up = upsert_sub [OF assms(1,3), of k]
  have "\<not> (case subs p k (sub_address sub) of Some old \<Rightarrow> sub_score sub \<le> sub_score old | None \<Rightarrow> False)"
    using False m by (auto simp: stored_def split: option.splits)
  then have s: "subs p' = (subs p)(k := (subs p k)(sub_address sub \<mapsto> stored sub))"
    using up p' by (simp add: stored_def)
  have r: "rounds p' = rounds p" using up p' by blast
  have "daily_ok k d'" using daily_ok_Submit [of k d "Some P" sub p] dp assms(2)
    by (simp add: daily_sync_def)
  then have "daily_sync p' k d'"
    using assms(2) by (simp add: daily_sync_def s r) (simp add: d')
  then show ?thesis using up s p' by simp
qed

lemma sync_submit:
  assumes "sync s" "fits sub" "lower (sub_address sub) = sub_address sub"
  shows "sync (store_submit (Some P) k sub s)"
proof (cases "map_of (dailies s) k")
  case (Some d)
  obtain d' p' where dp: "Daily_Submit (Some P) sub (d, pstate s) = (d', p')" by fastforce
  have "ok (pstate s)" using assms(1) by (simp add: sync_def)
  from daily_sync_Submit [OF this sync_get [OF assms(1) Some] assms(2,3) dp]
  show ?thesis using Some dp by (simp add: store_submit_def sync_update [OF assms(1)])
qed (use assms in \<open>simp add: store_submit_def\<close>)

definition op_ok :: "store_op \<Rightarrow> bool" where
  "op_ok op = (case op of Submit_To k sub \<Rightarrow> fits sub \<and> lower (sub_address sub) = sub_address sub | _ \<Rightarrow> True)"

lemma sync_run: "sync s \<Longrightarrow> \<forall>op \<in> set ops. op_ok op \<Longrightarrow> sync (fold (run_op (Some P)) ops s)"
proof (induction ops arbitrary: s)
  case (Cons op ops)
  have "sync (run_op (Some P) op s)"
    using Cons.prems
    by (cases op) (simp_all add: sync_GetOrCreate sync_OpenPaid sync_submit op_ok_def)
  then show ?case using Cons by simp
qed simp

text \<open>What is recovered of a paid round after a restart; the first request for it restores it.\<close>

lemma recovered:
  assumes "sync s" "map_of (dailies s) k = Some d" "d_paid d"
  shows "\<exists>m p'. recover_daily (Some P) k (pstate s) = ((blank_daily k [])\<lparr>d_letters := d_letters d, d_paid := True,
      d_roundID := d_roundID d, d_endTime := te (d_endTime d), d_submissions := m\<rparr>, p') \<and>
    keyed m \<and> (\<forall>a. map_of m a = map_option stored (map_of (d_submissions d) a))"
proof -
  let ?p = "pstate s"
  have ok: "ok ?p" by (rule sync_ok [OF assms(1)])
  have d: "daily_ok k d" "\<And>a. subs ?p k a = map_option stored (map_of (d_submissions d) a)"
    "rounds ?p k = Some (d_letters d, True, d_roundID d, te (d_endTime d))"
    using sync_get [OF assms(1,2)] assms(3) by (simp_all add: daily_sync_def)
  obtain p1 where l: "LoadDailyRound P k ?p = (rounds ?p k, p1)" "ok p1" "subs p1 = subs ?p"
    using load_round [OF ok, of k] by (metis prod.collapse)
  obtain out p2 where o: "LoadSubmissions P k p1 = (out, p2)" by fastforce
  have out: "distinct (map sub_address out)" "set out = ran (subs ?p k)"
    using load_subs [OF l(2), of k] by (simp_all add: o l(3))
  have canon: "subs ?p k (sub_address x) = Some x \<and> lower (sub_address x) = sub_address x"
    if x: "x \<in> set out" for x
  proof -
    obtain a where a: "subs ?p k a = Some x" using x out(2) by (auto simp: ran_def)
    then obtain y where y: "map_of (d_submissions d) a = Some y" "x = stored y" using d(2) by auto
    have "sub_address x = a" by (rule subs_key [OF ok a])
    moreover have "lower (sub_address y) = a" using d(1) y(1) by (simp add: daily_ok_def keyed_def)
    ultimately show ?thesis using a y(2) by (simp add: stored_def)
  qed
  have r: "map_of (restore_subs out) a = subs ?p k a" for a
  proof -
    have "map_of (restore_subs out) a = Some x \<longleftrightarrow> subs ?p k a = Some x" for x
      using restore_subs_distinct [OF out(1), of a x] canon out(2) subs_key [OF ok, of k a x]
      by (auto simp: ran_def)
    then show ?thesis by (metis not_None_eq)
  qed
  have "recover_daily (Some P) k ?p = ((blank_daily k [])\<lparr>d_letters := d_letters d, d_paid := True,
      d_roundID := d_roundID d, d_endTime := te (d_endTime d), d_submissions := restore_subs out\<rparr>, p2)"
    by (simp add: recover_daily_def Let_def l(1) d(3) o)
  then show ?thesis using r d(2) keyed_restore_subs by auto
qed

lemma restart_recovers:
  assumes "sync s" "map_of (dailies s) k = Some d" "d_paid d" "d_letters d \<noteq> [] \<or> gen = Ok l"
  shows "\<exists>d' s'. GetOrCreateDaily (Some P) k gen (store_New (pstate s)) = (Ok d', s') \<and>
    (d_letters d \<noteq> [] \<longrightarrow> d_letters d' = d_letters d) \<and> d_paid d' \<and> d_roundID d' = d_roundID d \<and>
    d_endTime d' = te (d_endTime d) \<and> daily_ok k d' \<and>
    (\<forall>a. map_of (d_submissions d') a = map_option stored (map_of (d_submissions d) a))"
proof -
  obtain m p' where r: "recover_daily (Some P) k (pstate s) = ((blank_daily k [])\<lparr>d_letters := d_letters d,
      d_paid := True, d_roundID := d_roundID d, d_endTime := te (d_endTime d), d_submissions := m\<rparr>, p')"
    "keyed m" "\<forall>a. map_of m a = map_option stored (map_of (d_submissions d) a)"
    using recovered [OF assms(1-3)] by blast
  have "map_of (dailies (store_New (pstate s))) k = None" by (simp add: store_New_def)
  from GetOrCreate_new [OF this, of "Some P"] show ?thesis
    using r assms(4) by (auto simp: store_New_def daily_ok_def) (simp_all add: blank_daily_def)
qed

end

section \<open>Properties\<close>

text \<open>
  C18: after any sequence of submissions to a fresh round, a player (up to the case of the
  address) stands with the first of the submissions with the player's highest score, and a
  player without submissions does not appear.
\<close>

theorem Submit_keeps_first_best:
  "map_of (d_submissions (fst (fold (Daily_Submit P) subs (blank_daily k letters, p)))) a = Some s \<longleftrightarrow>
    first_best a subs s"
  using fold_keep_best [of subs a] by (simp add: fold_Daily_Submit blank_daily_def)

text \<open>
  C19: the leaderboard has one row per player: the rows carry the ranks 1, 2, ... and the
  players' submissions, higher scores first and among equal scores the earlier submission first.
\<close>

theorem Leaderboard_ranks:
  "length (Leaderboard d) = length (d_submissions d) \<and>
   (\<exists>subs. mset subs = mset (map snd (d_submissions d)) \<and>
     sorted_wrt (\<lambda>x y. sub_score x > sub_score y \<or>
       sub_score x = sub_score y \<and> sub_at x \<le> sub_at y) subs \<and>
     Leaderboard d = map (\<lambda>i. \<lparr>lb_rank = int i + 1, lb_address = sub_address (subs ! i),
       lb_score = sub_score (subs ! i), lb_words = sub_words (subs ! i)\<rparr>) [0..<length subs])"
proof -
  have "sorted_wrt (\<lambda>x y. \<not> ranks_before y x) (ranked d)"
    unfolding ranked_def by (rule lb.sorted_sort_slice)
  then have "sorted_wrt (\<lambda>x y. sub_score x > sub_score y \<or>
       sub_score x = sub_score y \<and> sub_at x \<le> sub_at y) (ranked d)"
    by (rule sorted_wrt_mono_rel [rotated]) (auto simp: ranks_before_def split: if_splits)
  moreover have "Leaderboard d = map (\<lambda>i. \<lparr>lb_rank = int i + 1, lb_address = sub_address (ranked d ! i),
       lb_score = sub_score (ranked d ! i), lb_words = sub_words (ranked d ! i)\<rparr>) [0..<length (ranked d)]"
    by (rule nth_equalityI) (simp_all add: Leaderboard_def nth_enumerate_eq)
  ultimately show ?thesis using length_Leaderboard mset_ranked by blast
qed

text \<open>
  C33: when no two players have the same score at the same time, the leaderboard does not depend
  on the order in which the submission map is visited, which Go leaves open.
\<close>

theorem Leaderboard_order_free:
  assumes "mset (d_submissions d) = mset (d_submissions d')"
    "inj_on (\<lambda>s. (sub_score s, sub_at s)) (snd ` set (d_submissions d))"
  shows "Leaderboard d = Leaderboard d'"
proof -
  have "inj_on rank_key (snd ` set (d_submissions d))"
    using assms(2) by (auto simp: inj_on_def rank_key_def)
  then have "ranked d = ranked d'"
    unfolding ranked_def map_entries_def
    by (intro lb.sort_slice_unique) (use assms(1) in simp_all)
  then show ?thesis by (simp add: Leaderboard_def)
qed

text \<open>
  Once a round exists, no sequence of requests changes its letters, makes it unpaid again,
  drops a player from it or lowers a player's score.
\<close>

theorem rounds_only_grow:
  assumes "map_of (dailies s) k = Some d"
  shows "\<exists>d'. map_of (dailies (fold (run_op P) ops s)) k = Some d' \<and>
    d_letters d' = d_letters d \<and> (d_paid d \<longrightarrow> d_paid d') \<and>
    (\<forall>a sub. map_of (d_submissions d) a = Some sub \<longrightarrow>
      (\<exists>sub'. map_of (d_submissions d') a = Some sub' \<and> sub_score sub \<le> sub_score sub'))"
  using run_grows [OF assms, of P ops] by (auto simp: daily_le_def)

text \<open>
  In every store that requests can produce, without a persister the paid rounds are listed
  exactly once each, the most recent date first.
\<close>

theorem ListPaidDailies_sorted:
  "sorted_wrt (\<lambda>x y. pr_dateKey x > pr_dateKey y)
     (fst (ListPaidDailies None (fold (run_op P) ops (store_New p)))) \<and>
   set (fst (ListPaidDailies None (fold (run_op P) ops (store_New p)))) =
     {paid_info d |d k. map_of (dailies (fold (run_op P) ops (store_New p))) k = Some d \<and> d_paid d}"
  by (rule paid_list [OF store_ok_run [OF store_ok_New]])

section \<open>Witnesses\<close>

theorem Leaderboard_order_free_witness:
  "Leaderboard ((blank_daily ''2026-07-16'' ''TREASON'')\<lparr>d_submissions :=
      [(''0xa'', \<lparr>sub_address = ''0xA'', sub_score = 7, sub_words = 2, sub_at = 5\<rparr>),
       (''0xb'', \<lparr>sub_address = ''0xb'', sub_score = 7, sub_words = 3, sub_at = 4\<rparr>)]\<rparr>) =
    Leaderboard ((blank_daily ''2026-07-16'' ''TREASON'')\<lparr>d_submissions :=
      [(''0xb'', \<lparr>sub_address = ''0xb'', sub_score = 7, sub_words = 3, sub_at = 4\<rparr>),
       (''0xa'', \<lparr>sub_address = ''0xA'', sub_score = 7, sub_words = 2, sub_at = 5\<rparr>)]\<rparr>)"
  by (rule Leaderboard_order_free) simp_all

theorem rounds_only_grow_witness:
  "\<exists>d'. map_of (dailies (fold (run_op None)
      [Open_Paid ''2026-07-16'' ''9'' 100 ''OTHER'',
       Submit_To ''2026-07-16'' \<lparr>sub_address = ''0xA'', sub_score = 3, sub_words = 1, sub_at = 8\<rparr>]
      \<lparr>dailies = [(''2026-07-16'', blank_daily ''2026-07-16'' ''TREASON'')], pstate = ()\<rparr>)) ''2026-07-16''
    = Some d' \<and> d_letters d' = d_letters (blank_daily ''2026-07-16'' ''TREASON'')"
proof -
  have g: "\<exists>d'. map_of (dailies (fold (run_op P) ops s)) k = Some d' \<and> d_letters d' = d_letters d"
    if "map_of (dailies s) k = Some d" for P :: "unit Persister option" and ops s k d
    using rounds_only_grow [OF that] by blast
  show ?thesis by (rule g) simp
qed

end
