(* ===== verification/Db.thy ===== *)
theory Db
  imports Store
begin

text \<open>
  \<open>internal/db/db.go\<close>: the Postgres persister. The state is the three tables its statements
  maintain, keyed by their primary keys, and the fate of every statement to come: a statement
  fails without effect, delivers only its first rows, or is done. The columns \<open>updated_at\<close> and
  \<open>created_at\<close>, which no statement reads, are left out. The argument \<open>ts\<close> is how a \<open>TIMESTAMPTZ\<close>
  column rounds a time, the field \<open>collation\<close> how the database orders texts. The interpretation \<open>pg\<close> shows that a database whose statements succeed
  is a persister in the sense of the store.
\<close>

section \<open>Model\<close>

datatype reply = Failed | First_rows nat | Done

record round_row =
  rr_letters :: string
  rr_paid :: bool
  rr_round_id :: string
  rr_end_time :: "int option"

record sub_row =
  sr_score :: int
  sr_words :: int
  sr_submitted_at :: int

record DB =
  players :: "(string \<times> string) list"
  daily_rounds :: "(string \<times> round_row) list"
  daily_submissions :: "((string \<times> string) \<times> sub_row) list"
  replies :: "nat \<Rightarrow> reply"
  stmt :: nat
  collation :: "string \<Rightarrow> string \<Rightarrow> bool"

definition empty_db :: "(nat \<Rightarrow> reply) \<Rightarrow> DB" where
  "empty_db f = \<lparr>players = [], daily_rounds = [], daily_submissions = [], replies = f, stmt = 0, collation = (<)\<rparr>"

text \<open>Connecting, the ping and the schema: each may fail with an error. Existing tables are kept.\<close>

definition db_New :: "string option \<Rightarrow> string option \<Rightarrow> string option \<Rightarrow> DB \<Rightarrow> DB res" where
  "db_New connect_err ping_err schema_err db =
    (case connect_err of Some e \<Rightarrow> Err e | None \<Rightarrow>
       (case ping_err of Some e \<Rightarrow> Err e | None \<Rightarrow>
          (case schema_err of Some e \<Rightarrow> Err e | None \<Rightarrow> Ok db)))"

definition exec :: "(DB \<Rightarrow> DB) \<Rightarrow> DB \<Rightarrow> DB" where
  "exec f db =
    (let r = replies db (stmt db); db = db\<lparr>stmt := Suc (stmt db)\<rparr>
     in if r = Failed then db else f db)"

definition arrived :: "reply \<Rightarrow> 'a list \<Rightarrow> 'a list" where
  "arrived r rows = (case r of Failed \<Rightarrow> [] | First_rows n \<Rightarrow> take n rows | Done \<Rightarrow> rows)"

definition db_UpsertDailyRound :: "(int \<Rightarrow> int) \<Rightarrow> string \<Rightarrow> string \<Rightarrow> bool \<Rightarrow> string \<Rightarrow> int \<Rightarrow> DB \<Rightarrow> DB" where
  "db_UpsertDailyRound ts dateKey letters paid roundID endTime =
    (let et = (if endTime = 0 then None else Some (ts endTime))
     in exec (\<lambda>db. db\<lparr>daily_rounds := AList.update dateKey
          (case map_of (daily_rounds db) dateKey of
             None \<Rightarrow> \<lparr>rr_letters = letters, rr_paid = paid, rr_round_id = roundID, rr_end_time = et\<rparr>
           | Some row \<Rightarrow> row\<lparr>rr_paid := paid, rr_round_id := roundID, rr_end_time := et\<rparr>)
          (daily_rounds db)\<rparr>))"

definition db_LoadDailyRound :: "string \<Rightarrow> DB \<Rightarrow> (string \<times> bool \<times> string \<times> int) option \<times> DB" where
  "db_LoadDailyRound dateKey db =
    (let r = replies db (stmt db); db = db\<lparr>stmt := Suc (stmt db)\<rparr>
     in (if r = Failed then None
         else case map_of (daily_rounds db) dateKey of
           None \<Rightarrow> None
         | Some row \<Rightarrow> Some (rr_letters row, rr_paid row, rr_round_id row,
             case rr_end_time row of None \<Rightarrow> 0 | Some t \<Rightarrow> t), db))"

definition row_info :: "string \<times> round_row \<Rightarrow> PaidRoundInfo" where
  "row_info kr = \<lparr>pr_dateKey = fst kr, pr_letters = rr_letters (snd kr),
    pr_roundID = rr_round_id (snd kr),
    pr_endTime = (case rr_end_time (snd kr) of None \<Rightarrow> 0 | Some t \<Rightarrow> t)\<rparr>"

definition db_ListPaidDailyRounds :: "DB \<Rightarrow> PaidRoundInfo list \<times> DB" where
  "db_ListPaidDailyRounds db =
    (let r = replies db (stmt db); db = db\<lparr>stmt := Suc (stmt db)\<rparr>
     in (arrived r (sort_slice later_key
           (map row_info (filter (\<lambda>(k, row). rr_paid row) (map_entries (daily_rounds db))))), db))"

text \<open>An \<open>INT\<close> column holds 32 bits; the driver refuses other values.\<close>

definition int4 :: "int \<Rightarrow> bool" where
  "int4 x \<longleftrightarrow> - (2 ^ 31) \<le> x \<and> x < 2 ^ 31"

definition db_UpsertSubmission :: "(int \<Rightarrow> int) \<Rightarrow> string \<Rightarrow> Submission \<Rightarrow> DB \<Rightarrow> DB" where
  "db_UpsertSubmission ts dateKey sub =
    exec (\<lambda>db.
      let key = (dateKey, sub_address sub);
          row = \<lparr>sr_score = sub_score sub, sr_words = sub_words sub, sr_submitted_at = ts (sub_at sub)\<rparr>
      in if \<not> int4 (sub_score sub) \<or> \<not> int4 (sub_words sub) then db
         else case map_of (daily_submissions db) key of
           None \<Rightarrow> db\<lparr>daily_submissions := AList.update key row (daily_submissions db)\<rparr>
         | Some old \<Rightarrow>
             if sr_score old < sub_score sub
             then db\<lparr>daily_submissions := AList.update key row (daily_submissions db)\<rparr> else db)"

definition row_sub :: "(string \<times> string) \<times> sub_row \<Rightarrow> Submission" where
  "row_sub kr = \<lparr>sub_address = snd (fst kr), sub_score = sr_score (snd kr),
    sub_words = sr_words (snd kr), sub_at = sr_submitted_at (snd kr)\<rparr>"

definition db_LoadSubmissions :: "string \<Rightarrow> DB \<Rightarrow> Submission list \<times> DB" where
  "db_LoadSubmissions dateKey db =
    (let r = replies db (stmt db); db = db\<lparr>stmt := Suc (stmt db)\<rparr>
     in (arrived r (map row_sub (filter (\<lambda>kr. fst (fst kr) = dateKey)
           (map_entries (daily_submissions db)))), db))"

definition db_UpsertPlayerName :: "string \<Rightarrow> string \<Rightarrow> DB \<Rightarrow> DB" where
  "db_UpsertPlayerName address name db =
    (if name = [] then db
     else exec (\<lambda>db. db\<lparr>players := AList.update address name (players db)\<rparr>) db)"

text \<open>\<open>var _ store.Persister = (*DB)(nil)\<close>\<close>

definition db_persister :: "(int \<Rightarrow> int) \<Rightarrow> DB Persister" where
  "db_persister ts = \<lparr>UpsertDailyRound = db_UpsertDailyRound ts, LoadDailyRound = db_LoadDailyRound,
    ListPaidDailyRounds = db_ListPaidDailyRounds, UpsertSubmission = db_UpsertSubmission ts,
    LoadSubmissions = db_LoadSubmissions, UpsertPlayerName = db_UpsertPlayerName\<rparr>"

section \<open>A working database is a persister\<close>

definition db_ok :: "DB \<Rightarrow> bool" where
  "db_ok db \<longleftrightarrow> map_wf (daily_rounds db) \<and> map_wf (daily_submissions db) \<and> replies db = (\<lambda>_. Done)"

definition db_rounds :: "DB \<Rightarrow> string \<Rightarrow> (string \<times> bool \<times> string \<times> int) option" where
  "db_rounds db k = map_option (\<lambda>row. (rr_letters row, rr_paid row, rr_round_id row,
     case rr_end_time row of None \<Rightarrow> 0 | Some t \<Rightarrow> t)) (map_of (daily_rounds db) k)"

definition db_subs :: "DB \<Rightarrow> string \<Rightarrow> string \<Rightarrow> Submission option" where
  "db_subs db k a = map_option (\<lambda>row. row_sub ((k, a), row)) (map_of (daily_submissions db) (k, a))"

definition end_time_as :: "(int \<Rightarrow> int) \<Rightarrow> int \<Rightarrow> int" where
  "end_time_as ts t = (if t = 0 then 0 else ts t)"

definition fits_int4 :: "Submission \<Rightarrow> bool" where
  "fits_int4 s \<longleftrightarrow> int4 (sub_score s) \<and> int4 (sub_words s)"

lemma db_ok_stmt [simp]: "db_ok (db\<lparr>stmt := n\<rparr>) = db_ok db"
  by (simp add: db_ok_def)

lemma db_views_stmt [simp]: "db_rounds (db\<lparr>stmt := n\<rparr>) = db_rounds db"
  "db_subs (db\<lparr>stmt := n\<rparr>) = db_subs db"
  by (simp_all add: db_rounds_def db_subs_def fun_eq_iff)

lemma exec_ok: "db_ok db \<Longrightarrow> exec f db = f (db\<lparr>stmt := Suc (stmt db)\<rparr>)"
  by (simp add: exec_def db_ok_def)

lemma loaded_rows:
  assumes "db_ok db"
  shows "distinct (map sub_address (fst (db_LoadSubmissions k db)))"
    "set (fst (db_LoadSubmissions k db)) = ran (db_subs db k)"
proof -
  let ?rows = "filter (\<lambda>kr. fst (fst kr) = k) (daily_submissions db)"
  have wf: "map_wf (daily_submissions db)" using assms by (simp add: db_ok_def)
  have out: "fst (db_LoadSubmissions k db) = map row_sub ?rows"
    using assms by (simp add: db_LoadSubmissions_def db_ok_def arrived_def map_entries_def Let_def)
  have "map sub_address (map row_sub ?rows) = map snd (map fst ?rows)"
    by (simp add: row_sub_def)
  moreover have "distinct (map fst ?rows)"
    using wf by (simp add: map_wf_def distinct_map_filter)
  moreover have "inj_on snd (set (map fst ?rows))" by (auto simp: inj_on_def)
  ultimately show "distinct (map sub_address (fst (db_LoadSubmissions k db)))"
    by (simp only: out distinct_map simp_thms)
  show "set (fst (db_LoadSubmissions k db)) = ran (db_subs db k)"
    by (auto simp: out ran_def db_subs_def set_entries_iff [OF wf, symmetric]) force
qed

lemma upserted_round:
  assumes "db_ok db"
  shows "db_ok (db_UpsertDailyRound ts k l pd rid et db)"
    "db_rounds (db_UpsertDailyRound ts k l pd rid et db) = (db_rounds db)(k \<mapsto>
      ((case db_rounds db k of None \<Rightarrow> l | Some r \<Rightarrow> fst r), pd, rid, end_time_as ts et))"
    "db_subs (db_UpsertDailyRound ts k l pd rid et db) = db_subs db"
proof -
  note d = db_UpsertDailyRound_def Let_def exec_ok [OF assms]
  show "db_ok (db_UpsertDailyRound ts k l pd rid et db)"
    using assms by (simp add: d) (simp add: db_ok_def)
  show "db_rounds (db_UpsertDailyRound ts k l pd rid et db) = (db_rounds db)(k \<mapsto>
      ((case db_rounds db k of None \<Rightarrow> l | Some r \<Rightarrow> fst r), pd, rid, end_time_as ts et))"
    by (cases "map_of (daily_rounds db) k")
      (simp_all add: d db_rounds_def fun_eq_iff end_time_as_def)
  show "db_subs (db_UpsertDailyRound ts k l pd rid et db) = db_subs db"
    by (simp add: d db_subs_def fun_eq_iff)
qed

lemma upserted_sub:
  assumes "db_ok db" "fits_int4 s"
  shows "db_ok (db_UpsertSubmission ts k s db)"
    "db_rounds (db_UpsertSubmission ts k s db) = db_rounds db"
    "db_subs (db_UpsertSubmission ts k s db) =
      (if (case db_subs db k (sub_address s) of Some old \<Rightarrow> sub_score s \<le> sub_score old | None \<Rightarrow> False)
       then db_subs db
       else (db_subs db)(k := (db_subs db k)(sub_address s \<mapsto> s\<lparr>sub_at := ts (sub_at s)\<rparr>)))"
proof -
  note d = db_UpsertSubmission_def Let_def exec_ok [OF assms(1)] assms(2) [unfolded fits_int4_def]
  show "db_ok (db_UpsertSubmission ts k s db)"
    using assms(1) by (simp add: d split: option.split) (simp add: db_ok_def)
  show "db_rounds (db_UpsertSubmission ts k s db) = db_rounds db"
    by (simp add: d db_rounds_def fun_eq_iff split: option.split)
  show "db_subs (db_UpsertSubmission ts k s db) =
      (if (case db_subs db k (sub_address s) of Some old \<Rightarrow> sub_score s \<le> sub_score old | None \<Rightarrow> False)
       then db_subs db
       else (db_subs db)(k := (db_subs db k)(sub_address s \<mapsto> s\<lparr>sub_at := ts (sub_at s)\<rparr>)))"
    by (cases "map_of (daily_submissions db) (k, sub_address s)")
      (auto simp: d db_subs_def fun_eq_iff row_sub_def)
qed

interpretation pg: persister "db_persister ts" db_ok ts "end_time_as ts" db_rounds db_subs fits_int4
  for ts
proof (unfold_locales, goal_cases)
  case 1
  then show ?case by (simp add: db_persister_def upserted_round)
next
  case (2 p k)
  then show ?case
    by (simp add: db_persister_def db_LoadDailyRound_def Let_def)
      (simp add: db_ok_def db_rounds_def split: option.split)
next
  case 3
  then show ?case by (simp add: db_persister_def upserted_sub)
next
  case (4 p k)
  have "snd (db_LoadSubmissions k p) = p\<lparr>stmt := Suc (stmt p)\<rparr>"
    by (simp add: db_LoadSubmissions_def Let_def)
  with 4 show ?case by (simp add: db_persister_def loaded_rows)
next
  case 5
  then show ?case by (auto simp: db_subs_def row_sub_def)
qed

lemma sync_empty: "pg.sync ts (store_New (empty_db (\<lambda>_. Done)))"
  by (simp add: pg.sync_def store_New_def)
    (simp add: empty_db_def db_ok_def db_rounds_def db_subs_def fun_eq_iff)

lemma sync_reached:
  assumes "\<forall>k sub. Submit_To k sub \<in> set ops \<longrightarrow>
    fits_int4 sub \<and> lower (sub_address sub) = sub_address sub"
  shows "pg.sync ts (fold (run_op (Some (db_persister ts))) ops (store_New (empty_db (\<lambda>_. Done))))"
proof -
  have "\<forall>op \<in> set ops. pg.op_ok op"
    using assms by (auto simp: pg.op_ok_def split: store_op.split)
  then show ?thesis by (rule pg.sync_run [OF sync_empty])
qed

text \<open>With a database the listing is the one memory would give.\<close>

lemma decreasing_distinct: "sorted_wrt (\<lambda>x y. f y < (f x :: 'a :: order)) l \<Longrightarrow> distinct l"
  by (induction l) auto

definition db_time :: "(int \<Rightarrow> int) \<Rightarrow> PaidRoundInfo \<Rightarrow> PaidRoundInfo" where
  "db_time ts r = r\<lparr>pr_endTime := end_time_as ts (pr_endTime r)\<rparr>"

lemma db_list_distinct:
  assumes "db_ok db"
  shows "distinct (fst (db_ListPaidDailyRounds db))"
proof -
  have "map pr_dateKey (map row_info l) = map fst l" for l by (simp add: row_info_def)
  moreover have "distinct (map fst (filter (\<lambda>(k, row). rr_paid row) (daily_rounds db)))"
    using assms by (simp add: db_ok_def map_wf_def distinct_map_filter)
  ultimately have "distinct (map row_info (filter (\<lambda>(k, row). rr_paid row) (daily_rounds db)))"
    by (metis distinct_map)
  then show ?thesis using assms by (simp add: db_ListPaidDailyRounds_def db_ok_def arrived_def map_entries_def Let_def)
qed

lemma db_list_set:
  assumes "db_ok db"
  shows "r \<in> set (fst (db_ListPaidDailyRounds db)) \<longleftrightarrow>
    db_rounds db (pr_dateKey r) = Some (pr_letters r, True, pr_roundID r, pr_endTime r)"
proof -
  have wf: "map_wf (daily_rounds db)" using assms by (simp add: db_ok_def)
  have "r \<in> set (fst (db_ListPaidDailyRounds db)) \<longleftrightarrow>
    (\<exists>k row. map_of (daily_rounds db) k = Some row \<and> rr_paid row \<and> r = row_info (k, row))"
    using assms by (auto simp: db_ListPaidDailyRounds_def db_ok_def arrived_def map_entries_def
        Let_def set_entries_iff [symmetric] image_iff)
  also have "\<dots> \<longleftrightarrow> db_rounds db (pr_dateKey r) = Some (pr_letters r, True, pr_roundID r, pr_endTime r)"
    by (cases r) (auto simp: db_rounds_def row_info_def)
  finally show ?thesis .
qed

lemma mem_ListPaid:
  assumes "store_ok s"
  shows "r \<in> set (fst (ListPaidDailies None s)) \<longleftrightarrow>
    (\<exists>d. map_of (dailies s) (pr_dateKey r) = Some d \<and> d_paid d \<and> r = paid_info d)"
proof -
  have k: "d_dateKey d = k" if "map_of (dailies s) k = Some d" for k d
    using assms that by (simp add: store_ok_def daily_ok_def)
  have "r \<in> set (fst (ListPaidDailies None s)) \<longleftrightarrow>
      (\<exists>d k. map_of (dailies s) k = Some d \<and> d_paid d \<and> r = paid_info d)"
    using paid_list [OF assms] by auto
  also have "\<dots> \<longleftrightarrow> (\<exists>d. map_of (dailies s) (pr_dateKey r) = Some d \<and> d_paid d \<and> r = paid_info d)"
    using k by (auto simp: paid_info_def)
  finally show ?thesis .
qed

lemma list_same:
  assumes "pg.sync ts s"
  shows "mset (fst (ListPaidDailies (Some (db_persister ts)) s)) =
    mset (map (db_time ts) (fst (ListPaidDailies None s)))"
proof -
  let ?p = "pstate s" and ?mem = "fst (ListPaidDailies None s)"
  have ok: "db_ok ?p" by (rule pg.sync_ok [OF assms])
  have sok: "store_ok s"
    using assms by (auto simp: store_ok_def pg.sync_def pg.round_sync_def pg.daily_sync_def
        split: option.splits)
  have fst: "fst (ListPaidDailies (Some (db_persister ts)) s) = fst (db_ListPaidDailyRounds ?p)"
    by (simp add: ListPaidDailies_def db_persister_def split: prod.split)
  have key: "pr_dateKey (db_time ts r) = pr_dateKey r" for r by (simp add: db_time_def)
  have row: "db_rounds ?p k = (case map_of (dailies s) k of None \<Rightarrow> None
      | Some d \<Rightarrow> if d_paid d then Some (d_letters d, True, d_roundID d, end_time_as ts (d_endTime d))
          else None)" for k
    using pg.sync_get [OF assms] pg.sync_none [OF assms]
    by (cases "map_of (dailies s) k") (simp_all add: pg.daily_sync_def)
  have "mset (fst (db_ListPaidDailyRounds ?p)) = mset (map (db_time ts) ?mem)"
  proof (rule set_eq_iff_mset_eq_distinct [THEN iffD1])
    show "distinct (fst (db_ListPaidDailyRounds ?p))" by (rule db_list_distinct [OF ok])
    have "sorted_wrt (\<lambda>x y. pr_dateKey y < pr_dateKey x) (map (db_time ts) ?mem)"
      using paid_list [OF sok] by (simp add: sorted_wrt_map key)
    then show "distinct (map (db_time ts) ?mem)" by (rule decreasing_distinct)
    have "r \<in> set (fst (db_ListPaidDailyRounds ?p)) \<longleftrightarrow> r \<in> db_time ts ` set ?mem" for r
    proof -
      have "r \<in> set (fst (db_ListPaidDailyRounds ?p)) \<longleftrightarrow>
        (\<exists>d. map_of (dailies s) (pr_dateKey r) = Some d \<and> d_paid d \<and> r = db_time ts (paid_info d))"
        using row [of "pr_dateKey r"] sok
        by (cases r) (auto simp: db_list_set [OF ok] db_time_def paid_info_def store_ok_def
            daily_ok_def split: option.splits if_splits)
      also have "\<dots> \<longleftrightarrow> r \<in> db_time ts ` set ?mem"
        by (auto simp: mem_ListPaid [OF sok] image_iff key)
      finally show ?thesis .
    qed
    then show "set (fst (db_ListPaidDailyRounds ?p)) = set (map (db_time ts) ?mem)" by auto
  qed
  then show ?thesis by (simp only: fst)
qed

section \<open>Properties\<close>

text \<open>
  With a working database a restart loses nothing of a paid round: after any requests by
  players with lower-case addresses, the next process's first request for a paid date finds the
  same letters, the same round and cutoff (as the database stores times) and the same
  submissions.
\<close>

theorem restart_restores_paid_round:
  assumes "\<forall>k sub. Submit_To k sub \<in> set ops \<longrightarrow>
      fits_int4 sub \<and> lower (sub_address sub) = sub_address sub"
    and "map_of (dailies (fold (run_op (Some (db_persister ts))) ops
      (store_New (empty_db (\<lambda>_. Done))))) k = Some d"
    and "d_paid d" "d_letters d \<noteq> []"
  shows "\<exists>d' s'. GetOrCreateDaily (Some (db_persister ts)) k gen
      (store_New (pstate (fold (run_op (Some (db_persister ts))) ops (store_New (empty_db (\<lambda>_. Done))))))
      = (Ok d', s') \<and>
    d_letters d' = d_letters d \<and> d_paid d' \<and> d_roundID d' = d_roundID d \<and>
    d_endTime d' = (if d_endTime d = 0 then 0 else ts (d_endTime d)) \<and>
    (\<forall>a. map_of (d_submissions d') a =
      map_option (\<lambda>s. s\<lparr>sub_at := ts (sub_at s)\<rparr>) (map_of (d_submissions d) a))"
proof -
  have s: "pg.sync ts (fold (run_op (Some (db_persister ts))) ops (store_New (empty_db (\<lambda>_. Done))))"
    by (rule sync_reached) (rule assms(1))
  have st: "pg.stored ts = (\<lambda>s. s\<lparr>sub_at := ts (sub_at s)\<rparr>)"
    by (rule ext) (rule pg.stored_def)
  show ?thesis
    using pg.restart_recovers [OF s assms(2,3), of gen] assms(4)
    by (simp only: st end_time_as_def) blast
qed

text \<open>
  With a working database the listing of paid rounds is the one the store would compute in
  memory, with times as stored, but for the order, which is the database's collation of the dates.
\<close>

theorem ListPaidDailies_same:
  assumes "\<forall>k sub. Submit_To k sub \<in> set ops \<longrightarrow>
      fits_int4 sub \<and> lower (sub_address sub) = sub_address sub"
  shows "mset (fst (ListPaidDailies (Some (db_persister ts))
      (fold (run_op (Some (db_persister ts))) ops (store_New (empty_db (\<lambda>_. Done)))))) =
    mset (map (db_time ts) (fst (ListPaidDailies None
      (fold (run_op (Some (db_persister ts))) ops (store_New (empty_db (\<lambda>_. Done)))))))"
  by (rule list_same [OF sync_reached]) (rule assms)

section \<open>Divergences\<close>

text \<open>
  The table keys a submission by the address as spelled, memory by the lower-cased address: with
  two spellings of one player the score a restart restores depends on the order of the rows.
\<close>

lemma lower_A: "lower ''A'' = ''a''" "lower ''a'' = ''a''"
  by code_simp+

lemma restart_depends_on_row_order:
  fixes r1 r2 :: "(string \<times> string) \<times> sub_row"
  defines "r1 \<equiv> ((''d'', ''a''), \<lparr>sr_score = 5, sr_words = 1, sr_submitted_at = 1\<rparr>)"
    and "r2 \<equiv> ((''d'', ''A''), \<lparr>sr_score = 9, sr_words = 2, sr_submitted_at = 2\<rparr>)"
  shows "map_option sub_score (map_of (restore_subs (fst (db_LoadSubmissions ''d''
      ((empty_db (\<lambda>_. Done))\<lparr>daily_submissions := [r1, r2]\<rparr>)))) ''a'') = Some 9"
    "map_option sub_score (map_of (restore_subs (fst (db_LoadSubmissions ''d''
      ((empty_db (\<lambda>_. Done))\<lparr>daily_submissions := [r2, r1]\<rparr>)))) ''a'') = Some 5"
  by (simp_all add: r1_def r2_def db_LoadSubmissions_def empty_db_def arrived_def map_entries_def
      Let_def restore_subs_def row_sub_def lower_A)

text \<open>
  Opening a date as paid before anything else has touched it in this process starts with no
  submissions, whatever the persister holds.
\<close>

lemma open_after_restart_forgets:
  "d_submissions (fst (OpenPaidDaily P k rid et letters (store_New p))) = []"
  by (simp add: OpenPaidDaily_def store_New_def blank_daily_def Let_def)

section \<open>Witnesses\<close>

definition sample_ops :: "store_op list" where
  "sample_ops = [Get_Or_Create ''d'' (Ok ''TREASON''), Open_Paid ''d'' ''9'' 100 ''TREASON'',
    Submit_To ''d'' \<lparr>sub_address = ''a'', sub_score = 7, sub_words = 2, sub_at = 5\<rparr>]"

lemma sample_ops_ok: "\<forall>k sub. Submit_To k sub \<in> set sample_ops \<longrightarrow>
    fits_int4 sub \<and> lower (sub_address sub) = sub_address sub"
  by (simp add: sample_ops_def fits_int4_def int4_def lower_A)

definition sample_store :: "DB Store" where
  "sample_store = fold (run_op (Some (db_persister (\<lambda>t. t)))) sample_ops (store_New (empty_db (\<lambda>_. Done)))"

lemma sample_run: "map_of (dailies sample_store) ''d'' =
    Some \<lparr>d_dateKey = ''d'', d_letters = ''TREASON'', d_paid = True, d_roundID = ''9'',
      d_endTime = 100, d_submissions =
        [(''a'', \<lparr>sub_address = ''a'', sub_score = 7, sub_words = 2, sub_at = 5\<rparr>)]\<rparr>"
  unfolding sample_store_def by code_simp

theorem restart_restores_paid_round_witness:
  "\<exists>d' s'. GetOrCreateDaily (Some (db_persister (\<lambda>t. t))) ''d'' (Ok ''OTHER'')
      (store_New (pstate sample_store)) = (Ok d', s') \<and>
    d_letters d' = ''TREASON'' \<and> d_paid d' \<and> d_roundID d' = ''9'' \<and> d_endTime d' = 100"
  using restart_restores_paid_round [OF sample_ops_ok sample_run [unfolded sample_store_def],
      where gen = "Ok ''OTHER''"]
  unfolding sample_store_def by auto

theorem ListPaidDailies_same_witness:
  "mset (fst (ListPaidDailies (Some (db_persister (\<lambda>t. t))) sample_store)) =
    mset (map (db_time (\<lambda>t. t)) (fst (ListPaidDailies None sample_store)))"
  unfolding sample_store_def by (rule ListPaidDailies_same) (rule sample_ops_ok)

end
