(* ===== verification/Chain.thy ===== *)
theory Chain
  imports Numbers
begin

text \<open>
  \<open>internal/chain/chain.go\<close> and \<open>internal/chain/writer.go\<close>: the read-only client and the
  transaction writer for the pool contract. The go-ethereum functions they call, and \<open>crypto/rand\<close>, are
  the record \<open>eth\<close>, an argument of every definition, over a state \<open>'c\<close> of the chain as this process sees it; a
  call may fail with an error. The lemmas show exactly which replies of a call become an answer.
\<close>

section \<open>The go-ethereum calls\<close>

type_synonym address = "160 word"

datatype abi_val =
    ABig int | ANilBig | AU64 "64 word" | AU32 "32 word" | AU16 "16 word" | ABool bool
  | AAddress address | AAddresses "address list" | ABigs "int list" | ABytes string

text \<open>A \<open>*big.Int\<close> as an argument, which may be nil; decoded values never are.\<close>

definition big_arg :: "int option \<Rightarrow> abi_val" where
  "big_arg x = (case x of Some n \<Rightarrow> ABig n | None \<Rightarrow> ANilBig)"

text \<open>A function of an ABI: name, input types, output types.\<close>

record abi_fun =
  abi_name :: string
  abi_inputs :: "string list"
  abi_outputs :: "string list"

record Client =
  c_rpc :: string
  c_contract :: address

record Writer =
  w_rpc :: string
  w_contract :: address
  w_key :: int
  w_chainID :: int
  w_address :: address

record receipt =
  status :: "64 word"

record 'c eth =
  IsHexAddress :: "string \<Rightarrow> bool"
  HexToAddress :: "string \<Rightarrow> address"
  Hex :: "address \<Rightarrow> string"
  HexToECDSA :: "string \<Rightarrow> int res"
  PubkeyToAddress :: "int \<Rightarrow> address"
  Dial :: "string \<Rightarrow> unit res"
  ParseABI :: "abi_fun list \<Rightarrow> unit res"
  Transactor :: "int \<Rightarrow> int \<Rightarrow> unit res"
  Call :: "Client \<Rightarrow> string \<Rightarrow> abi_val list \<Rightarrow> 'c \<Rightarrow> abi_val list res \<times> 'c"
  Transact :: "Writer \<Rightarrow> string \<Rightarrow> abi_val list \<Rightarrow> 'c \<Rightarrow> nat res \<times> 'c"
  WaitMined :: "Writer \<Rightarrow> nat \<Rightarrow> 'c \<Rightarrow> receipt res \<times> 'c"
  Quote :: "string \<Rightarrow> string"
  Bytes2Hex :: "string \<Rightarrow> string"
  RandRead :: "nat \<Rightarrow> 'c \<Rightarrow> string res \<times> 'c"

section \<open>chain.go\<close>

definition poolABI :: "abi_fun list" where
  "poolABI =
    [\<lparr>abi_name = ''hasEntered'', abi_inputs = [''uint256'', ''address''], abi_outputs = [''bool'']\<rparr>,
     \<lparr>abi_name = ''roundExists'', abi_inputs = [''uint256''], abi_outputs = [''bool'']\<rparr>,
     \<lparr>abi_name = ''getRound'', abi_inputs = [''uint256''],
      abi_outputs = [''uint128'', ''uint64'', ''uint32'', ''uint16'', ''bool'', ''bool'', ''uint128'',
        ''uint32'']\<rparr>]"

record Round =
  EntryFee :: int
  EndTime :: "64 word"
  RefundDelay :: "32 word"
  RakeBps :: "16 word"
  Settled :: bool
  Cancelled :: bool
  Pot :: int
  Entrants :: "32 word"

definition chain_New :: "'c eth \<Rightarrow> string \<Rightarrow> string \<Rightarrow> Client res" where
  "chain_New E rpcURL contractAddr =
    (if \<not> IsHexAddress E contractAddr
     then Err (''invalid contract address: '' @ Quote E contractAddr)
     else case Dial E rpcURL of
       Panic \<Rightarrow> Panic
     | Err e \<Rightarrow> Err (''dial '' @ rpcURL @ '': '' @ e)
     | Ok _ \<Rightarrow>
         (case ParseABI E poolABI of
            Panic \<Rightarrow> Panic
          | Err e \<Rightarrow> Err (''parse abi: '' @ e)
          | Ok _ \<Rightarrow> Ok \<lparr>c_rpc = rpcURL, c_contract = HexToAddress E contractAddr\<rparr>))"

text \<open>What the getters make of a reply; \<open>out[0]\<close> of an empty reply panics.\<close>

definition entered_of :: "abi_val list res \<Rightarrow> bool res" where
  "entered_of r =
    (case r of
       Panic \<Rightarrow> Panic
     | Err e \<Rightarrow> Err (''hasEntered: '' @ e)
     | Ok [] \<Rightarrow> Panic
     | Ok (ABool b # _) \<Rightarrow> Ok b
     | Ok (_ # _) \<Rightarrow> Err ''hasEntered: unexpected return type'')"

definition HasEntered :: "'c eth \<Rightarrow> Client \<Rightarrow> int option \<Rightarrow> address \<Rightarrow> 'c \<Rightarrow> bool res \<times> 'c" where
  "HasEntered E c roundID addr ch =
    (case Call E c ''hasEntered'' [big_arg roundID, AAddress addr] ch of
       (out, ch) \<Rightarrow> (entered_of out, ch))"

definition exists_of :: "abi_val list res \<Rightarrow> bool res" where
  "exists_of r =
    (case r of
       Panic \<Rightarrow> Panic
     | Err e \<Rightarrow> Err (''roundExists: '' @ e)
     | Ok [] \<Rightarrow> Panic
     | Ok (ABool b # _) \<Rightarrow> Ok b
     | Ok (_ # _) \<Rightarrow> Ok False)"

definition RoundExists :: "'c eth \<Rightarrow> Client \<Rightarrow> int \<Rightarrow> 'c \<Rightarrow> bool res \<times> 'c" where
  "RoundExists E c roundID ch =
    (case Call E c ''roundExists'' [ABig roundID] ch of (out, ch) \<Rightarrow> (exists_of out, ch))"

fun as_big :: "abi_val \<Rightarrow> int option" where
  "as_big (ABig x) = Some x" | "as_big _ = None"

fun as_u64 :: "abi_val \<Rightarrow> 64 word option" where
  "as_u64 (AU64 x) = Some x" | "as_u64 _ = None"

fun as_u32 :: "abi_val \<Rightarrow> 32 word option" where
  "as_u32 (AU32 x) = Some x" | "as_u32 _ = None"

fun as_u16 :: "abi_val \<Rightarrow> 16 word option" where
  "as_u16 (AU16 x) = Some x" | "as_u16 _ = None"

fun as_bool :: "abi_val \<Rightarrow> bool option" where
  "as_bool (ABool x) = Some x" | "as_bool _ = None"

text \<open>A type assertion \<open>v.(T)\<close> with its error.\<close>

definition expect :: "string \<Rightarrow> 'a option \<Rightarrow> 'a res" where
  "expect field v =
    (case v of Some x \<Rightarrow> Ok x | None \<Rightarrow> Err (''getRound: unexpected '' @ field @ '' type''))"

definition decode_round :: "abi_val list \<Rightarrow> Round res" where
  "decode_round out =
    (if length out \<noteq> 8 then Err (''getRound: unexpected output count '' @ big_String (int (length out)))
     else
       bind_res (expect ''entryFee'' (as_big (out ! 0))) (\<lambda>entryFee.
       bind_res (expect ''endTime'' (as_u64 (out ! 1))) (\<lambda>endTime.
       bind_res (expect ''refundDelay'' (as_u32 (out ! 2))) (\<lambda>refundDelay.
       bind_res (expect ''rakeBps'' (as_u16 (out ! 3))) (\<lambda>rakeBps.
       bind_res (expect ''settled'' (as_bool (out ! 4))) (\<lambda>settled.
       bind_res (expect ''cancelled'' (as_bool (out ! 5))) (\<lambda>cancelled.
       bind_res (expect ''pot'' (as_big (out ! 6))) (\<lambda>pot.
       bind_res (expect ''entrants'' (as_u32 (out ! 7))) (\<lambda>entrants.
         Ok \<lparr>EntryFee = entryFee, EndTime = endTime, RefundDelay = refundDelay, RakeBps = rakeBps,
           Settled = settled, Cancelled = cancelled, Pot = pot, Entrants = entrants\<rparr>)))))))))"

definition GetRound :: "'c eth \<Rightarrow> Client \<Rightarrow> int option \<Rightarrow> 'c \<Rightarrow> Round res \<times> 'c" where
  "GetRound E c roundID ch =
    (case Call E c ''getRound'' [big_arg roundID] ch of
       (Panic, ch) \<Rightarrow> (Panic, ch)
     | (Err e, ch) \<Rightarrow> (Err (''getRound: '' @ e), ch)
     | (Ok out, ch) \<Rightarrow> (decode_round out, ch))"

section \<open>writer.go\<close>

definition writeABI :: "abi_fun list" where
  "writeABI =
    [\<lparr>abi_name = ''createRound'', abi_inputs = [''uint256'', ''uint128'', ''uint64''], abi_outputs = []\<rparr>,
     \<lparr>abi_name = ''settle'', abi_inputs = [''uint256'', ''address[]'', ''uint256[]'', ''bytes''],
      abi_outputs = []\<rparr>]"

definition trim_prefix :: "string \<Rightarrow> string \<Rightarrow> string" where
  "trim_prefix p s = (if take (length p) s = p then drop (length p) s else s)"

definition NewWriter :: "'c eth \<Rightarrow> string \<Rightarrow> string \<Rightarrow> string \<Rightarrow> int \<Rightarrow> Writer res" where
  "NewWriter E rpcURL contractAddr privHex chainID =
    (if \<not> IsHexAddress E contractAddr
     then Err (''invalid contract address: '' @ Quote E contractAddr)
     else case HexToECDSA E (trim_prefix ''0x'' privHex) of
       Panic \<Rightarrow> Panic
     | Err e \<Rightarrow> Err (''invalid operator private key: '' @ e)
     | Ok key \<Rightarrow>
    (case Dial E rpcURL of
       Panic \<Rightarrow> Panic
     | Err e \<Rightarrow> Err (''dial '' @ rpcURL @ '': '' @ e)
     | Ok _ \<Rightarrow>
    (case ParseABI E writeABI of
       Panic \<Rightarrow> Panic
     | Err e \<Rightarrow> Err (''parse abi: '' @ e)
     | Ok _ \<Rightarrow>
    (case Transactor E key chainID of
       Panic \<Rightarrow> Panic
     | Err e \<Rightarrow> Err (''transactor: '' @ e)
     | Ok _ \<Rightarrow> Ok \<lparr>w_rpc = rpcURL, w_contract = HexToAddress E contractAddr, w_key = key,
         w_chainID = chainID, w_address = PubkeyToAddress E key\<rparr>))))"

text \<open>
  Both transactions are sent and then awaited; the receipt \<open>WaitMined\<close> returns is discarded.
\<close>

definition send :: "'c eth \<Rightarrow> Writer \<Rightarrow> string \<Rightarrow> abi_val list \<Rightarrow> 'c \<Rightarrow> unit res \<times> 'c" where
  "send E w fn args ch =
    (case Transact E w fn args ch of
       (Panic, ch) \<Rightarrow> (Panic, ch)
     | (Err e, ch) \<Rightarrow> (Err (fn @ '': '' @ e), ch)
     | (Ok tx, ch) \<Rightarrow>
         (case WaitMined E w tx ch of
            (Panic, ch) \<Rightarrow> (Panic, ch)
          | (Err e, ch) \<Rightarrow> (Err (fn @ '': waiting for confirmation: '' @ e), ch)
          | (Ok _, ch) \<Rightarrow> (Ok (), ch)))"

definition CreateRound :: "'c eth \<Rightarrow> Writer \<Rightarrow> int \<Rightarrow> int \<Rightarrow> 64 word \<Rightarrow> 'c \<Rightarrow> unit res \<times> 'c" where
  "CreateRound E w roundID entryFee endTime ch =
    send E w ''createRound'' [ABig roundID, ABig entryFee, AU64 endTime] ch"

definition Settle :: "'c eth \<Rightarrow> Writer \<Rightarrow> int option \<Rightarrow> address list \<Rightarrow> int list \<Rightarrow> string \<Rightarrow> 'c \<Rightarrow> unit res \<times> 'c" where
  "Settle E w roundID winners amounts sig ch =
    send E w ''settle'' [big_arg roundID, AAddresses winners, ABigs amounts, ABytes sig] ch"

section \<open>Replies\<close>

definition encode_round :: "Round \<Rightarrow> abi_val list" where
  "encode_round r = [ABig (EntryFee r), AU64 (EndTime r), AU32 (RefundDelay r), AU16 (RakeBps r),
    ABool (Settled r), ABool (Cancelled r), ABig (Pot r), AU32 (Entrants r)]"

lemma expect_Ok [simp]: "expect f v = Ok x \<longleftrightarrow> v = Some x"
  by (simp add: expect_def split: option.split)

lemma as_iff [simp]:
  "as_big v = Some x \<longleftrightarrow> v = ABig x" "as_u64 v = Some y \<longleftrightarrow> v = AU64 y"
  "as_u32 v = Some z \<longleftrightarrow> v = AU32 z" "as_u16 v = Some u \<longleftrightarrow> v = AU16 u"
  "as_bool v = Some b \<longleftrightarrow> v = ABool b"
  by (cases v; simp)+

lemma decode_round_iff: "decode_round out = Ok r \<longleftrightarrow> out = encode_round r"
proof
  assume d: "decode_round out = Ok r"
  then have "length out = 8" by (simp add: decode_round_def split: if_splits)
  then obtain a b c d e f g h where out: "out = [a, b, c, d, e, f, g, h]"
    by (auto simp: length_Suc_conv eval_nat_numeral)
  then show "out = encode_round r" using d
    by (simp add: decode_round_def encode_round_def) (auto simp: encode_round_def)
next
  assume "out = encode_round r"
  then show "decode_round out = Ok r" by (simp add: decode_round_def encode_round_def)
qed

lemma entered_of_Ok: "entered_of r = Ok b \<longleftrightarrow> (\<exists>vs. r = Ok (ABool b # vs))"
  by (auto simp: entered_of_def split: res.split list.split abi_val.split)

lemma exists_of_False: "exists_of r = Ok False \<longleftrightarrow>
    (\<exists>v vs. r = Ok (v # vs) \<and> v \<noteq> ABool True)"
  by (auto simp: exists_of_def split: res.split list.split abi_val.split)

lemma send_Ok: "fst (send E w fn args ch) = Ok () \<longleftrightarrow>
    (\<exists>tx ch' rc ch''. Transact E w fn args ch = (Ok tx, ch') \<and> WaitMined E w tx ch' = (Ok rc, ch''))"
  by (auto simp: send_def split: prod.split res.split)

section \<open>Properties\<close>

text \<open>
  C34: reading a round succeeds exactly when the contract call replied with the eight values of
  the round, in order and at their types, and then returns that round unchanged.
\<close>

theorem GetRound_exact:
  "fst (GetRound E c roundID ch) = Ok r \<longleftrightarrow>
    fst (Call E c ''getRound'' [big_arg roundID] ch) = Ok (encode_round r)"
  by (auto simp: GetRound_def decode_round_iff split: prod.split res.split)

text \<open>
  A player counts as entered exactly when the contract call replied \<open>true\<close> first: an error,
  a reply of another type and an empty reply never let a player in.
\<close>

theorem HasEntered_exact:
  "fst (HasEntered E c roundID addr ch) = Ok True \<longleftrightarrow>
    (\<exists>vs. fst (Call E c ''hasEntered'' [big_arg roundID, AAddress addr] ch) = Ok (ABool True # vs))"
  by (auto simp: HasEntered_def entered_of_Ok split: prod.split)

text \<open>
  A transaction is reported as done exactly when it was sent and mined, with any receipt: a
  reverted transaction (status 0) is reported like a successful one.
\<close>

theorem transactions_ignore_status:
  "(fst (Settle E w roundID winners amounts sig ch) = Ok () \<longleftrightarrow>
     (\<exists>tx ch' st ch''. Transact E w ''settle'' [big_arg roundID, AAddresses winners, ABigs amounts, ABytes sig] ch
       = (Ok tx, ch') \<and> WaitMined E w tx ch' = (Ok \<lparr>status = st\<rparr>, ch''))) \<and>
   (fst (CreateRound E w rid entryFee endTime ch) = Ok () \<longleftrightarrow>
     (\<exists>tx ch' st ch''. Transact E w ''createRound'' [ABig rid, ABig entryFee, AU64 endTime] ch
       = (Ok tx, ch') \<and> WaitMined E w tx ch' = (Ok \<lparr>status = st\<rparr>, ch'')))"
proof -
  have "(\<exists>rc. P rc) \<longleftrightarrow> (\<exists>st. P \<lparr>status = st\<rparr>)" for P :: "receipt \<Rightarrow> bool"
    by (metis (full_types) receipt.cases)
  then show ?thesis by (simp add: Settle_def CreateRound_def send_Ok)
qed

end
