(* ===== verification/Signer.thy ===== *)
theory Signer
  imports Chain
begin

text \<open>
  \<open>internal/signer/signer.go\<close>: the referee's EIP-712 signatures. Keccak-256, the struct hash of
  typed data and the ECDSA signature are the record \<open>crypto\<close>, an argument. The lemmas show what
  is hashed and signed, and the form of the result.
\<close>

section \<open>Model\<close>

record typed_data =
  td_types :: "(string \<times> (string \<times> string) list) list"
  td_primary :: string
  td_name :: string
  td_version :: string
  td_chainId :: int
  td_contract :: string
  td_roundId :: "int option"
  td_winners :: "string list"
  td_amounts :: "int list"

datatype td_part = Domain_map | Message_map

record crypto =
  HashStruct :: "typed_data \<Rightarrow> string \<Rightarrow> td_part \<Rightarrow> string res"
  Keccak256 :: "string \<Rightarrow> string"
  crypto_Sign :: "string \<Rightarrow> int \<Rightarrow> string res"

record Signer =
  s_key :: int
  s_address :: address
  s_chainID :: int
  s_contract :: address

definition signer_New :: "'c eth \<Rightarrow> string \<Rightarrow> int \<Rightarrow> string \<Rightarrow> Signer res" where
  "signer_New E privHex chainID verifyingContract =
    (case HexToECDSA E (trim_prefix ''0x'' privHex) of
       Panic \<Rightarrow> Panic
     | Err e \<Rightarrow> Err (''invalid referee private key: '' @ e)
     | Ok key \<Rightarrow>
         if \<not> IsHexAddress E verifyingContract
         then Err (''invalid verifying contract address: '' @ Quote E verifyingContract)
         else Ok \<lparr>s_key = key, s_address = PubkeyToAddress E key, s_chainID = chainID,
           s_contract = HexToAddress E verifyingContract\<rparr>)"

definition typedData :: "'c eth \<Rightarrow> Signer \<Rightarrow> int option \<Rightarrow> address list \<Rightarrow> int list \<Rightarrow> typed_data" where
  "typedData E s roundID winners amounts =
    \<lparr>td_types =
       [(''EIP712Domain'', [(''name'', ''string''), (''version'', ''string''), (''chainId'', ''uint256''),
          (''verifyingContract'', ''address'')]),
        (''Settlement'', [(''roundId'', ''uint256''), (''winners'', ''address[]''),
          (''amounts'', ''uint256[]'')])],
     td_primary = ''Settlement'',
     td_name = ''WordBreakPools'',
     td_version = ''1'',
     td_chainId = s_chainID s,
     td_contract = Hex E (s_contract s),
     td_roundId = roundID,
     td_winners = map (Hex E) winners,
     td_amounts = amounts\<rparr>"

definition Digest :: "'c eth \<Rightarrow> crypto \<Rightarrow> Signer \<Rightarrow> int option \<Rightarrow> address list \<Rightarrow> int list \<Rightarrow> string res" where
  "Digest E K s roundID winners amounts =
    (let td = typedData E s roundID winners amounts
     in case HashStruct K td ''EIP712Domain'' Domain_map of
          Panic \<Rightarrow> Panic
        | Err e \<Rightarrow> Err (''hash domain: '' @ e)
        | Ok domainSep \<Rightarrow>
            (case HashStruct K td (td_primary td) Message_map of
               Panic \<Rightarrow> Panic
             | Err e \<Rightarrow> Err (''hash message: '' @ e)
             | Ok msgHash \<Rightarrow> Ok (Keccak256 K ([CHR 0x19, CHR 0x01] @ domainSep @ msgHash))))"

text \<open>\<open>sig[64] += 27\<close> on a byte; a shorter signature would panic.\<close>

definition add27 :: "char \<Rightarrow> char" where
  "add27 c = char_of (byte c + 27)"

definition SignSettlement :: "'c eth \<Rightarrow> crypto \<Rightarrow> Signer \<Rightarrow> int option \<Rightarrow> address list \<Rightarrow> int list \<Rightarrow> string res" where
  "SignSettlement E K s roundID winners amounts =
    (if length winners \<noteq> length amounts
     then Err (''winners/amounts length mismatch: '' @ big_String (int (length winners)) @ '' vs '' @
       big_String (int (length amounts)))
     else case Digest E K s roundID winners amounts of
       Panic \<Rightarrow> Panic
     | Err e \<Rightarrow> Err e
     | Ok digest \<Rightarrow>
         (case crypto_Sign K digest (s_key s) of
            Panic \<Rightarrow> Panic
          | Err e \<Rightarrow> Err (''sign: '' @ e)
          | Ok sig \<Rightarrow> if length sig \<le> 64 then Panic else Ok (sig[64 := add27 (sig ! 64)])))"

section \<open>Properties\<close>

text \<open>What \<open>crypto.Sign\<close> documents: 65 bytes \<open>r || s || v\<close> with \<open>v\<close> 0 or 1, or an error.\<close>

definition sign_ok :: "crypto \<Rightarrow> bool" where
  "sign_ok K \<longleftrightarrow> (\<forall>d k sig. crypto_Sign K d k = Ok sig \<longrightarrow>
      length sig = 65 \<and> byte (sig ! 64) \<in> {0, 1}) \<and> (\<forall>d k. crypto_Sign K d k \<noteq> Panic)"

lemma byte_add27: "byte c < 2 \<Longrightarrow> byte (add27 c) = byte c + 27"
  by (simp add: add27_def)

lemma SignSettlement_Ok: "SignSettlement E K s roundID winners amounts = Ok sig \<longleftrightarrow>
  length winners = length amounts \<and> (\<exists>digest raw. Digest E K s roundID winners amounts = Ok digest \<and>
    crypto_Sign K digest (s_key s) = Ok raw \<and> 64 < length raw \<and> sig = raw[64 := add27 (raw ! 64)])"
  by (auto simp: SignSettlement_def split: res.splits)

lemma SignSettlement_no_panic:
  assumes "sign_ok K" "\<forall>td n part. HashStruct K td n part \<noteq> Panic"
  shows "SignSettlement E K s roundID winners amounts \<noteq> Panic"
proof -
  have "Digest E K s roundID winners amounts \<noteq> Panic"
    using assms(2) by (auto simp: Digest_def Let_def split: res.splits)
  moreover have "\<not> length sig \<le> 64" if "crypto_Sign K d k = Ok sig" for d k sig
    using assms(1) that unfolding sign_ok_def by fastforce
  moreover have "crypto_Sign K d k \<noteq> Panic" for d k using assms(1) unfolding sign_ok_def by blast
  ultimately show ?thesis by (auto simp: SignSettlement_def split: res.split)
qed

text \<open>
  C32: a settlement signature, when one is returned, is for equally many winners and amounts; it
  is the 65 bytes the key gave for the Keccak hash of the prefix 0x19 0x01, the domain hash and
  the message hash of this round, these winners and these amounts, with \<open>v\<close> moved from 0 or 1 to
  27 or 28 and every other byte untouched.
\<close>

theorem SignSettlement_form:
  assumes "sign_ok K" "SignSettlement E K s roundID winners amounts = Ok sig"
  shows "length winners = length amounts \<and> length sig = 65 \<and> byte (sig ! 64) \<in> {27, 28} \<and>
    (\<exists>dom msg raw.
      HashStruct K (typedData E s roundID winners amounts) ''EIP712Domain'' Domain_map = Ok dom \<and>
      HashStruct K (typedData E s roundID winners amounts) ''Settlement'' Message_map = Ok msg \<and>
      crypto_Sign K (Keccak256 K ([CHR 0x19, CHR 0x01] @ dom @ msg)) (s_key s) = Ok raw \<and>
      (\<forall>i < 64. sig ! i = raw ! i) \<and> byte (sig ! 64) = byte (raw ! 64) + 27)"
proof -
  obtain digest raw where d: "length winners = length amounts"
    "Digest E K s roundID winners amounts = Ok digest"
    "crypto_Sign K digest (s_key s) = Ok raw" "sig = raw[64 := add27 (raw ! 64)]"
    using assms(2) by (auto simp: SignSettlement_Ok)
  have raw: "length raw = 65" "byte (raw ! 64) \<in> {0, 1}"
    using assms(1) d(3) unfolding sign_ok_def by blast+
  then have v: "byte (sig ! 64) = byte (raw ! 64) + 27" "length sig = 65"
    using d(4) byte_add27 [of "raw ! 64"] by auto
  obtain dom msg where
    "HashStruct K (typedData E s roundID winners amounts) ''EIP712Domain'' Domain_map = Ok dom"
    "HashStruct K (typedData E s roundID winners amounts) ''Settlement'' Message_map = Ok msg"
    "digest = Keccak256 K ([CHR 0x19, CHR 0x01] @ dom @ msg)"
    using d(2) by (auto simp: Digest_def Let_def typedData_def split: res.splits)
  then show ?thesis using d raw v by auto
qed

text \<open>
  Signing never panics when \<open>crypto.Sign\<close> keeps its contract and the struct hashes do not
  panic; winner and amount lists of different lengths are always refused.
\<close>

theorem SignSettlement_total:
  assumes "sign_ok K" "\<forall>td n part. HashStruct K td n part \<noteq> Panic"
  shows "SignSettlement E K s roundID winners amounts \<noteq> Panic \<and>
    (length winners \<noteq> length amounts \<longrightarrow>
      (\<exists>e. SignSettlement E K s roundID winners amounts = Err e))"
proof (intro conjI impI)
  show "SignSettlement E K s roundID winners amounts \<noteq> Panic" by (rule SignSettlement_no_panic [OF assms])
qed (simp add: SignSettlement_def)

section \<open>Witnesses\<close>

text \<open>A hash and a signature that only have the right shape, and an address codec.\<close>

definition toy_crypto :: crypto where
  "toy_crypto = \<lparr>HashStruct = (\<lambda>td n part. Ok n), Keccak256 = (\<lambda>s. s),
    crypto_Sign = (\<lambda>d k. Ok (replicate 64 (CHR 0x05) @ [CHR 0x01]))\<rparr>"

definition toy_onchain :: Round where
  "toy_onchain = \<lparr>EntryFee = 5, EndTime = 180, RefundDelay = 0, RakeBps = 500, Settled = False,
    Cancelled = False, Pot = 1000, Entrants = 2\<rparr>"

definition toy_eth :: "unit eth" where
  "toy_eth = \<lparr>IsHexAddress = (\<lambda>s. s \<noteq> []), HexToAddress = (\<lambda>s. of_nat (length s)), Hex = (\<lambda>a. ''0x''),
    HexToECDSA = (\<lambda>s. Ok 7), PubkeyToAddress = (\<lambda>k. 9), Dial = (\<lambda>s. Ok ()), ParseABI = (\<lambda>a. Ok ()),
    Transactor = (\<lambda>k i. Ok ()), Call = (\<lambda>c f args w. (if ANilBig \<in> set args then Panic
      else Ok (if f = ''getRound'' then encode_round toy_onchain else [ABool True]), w)),
    Transact = (\<lambda>w f args c. (Ok 0, c)), WaitMined = (\<lambda>w tx c. (Ok \<lparr>status = 1\<rparr>, c)),
    Quote = (\<lambda>s. s), Bytes2Hex = (\<lambda>s. s), RandRead = (\<lambda>n c. (Ok (replicate n (CHR 0x00)), c))\<rparr>"

definition toy_signer :: Signer where
  "toy_signer = \<lparr>s_key = 7, s_address = 9, s_chainID = 42220, s_contract = 11\<rparr>"

lemma sign_ok_toy: "sign_ok toy_crypto"
  by (auto simp: sign_ok_def toy_crypto_def nth_append)

lemma toy_signature: "SignSettlement toy_eth toy_crypto toy_signer roundID [a] [x] =
    Ok (replicate 64 (CHR 0x05) @ [CHR 0x1C])"
proof -
  have "add27 (CHR 0x01) = CHR 0x1C" by code_simp
  then show ?thesis
    by (simp add: SignSettlement_def Digest_def Let_def toy_crypto_def nth_append list_update_append)
qed

theorem SignSettlement_form_witness:
  "byte ((replicate 64 (CHR 0x05) @ [CHR 0x1C]) ! 64) \<in> {27, 28}"
  using SignSettlement_form [OF sign_ok_toy toy_signature] by blast

theorem SignSettlement_total_witness:
  "\<exists>e. SignSettlement toy_eth toy_crypto toy_signer (Some 5) [1] [] = Err e"
proof -
  have "\<forall>td n part. HashStruct toy_crypto td n part \<noteq> Panic" by (simp add: toy_crypto_def)
  from SignSettlement_total [OF sign_ok_toy this, of toy_eth toy_signer "Some 5" "[1]" "[]"]
  show ?thesis by simp
qed

end
