(* ===== verification/Room.thy ===== *)
theory Room
  imports Rack Signer
begin

text \<open>
  \<open>internal/room/room.go\<close>: rooms in which up to five players race the same rack, with optional
  stakes settled on chain. Rooms are shared by pointer (a settlement timer holds one), so the
  manager's state has a heap of rooms beside the map from codes to addresses. A section of code
  under one lock is one step and sees one reading of the clock \<open>now\<close>; \<open>Create\<close> and \<open>settleRoom\<close>,
  which release their locks around the chain calls, are composed of such sections. A race on a
  deleted or full map is not modelled; an index or nil dereference that panics is \<open>Panic\<close>.
\<close>

section \<open>State\<close>

definition MaxPlayers :: nat where
  "MaxPlayers = 5"

definition RaceSeconds :: int where
  "RaceSeconds = 60"

definition rackSize :: int where
  "rackSize = 6"

definition codeLen :: nat where
  "codeLen = 4"

definition second :: int where
  "second = 1000000000"

definition stakeWindow :: int where
  "stakeWindow = 3 * 60 * second"

definition codeAlphabet :: string where
  "codeAlphabet = ''ABCDEFGHJKLMNPQRSTUVWXYZ23456789''"

record player =
  p_id :: string
  p_name :: string
  p_score :: int
  p_words :: int
  p_found :: "(string \<times> bool) list"

datatype room_state = Lobby | Racing | Over

datatype settle_status = Not_settled | Pending | Settled_ok | Settle_failed

record Room =
  r_code :: string
  r_host :: string
  r_public :: bool
  r_state :: room_state
  r_letters :: string
  r_endsAt :: int
  r_players :: "(string \<times> player) list"
  r_order :: "string list"
  r_raceSeconds :: int
  r_stake :: "int option"
  r_roundID :: "int option"
  r_stakeEndsAt :: int
  r_settleStatus :: settle_status
  r_settleErr :: string

text \<open>
  The manager: the map of codes, the rooms, the armed settlement timers (when, which room), the
  on-chain pieces (\<open>None\<close> is nil) and the state of the outside world.
\<close>

record 'c Manager =
  m_rooms :: "(string \<times> nat) list"
  m_heap :: "Room list"
  m_timers :: "(int \<times> nat) list"
  m_dict :: dictionary
  m_raceSeconds :: int
  m_writer :: "Writer option"
  m_reader :: "Client option"
  m_signer :: "Signer option"
  m_world :: 'c

record ('c, 'r) env =
  e_eth :: "'c eth"
  e_crypto :: crypto
  e_uc :: "nat \<Rightarrow> nat"
  e_rng :: "'r rng"

text \<open>\<open>RACE_SECONDS\<close> is the value of the environment variable, empty when unset.\<close>

definition NewManager :: "string \<Rightarrow> dictionary \<Rightarrow> 'c \<Rightarrow> 'c Manager" where
  "NewManager RACE_SECONDS d w =
    \<lparr>m_rooms = [], m_heap = [], m_timers = [], m_dict = d,
     m_raceSeconds = (case Atoi RACE_SECONDS of
        Some n \<Rightarrow> if n > 0 then n else RaceSeconds | None \<Rightarrow> RaceSeconds),
     m_writer = None, m_reader = None, m_signer = None, m_world = w\<rparr>"

definition EnableStaking :: "Writer option \<Rightarrow> Client option \<Rightarrow> Signer option \<Rightarrow> 'c Manager \<Rightarrow> 'c Manager" where
  "EnableStaking w r sg m = m\<lparr>m_writer := w, m_reader := r, m_signer := sg\<rparr>"

definition stakingEnabled :: "'c Manager \<Rightarrow> bool" where
  "stakingEnabled m \<longleftrightarrow> m_writer m \<noteq> None \<and> m_reader m \<noteq> None \<and> m_signer m \<noteq> None"

definition set_room :: "nat \<Rightarrow> Room \<Rightarrow> 'c Manager \<Rightarrow> 'c Manager" where
  "set_room a r m = m\<lparr>m_heap := (m_heap m)[a := r]\<rparr>"

section \<open>Views\<close>

record PlayerView =
  pv_id :: string
  pv_name :: string
  pv_score :: int
  pv_words :: int

record RoomView =
  v_code :: string
  v_state :: room_state
  v_host :: string
  v_public :: bool
  v_letters :: string
  v_timeLeft :: int
  v_players :: "PlayerView list"
  v_winner :: string
  v_you :: string
  v_stake :: string
  v_pot :: string
  v_roundID :: string
  v_stakeEndsIn :: int
  v_settleStatus :: settle_status
  v_settleErr :: string

text \<open>\<open>shortID\<close> slices bytes; the ellipsis is its UTF-8 encoding.\<close>

definition shortID :: "string \<Rightarrow> string" where
  "shortID i =
    (if length i \<ge> 6 \<and> take 2 i = ''0x''
     then take 6 i @ [CHR 0xE2, CHR 0x80, CHR 0xA6] @ drop (length i - 4) i
     else if length i > 8 then take 8 i
     else i)"

definition addPlayer :: "string \<Rightarrow> string \<Rightarrow> Room \<Rightarrow> Room" where
  "addPlayer i name r =
    (let name = (if name = [] then shortID i else name)
     in r\<lparr>r_players := AList.update i
            \<lparr>p_id = i, p_name = name, p_score = 0, p_words = 0, p_found = []\<rparr> (r_players r),
          r_order := r_order r @ [i]\<rparr>)"

definition maybeFinishLocked :: "int \<Rightarrow> Room \<Rightarrow> Room" where
  "maybeFinishLocked now r =
    (if r_state r = Racing \<and> \<not> now < r_endsAt r then r\<lparr>r_state := Over\<rparr> else r)"

text \<open>A score through the player pointer, and the position, where the last index of an id wins.\<close>

definition score_of :: "Room \<Rightarrow> string \<Rightarrow> int" where
  "score_of r i = (case map_of (r_players r) i of Some p \<Rightarrow> p_score p | None \<Rightarrow> 0)"

definition pos_of :: "Room \<Rightarrow> string \<Rightarrow> nat" where
  "pos_of r i =
    (case map_of (rev (zip (r_order r) [0..<length (r_order r)])) i of Some n \<Rightarrow> n | None \<Rightarrow> 0)"

definition ranks_above :: "Room \<Rightarrow> string \<Rightarrow> string \<Rightarrow> bool" where
  "ranks_above r a b =
    (if score_of r a \<noteq> score_of r b then score_of r a > score_of r b else pos_of r a < pos_of r b)"

definition rankedIDsLocked :: "Room \<Rightarrow> string list" where
  "rankedIDsLocked r = sort_slice (ranks_above r) (r_order r)"

text \<open>Whether every id of the join order has a player; otherwise its use is a nil dereference.\<close>

definition no_nil_player :: "Room \<Rightarrow> bool" where
  "no_nil_player r = list_all (\<lambda>i. map_of (r_players r) i \<noteq> None) (r_order r)"

definition leaderLocked :: "Room \<Rightarrow> string res" where
  "leaderLocked r =
    (if length (r_order r) \<le> 1 \<or> no_nil_player r
     then Ok (case rankedIDsLocked r of [] \<Rightarrow> [] | i # _ \<Rightarrow> i)
     else Panic)"

text \<open>\<open>time.Until\<close> saturates; \<open>int(d.Seconds())\<close> truncates.\<close>

definition until :: "int \<Rightarrow> int \<Rightarrow> int" where
  "until now t = max (- (2 ^ 63)) (min (2 ^ 63 - 1) (t - now))"

definition secs :: "int \<Rightarrow> int" where
  "secs d = (if d < 0 then - (- d div second) else d div second)"

definition player_view :: "Room \<Rightarrow> string \<Rightarrow> PlayerView" where
  "player_view r i =
    (case map_of (r_players r) i of
       Some p \<Rightarrow> \<lparr>pv_id = i, pv_name = p_name p, pv_score = p_score p, pv_words = p_words p\<rparr>
     | None \<Rightarrow> \<lparr>pv_id = i, pv_name = [], pv_score = 0, pv_words = 0\<rparr>)"

definition nil_String :: "int option \<Rightarrow> string" where
  "nil_String x = (case x of Some n \<Rightarrow> big_String n | None \<Rightarrow> ''<nil>'')"

definition view_of :: "int \<Rightarrow> string \<Rightarrow> Room \<Rightarrow> RoomView" where
  "view_of now viewer r =
    (let ids = rankedIDsLocked r;
         left = secs (until now (r_endsAt r));
         stakeLeft = secs (until now (r_stakeEndsAt r))
     in \<lparr>v_code = r_code r, v_state = r_state r, v_host = r_host r, v_public = r_public r,
         v_letters = (if r_state r \<noteq> Lobby then r_letters r else []),
         v_timeLeft = (if r_state r = Racing \<and> left > 0 then left else 0),
         v_players = map (player_view r) ids,
         v_winner = (if r_state r = Over \<and> ids \<noteq> [] then hd ids else []),
         v_you = viewer,
         v_stake = (case r_stake r of None \<Rightarrow> ''0'' | Some x \<Rightarrow> big_String x),
         v_pot = (case r_stake r of None \<Rightarrow> ''0'' | Some x \<Rightarrow> big_String (x * int (length ids))),
         v_roundID = (case r_stake r of None \<Rightarrow> [] | Some _ \<Rightarrow> nil_String (r_roundID r)),
         v_stakeEndsIn = (case r_stake r of None \<Rightarrow> 0 | Some _ \<Rightarrow> if stakeLeft > 0 then stakeLeft else 0),
         v_settleStatus = r_settleStatus r, v_settleErr = r_settleErr r\<rparr>)"

text \<open>The snapshot finishes an expired race, then reads the room.\<close>

definition snapshotLocked :: "int \<Rightarrow> string \<Rightarrow> Room \<Rightarrow> RoomView res \<times> Room" where
  "snapshotLocked now viewer r =
    (let r = maybeFinishLocked now r
     in (if no_nil_player r then Ok (view_of now viewer r) else Panic, r))"

section \<open>Codes and round ids\<close>

text \<open>What a buffer of \<open>n\<close> zero bytes holds after \<open>rand.Read\<close>.\<close>

definition read_buf :: "nat \<Rightarrow> string res \<Rightarrow> string" where
  "read_buf n r =
    (case r of Ok bs \<Rightarrow> take n (bs @ replicate n (CHR 0x00)) | _ \<Rightarrow> replicate n (CHR 0x00))"

definition randCode :: "'c eth \<Rightarrow> 'c \<Rightarrow> string \<times> 'c" where
  "randCode E ch =
    (case RandRead E codeLen ch of
       (r, ch) \<Rightarrow> (map (\<lambda>b. codeAlphabet ! (byte b mod length codeAlphabet)) (read_buf codeLen r), ch))"

partial_function (option) freshCode :: "'c eth \<Rightarrow> (string \<times> nat) list \<Rightarrow> 'c \<Rightarrow> (string \<times> 'c) option" where
  "freshCode E rooms ch =
    (case randCode E ch of
       (c, ch) \<Rightarrow> if map_of rooms c = None then Some (c, ch) else freshCode E rooms ch)"

definition SetBytes :: "string \<Rightarrow> int" where
  "SetBytes bs = fold (\<lambda>b n. n * 256 + int (byte b)) bs 0"

primrec freshRoundID_loop :: "nat \<Rightarrow> 'c eth \<Rightarrow> Client \<Rightarrow> 'c \<Rightarrow> int res \<times> 'c" where
  "freshRoundID_loop 0 E reader ch = (Err ''could not find a free round id'', ch)"
| "freshRoundID_loop (Suc i) E reader ch =
    (case RandRead E 8 ch of
       (Panic, ch) \<Rightarrow> (Panic, ch)
     | (Err e, ch) \<Rightarrow> (Err e, ch)
     | (Ok bs, ch) \<Rightarrow>
         let n = SetBytes (read_buf 8 (Ok bs)) div 2
         in case RoundExists E reader n ch of
              (Panic, ch) \<Rightarrow> (Panic, ch)
            | (Err e, ch) \<Rightarrow> (Err e, ch)
            | (Ok exists, ch) \<Rightarrow>
                if \<not> exists then (Ok n, ch) else freshRoundID_loop i E reader ch)"

definition freshRoundID :: "'c eth \<Rightarrow> Client \<Rightarrow> 'c \<Rightarrow> int res \<times> 'c" where
  "freshRoundID E reader ch = freshRoundID_loop 5 E reader ch"

section \<open>Manager operations\<close>

definition is_staked :: "int option \<Rightarrow> bool" where
  "is_staked stake = (case stake of Some x \<Rightarrow> x > 0 | None \<Rightarrow> False)"

text \<open>Seconds since 1970 of a time.\<close>

definition Unix :: "int \<Rightarrow> int" where
  "Unix t = t div second - 62135596800"

text \<open>The first locked section of \<open>Create\<close>: a fresh code, and the room published under it.\<close>

definition new_room :: "'c Manager \<Rightarrow> string \<Rightarrow> string \<Rightarrow> bool \<Rightarrow> int option \<Rightarrow> Room" where
  "new_room m code playerID public stake =
    \<lparr>r_code = code, r_host = playerID, r_public = public, r_state = Lobby, r_letters = [],
     r_endsAt = 0, r_players = [], r_order = [], r_raceSeconds = m_raceSeconds m,
     r_stake = (if is_staked stake then stake else None), r_roundID = None, r_stakeEndsAt = 0,
     r_settleStatus = Not_settled, r_settleErr = []\<rparr>"

definition wallet_needed :: string where
  "wallet_needed = ''staked rooms need a connected wallet''"

definition no_staking :: string where
  "no_staking = ''staking isn'' @ [CHR 0x27] @ ''t available on this server right now''"

definition create_publish :: "('c, 'r) env \<Rightarrow> string \<Rightarrow> bool \<Rightarrow> int option \<Rightarrow> 'c Manager \<Rightarrow>
    (nat \<times> string \<times> 'c Manager) option" where
  "create_publish V playerID public stake m =
    (case freshCode (e_eth V) (m_rooms m) (m_world m) of
       None \<Rightarrow> None
     | Some (code, w) \<Rightarrow>
         let a = length (m_heap m)
         in Some (a, code, m\<lparr>m_rooms := AList.update code a (m_rooms m),
              m_heap := m_heap m @ [new_room m code playerID public stake], m_world := w\<rparr>))"

definition drop_room :: "string \<Rightarrow> 'c Manager \<Rightarrow> 'c Manager" where
  "drop_room code m = m\<lparr>m_rooms := AList.delete code (m_rooms m)\<rparr>"

text \<open>The unlocked part of a staked \<open>Create\<close>: the round is opened on chain.\<close>

definition create_open :: "('c, 'r) env \<Rightarrow> int \<Rightarrow> int \<Rightarrow> 'c Manager \<Rightarrow> (int \<times> int) res \<times> 'c Manager" where
  "create_open V now amount m =
    (case (m_writer m, m_reader m) of
       (Some writer, Some reader) \<Rightarrow>
         (case freshRoundID (e_eth V) reader (m_world m) of
            (Panic, w) \<Rightarrow> (Panic, m\<lparr>m_world := w\<rparr>)
          | (Err e, w) \<Rightarrow> (Err (''could not prepare the on-chain round: '' @ e), m\<lparr>m_world := w\<rparr>)
          | (Ok roundID, w) \<Rightarrow>
              let endsAt = now + stakeWindow
              in case CreateRound (e_eth V) writer roundID amount (word_of_int (Unix endsAt)) w of
                   (Panic, w) \<Rightarrow> (Panic, m\<lparr>m_world := w\<rparr>)
                 | (Err e, w) \<Rightarrow> (Err (''could not open the stake on-chain: '' @ e), m\<lparr>m_world := w\<rparr>)
                 | (Ok _, w) \<Rightarrow> (Ok (roundID, endsAt), m\<lparr>m_world := w\<rparr>))
     | _ \<Rightarrow> (Panic, m))"

definition set_round :: "nat \<Rightarrow> int \<Rightarrow> int \<Rightarrow> 'c Manager \<Rightarrow> 'c Manager" where
  "set_round a roundID endsAt m =
    set_room a ((m_heap m ! a)\<lparr>r_roundID := Some roundID, r_stakeEndsAt := endsAt\<rparr>) m"

definition snapshot :: "int \<Rightarrow> string \<Rightarrow> nat \<Rightarrow> 'c Manager \<Rightarrow> RoomView res \<times> 'c Manager" where
  "snapshot now viewer a m =
    (case snapshotLocked now viewer (m_heap m ! a) of (v, r) \<Rightarrow> (v, set_room a r m))"

text \<open>
  The host of a free room joins by an unguarded \<open>addPlayer\<close>, after the room was published and without
  its lock: joins and a start may have come in between.
\<close>

definition create_host :: "string \<Rightarrow> string \<Rightarrow> nat \<Rightarrow> 'c Manager \<Rightarrow> 'c Manager" where
  "create_host playerID name a m = set_room a (addPlayer playerID name (m_heap m ! a)) m"

text \<open>\<open>now\<close> is read for the end of the stake window, \<open>at\<close> for the view.\<close>

definition Create :: "('c, 'r) env \<Rightarrow> int \<Rightarrow> int \<Rightarrow> string \<Rightarrow> string \<Rightarrow> bool \<Rightarrow> int option \<Rightarrow> 'c Manager \<Rightarrow>
    (RoomView res \<times> 'c Manager) option" where
  "Create V now at playerID name public stake m =
    (if is_staked stake \<and> \<not> IsHexAddress (e_eth V) playerID
     then Some (Err wallet_needed, m)
     else if is_staked stake \<and> \<not> stakingEnabled m
     then Some (Err no_staking, m)
     else case create_publish V playerID public stake m of
       None \<Rightarrow> None
     | Some (a, code, m) \<Rightarrow>
         (case (if is_staked stake then stake else None) of
            Some amount \<Rightarrow>
              (case create_open V now amount m of
                 (Panic, m) \<Rightarrow> Some (Panic, m)
               | (Err e, m) \<Rightarrow> Some (Err e, drop_room code m)
               | (Ok (roundID, endsAt), m) \<Rightarrow> Some (snapshot at playerID a (set_round a roundID endsAt m)))
          | None \<Rightarrow> Some (snapshot at playerID a (create_host playerID name a m))))"

definition room_addr :: "('c, 'r) env \<Rightarrow> string \<Rightarrow> 'c Manager \<Rightarrow> nat option" where
  "room_addr V code m = map_of (m_rooms m) (to_upper (e_uc V) code)"

definition Get :: "('c, 'r) env \<Rightarrow> int \<Rightarrow> string \<Rightarrow> string \<Rightarrow> 'c Manager \<Rightarrow> RoomView res option \<times> 'c Manager" where
  "Get V now code viewer m =
    (case room_addr V code m of
       None \<Rightarrow> (None, m)
     | Some a \<Rightarrow> (case snapshot now viewer a m of (v, m) \<Rightarrow> (Some v, m)))"

definition open_room :: "Room \<Rightarrow> bool" where
  "open_room r \<longleftrightarrow> r_state r = Lobby \<and> r_public r \<and> length (r_players r) < MaxPlayers"

definition code_before :: "RoomView \<Rightarrow> RoomView \<Rightarrow> bool" where
  "code_before x y \<longleftrightarrow> v_code x < v_code y"

definition List_rooms :: "int \<Rightarrow> 'c Manager \<Rightarrow> RoomView list res" where
  "List_rooms now m =
    (let open = filter open_room (map (\<lambda>(code, a). m_heap m ! a) (map_entries (m_rooms m)))
     in if list_all no_nil_player open then Ok (sort_slice code_before (map (view_of now []) open))
        else Panic)"

text \<open>What \<open>List\<close> makes of one room, under its lock.\<close>

definition list_room :: "int \<Rightarrow> nat \<Rightarrow> 'c Manager \<Rightarrow> RoomView option res \<times> 'c Manager" where
  "list_room now a m =
    (if open_room (m_heap m ! a)
     then case snapshot now [] a m of
            (Ok v, m) \<Rightarrow> (Ok (Some v), m) | (Err e, m) \<Rightarrow> (Err e, m) | (Panic, m) \<Rightarrow> (Panic, m)
     else (Ok None, m))"

definition not_found :: string where
  "not_found = ''room not found''"

text \<open>
  \<open>Join\<close>, \<open>Start\<close> and \<open>Submit\<close> look the room up under the lock of the manager; the rest is done to the
  room that was found, under its own lock, whether or not it is still stored. \<open>Join\<close> holds that lock during the
  chain call: one step.
\<close>

definition verify_stake :: "('c, 'r) env \<Rightarrow> string \<Rightarrow> Room \<Rightarrow> 'c Manager \<Rightarrow> unit res \<times> 'c Manager" where
  "verify_stake V playerID r m =
    (if r_stake r = None then (Ok (), m)
     else if \<not> IsHexAddress (e_eth V) playerID
     then (Err (''this room is staked '' @ [CHR 0xE2, CHR 0x80, CHR 0x94] @ '' connect your wallet first''), m)
     else case m_reader m of
       None \<Rightarrow> (Err no_staking, m)
     | Some reader \<Rightarrow>
         (case HasEntered (e_eth V) reader (r_roundID r) (HexToAddress (e_eth V) playerID) (m_world m) of
            (Panic, w) \<Rightarrow> (Panic, m\<lparr>m_world := w\<rparr>)
          | (Err e, w) \<Rightarrow> (Err (''could not verify your stake: '' @ e), m\<lparr>m_world := w\<rparr>)
          | (Ok entered, w) \<Rightarrow>
              (if \<not> entered then Err ''stake first: approve and enter on-chain before joining'' else Ok (),
               m\<lparr>m_world := w\<rparr>)))"

definition Join_at :: "('c, 'r) env \<Rightarrow> int \<Rightarrow> nat \<Rightarrow> string \<Rightarrow> string \<Rightarrow> 'c Manager \<Rightarrow>
    RoomView res \<times> 'c Manager" where
  "Join_at V now a playerID name m =
    (let r = m_heap m ! a
     in if map_of (r_players r) playerID \<noteq> None then snapshot now playerID a m
        else if r_state r \<noteq> Lobby then (Err ''this race already started'', m)
        else if length (r_players r) \<ge> MaxPlayers then (Err ''room is full'', m)
        else case verify_stake V playerID r m of
          (Panic, m) \<Rightarrow> (Panic, m)
        | (Err e, m) \<Rightarrow> (Err e, m)
        | (Ok _, m) \<Rightarrow> snapshot now playerID a (set_room a (addPlayer playerID name r) m))"

definition Join :: "('c, 'r) env \<Rightarrow> int \<Rightarrow> string \<Rightarrow> string \<Rightarrow> string \<Rightarrow> 'c Manager \<Rightarrow>
    RoomView res \<times> 'c Manager" where
  "Join V now code playerID name m =
    (case room_addr V code m of
       None \<Rightarrow> (Err not_found, m)
     | Some a \<Rightarrow> Join_at V now a playerID name m)"

definition wrap64 :: "int \<Rightarrow> int" where
  "wrap64 x = sint (word_of_int x :: 64 word)"

definition scheduleSettle :: "int \<Rightarrow> nat \<Rightarrow> 'c Manager \<Rightarrow> 'c Manager" where
  "scheduleSettle now a m =
    (let delay = wrap64 (until now (r_stakeEndsAt (m_heap m ! a)) + 2 * second);
         delay = (if delay < 0 then 0 else delay)
     in m\<lparr>m_timers := m_timers m @ [(now + delay, a)]\<rparr>)"

text \<open>\<open>seed\<close> is the draw of the global generator the rack is made from.\<close>

definition Start_at :: "('c, 'r) env \<Rightarrow> int \<Rightarrow> int \<Rightarrow> nat \<Rightarrow> string \<Rightarrow> 'c Manager \<Rightarrow>
    RoomView res \<times> 'c Manager" where
  "Start_at V now seed a playerID m =
    (let r = m_heap m ! a
     in if playerID \<noteq> r_host r then (Err ''only the host can start'', m)
        else if r_state r \<noteq> Lobby then (Err ''already started'', m)
        else case GenerateSolo (e_uc V) (e_rng V) (m_dict m) rackSize seed of
          None \<Rightarrow> (Panic, m)
        | Some rk \<Rightarrow>
            let r = r\<lparr>r_letters := rk_letters rk, r_state := Racing,
                      r_endsAt := now + wrap64 (r_raceSeconds r * second)\<rparr>
            in snapshot now playerID a (set_room a r m))"

text \<open>After the lock is released, the race of a staked room gets its timer.\<close>

definition arm :: "int \<Rightarrow> nat \<Rightarrow> 'c Manager \<Rightarrow> 'c Manager" where
  "arm now a m = (if r_stake (m_heap m ! a) \<noteq> None then scheduleSettle now a m else m)"

definition Start :: "('c, 'r) env \<Rightarrow> int \<Rightarrow> int \<Rightarrow> string \<Rightarrow> string \<Rightarrow> 'c Manager \<Rightarrow>
    RoomView res \<times> 'c Manager" where
  "Start V now seed code playerID m =
    (case room_addr V code m of
       None \<Rightarrow> (Err not_found, m)
     | Some a \<Rightarrow>
         (case Start_at V now seed a playerID m of
            (Ok v, m) \<Rightarrow> (Ok v, arm now a m)
          | (Err e, m) \<Rightarrow> (Err e, m)
          | (Panic, m) \<Rightarrow> (Panic, m)))"

text \<open>\<open>Submit\<close>: accepted, points, the view (\<open>None\<close> is nil) and the error.\<close>

record submit_reply =
  sr_accepted :: bool
  sr_points :: int
  sr_view :: "RoomView option"
  sr_err :: "string option"

definition submit_done :: "bool \<Rightarrow> int \<Rightarrow> string option \<Rightarrow> int \<Rightarrow> string \<Rightarrow> nat \<Rightarrow> 'c Manager \<Rightarrow>
    submit_reply res \<times> 'c Manager" where
  "submit_done acc pts err now playerID a m =
    (case snapshot now playerID a m of
       (Ok v, m) \<Rightarrow> (Ok \<lparr>sr_accepted = acc, sr_points = pts, sr_view = Some v, sr_err = err\<rparr>, m)
     | (_, m) \<Rightarrow> (Panic, m))"

definition Submit_at :: "('c, 'r) env \<Rightarrow> int \<Rightarrow> nat \<Rightarrow> string \<Rightarrow> string \<Rightarrow> 'c Manager \<Rightarrow>
    submit_reply res \<times> 'c Manager" where
  "Submit_at V now a playerID word m =
    (let r = maybeFinishLocked now (m_heap m ! a); m = set_room a r m
     in if r_state r \<noteq> Racing
        then submit_done False 0 (Some ''race is not running'') now playerID a m
        else case map_of (r_players r) playerID of
          None \<Rightarrow> (Ok \<lparr>sr_accepted = False, sr_points = 0, sr_view = None,
            sr_err = Some (''you'' @ [CHR 0x27] @ ''re not in this room'')\<rparr>, m)
        | Some p \<Rightarrow>
            let w = norm_word (e_uc V) word
            in if map_of (p_found p) w = Some True
               then submit_done False 0 None now playerID a m
               else case accepted (Score (e_uc V) (m_dict m) (r_letters r) [w]) of
                 [ws] \<Rightarrow>
                   let p = p\<lparr>p_found := AList.update w True (p_found p),
                             p_score := p_score p + ws_points ws, p_words := p_words p + 1\<rparr>;
                       r = r\<lparr>r_players := AList.update playerID p (r_players r)\<rparr>
                   in submit_done True (ws_points ws) None now playerID a (set_room a r m)
               | _ \<Rightarrow> submit_done False 0 None now playerID a m)"

definition Submit :: "('c, 'r) env \<Rightarrow> int \<Rightarrow> string \<Rightarrow> string \<Rightarrow> string \<Rightarrow> 'c Manager \<Rightarrow>
    submit_reply res \<times> 'c Manager" where
  "Submit V now code playerID word m =
    (case room_addr V code m of
       None \<Rightarrow> (Ok \<lparr>sr_accepted = False, sr_points = 0, sr_view = None, sr_err = Some not_found\<rparr>, m)
     | Some a \<Rightarrow> Submit_at V now a playerID word m)"

section \<open>Settlement\<close>

definition bpsDenominator :: int where
  "bpsDenominator = 10000"

definition payoutAfterRake :: "int \<Rightarrow> 16 word \<Rightarrow> int" where
  "payoutAfterRake pot rakeBps = (let rake = (pot * uint rakeBps) div bpsDenominator in pot - rake)"

text \<open>The first locked section of \<open>settleRoom\<close>: \<open>None\<close> when there is nothing to settle.\<close>

definition settle_begin :: "int \<Rightarrow> nat \<Rightarrow> 'c Manager \<Rightarrow> string res option \<times> 'c Manager" where
  "settle_begin now a m =
    (let r = maybeFinishLocked now (m_heap m ! a)
     in if r_state r \<noteq> Over \<or> r_settleStatus r \<noteq> Not_settled then (None, set_room a r m)
        else (Some (leaderLocked r), set_room a (r\<lparr>r_settleStatus := Pending\<rparr>) m))"

definition settle_pay :: "('c, 'r) env \<Rightarrow> string \<Rightarrow> int option \<Rightarrow> 'c Manager \<Rightarrow>
    (settle_status \<times> string) res \<times> 'c Manager" where
  "settle_pay V winnerID roundID m =
    (if winnerID = [] \<or> \<not> IsHexAddress (e_eth V) winnerID
     then (Ok (Settle_failed, ''no eligible winner''), m)
     else case m_reader m of
       None \<Rightarrow> (Panic, m)
     | Some reader \<Rightarrow>
         (case GetRound (e_eth V) reader roundID (m_world m) of
            (Panic, w) \<Rightarrow> (Panic, m\<lparr>m_world := w\<rparr>)
          | (Err e, w) \<Rightarrow> (Ok (Settle_failed, ''could not read round state: '' @ e), m\<lparr>m_world := w\<rparr>)
          | (Ok rd, w) \<Rightarrow>
              let payout = payoutAfterRake (Pot rd) (RakeBps rd);
                  winners = [HexToAddress (e_eth V) winnerID]; amounts = [payout]
              in case m_signer m of
                   None \<Rightarrow> (Panic, m\<lparr>m_world := w\<rparr>)
                 | Some sg \<Rightarrow>
              (case SignSettlement (e_eth V) (e_crypto V) sg roundID winners amounts of
                   Panic \<Rightarrow> (Panic, m\<lparr>m_world := w\<rparr>)
                 | Err e \<Rightarrow> (Ok (Settle_failed, e), m\<lparr>m_world := w\<rparr>)
                 | Ok sig \<Rightarrow>
              (case m_writer m of
                   None \<Rightarrow> (Panic, m\<lparr>m_world := w\<rparr>)
                 | Some writer \<Rightarrow>
                     (case Settle (e_eth V) writer roundID winners amounts sig w of
                        (Panic, w) \<Rightarrow> (Panic, m\<lparr>m_world := w\<rparr>)
                      | (Err e, w) \<Rightarrow> (Ok (Settle_failed, e), m\<lparr>m_world := w\<rparr>)
                      | (Ok _, w) \<Rightarrow> (Ok (Settled_ok, []), m\<lparr>m_world := w\<rparr>))))))"

definition settle_end :: "nat \<Rightarrow> settle_status \<Rightarrow> string \<Rightarrow> 'c Manager \<Rightarrow> 'c Manager" where
  "settle_end a st err m =
    (let r = m_heap m ! a
     in set_room a (if st = Settle_failed then r\<lparr>r_settleStatus := st, r_settleErr := err\<rparr>
                    else r\<lparr>r_settleStatus := st\<rparr>) m)"

definition settleRoom :: "('c, 'r) env \<Rightarrow> int \<Rightarrow> nat \<Rightarrow> 'c Manager \<Rightarrow> unit res \<times> 'c Manager" where
  "settleRoom V now a m =
    (case settle_begin now a m of
       (None, m) \<Rightarrow> (Ok (), m)
     | (Some (Ok winnerID), m) \<Rightarrow>
         (case settle_pay V winnerID (r_roundID (m_heap m ! a)) m of
            (Ok (st, err), m) \<Rightarrow> (Ok (), settle_end a st err m)
          | (_, m) \<Rightarrow> (Panic, m))
     | (Some _, m) \<Rightarrow> (Panic, m))"

end
