(* ===== verification/Room_Invariant.thy ===== *)
theory Room_Invariant
  imports Room "HOL-Library.Product_Lexorder"
begin

text \<open>
  The rooms of \<open>internal/room/room.go\<close>: the ranking (interpretation \<open>rnk\<close>), the invariant of a
  room (at most five different players, every score the sum of the points of words its rack
  yields), how a room moves forward, and a step relation over the locked sections of all requests
  and timers under which the manager's invariant holds in every reachable state.
\<close>

section \<open>Ranking\<close>

definition room_rank_key :: "Room \<Rightarrow> string \<Rightarrow> int \<times> nat" where
  "room_rank_key r i = (- score_of r i, pos_of r i)"

interpretation rnk: key_order "ranks_above r" "room_rank_key r" for r
  by unfold_locales (auto simp: ranks_above_def room_rank_key_def less_prod_def)

interpretation lst: key_order code_before v_code
  by unfold_locales (simp add: code_before_def)

lemma set_rankedIDs [simp]: "set (rankedIDsLocked r) = set (r_order r)"
  by (simp add: rankedIDsLocked_def)

lemma length_rankedIDs [simp]: "length (rankedIDsLocked r) = length (r_order r)"
  by (simp add: rankedIDsLocked_def)

lemma rankedIDs_Nil_iff [simp]: "rankedIDsLocked r = [] \<longleftrightarrow> r_order r = []"
  by (simp add: rankedIDsLocked_def)

text \<open>The position of an id is its last index.\<close>

lemma map_of_last:
  "x \<in> set xs \<Longrightarrow> \<exists>n < length xs. map_of (rev (zip xs [0..<length xs])) x = Some n \<and> xs ! n = x \<and>
    (\<forall>k. n < k \<longrightarrow> k < length xs \<longrightarrow> xs ! k \<noteq> x)"
proof (induction xs rule: rev_induct)
  case (snoc y xs)
  show ?case
  proof (cases "x = y")
    case True
    then show ?thesis by (intro exI [of _ "length xs"]) simp
  next
    case False
    with snoc obtain n where "n < length xs" "map_of (rev (zip xs [0..<length xs])) x = Some n" "xs ! n = x"
      "\<forall>k. n < k \<longrightarrow> k < length xs \<longrightarrow> xs ! k \<noteq> x" by auto
    with False show ?thesis by (intro exI [of _ n]) (auto simp: nth_append less_Suc_eq)
  qed
qed simp

lemma pos_of_last:
  assumes "i \<in> set (r_order r)"
  shows "pos_of r i < length (r_order r)" "r_order r ! pos_of r i = i"
    "\<And>k. k < length (r_order r) \<Longrightarrow> r_order r ! k = i \<Longrightarrow> k \<le> pos_of r i"
  using map_of_last [OF assms] by (auto simp: pos_of_def not_less intro: leI)

text \<open>
  Who leads: nobody has a better score, and whoever has the same and stands earlier in the join order
  stands there again later.
\<close>

definition leads :: "Room \<Rightarrow> string \<Rightarrow> bool" where
  "leads r i \<longleftrightarrow> (\<exists>n < length (r_order r). i = r_order r ! n \<and>
    (\<forall>k < length (r_order r). score_of r (r_order r ! k) \<le> score_of r i) \<and>
    (\<forall>k < n. score_of r (r_order r ! k) < score_of r i \<or> r_order r ! k \<in> set (drop n (r_order r))))"

lemma nth_in_drop: "n \<le> k \<Longrightarrow> k < length xs \<Longrightarrow> xs ! k \<in> set (drop n xs)"
  by (auto simp: in_set_conv_nth intro!: exI [of _ "k - n"])

lemma rankedIDs_hd:
  assumes "r_order r \<noteq> []"
  shows "leads r (hd (rankedIDsLocked r))"
proof -
  define i where "i = hd (rankedIDsLocked r)"
  have i: "i \<in> set (r_order r)"
    unfolding i_def using assms by (metis set_rankedIDs rankedIDs_Nil_iff hd_in_set)
  have top: "\<not> ranks_above r j i" if "j \<in> set (r_order r)" for j
    unfolding i_def using rnk.hd_sort_slice [of j "r_order r" r] that by (simp add: rankedIDsLocked_def)
  note n = pos_of_last [OF i]
  have "score_of r (r_order r ! k) < score_of r i \<or> r_order r ! k \<in> set (drop (pos_of r i) (r_order r))"
    if "k < pos_of r i" for k
  proof (rule disjCI)
    let ?j = "r_order r ! k"
    assume "?j \<notin> set (drop (pos_of r i) (r_order r))"
    have j: "?j \<in> set (r_order r)" using that n(1) by simp
    then have "pos_of r ?j < pos_of r i"
      using \<open>?j \<notin> _\<close> pos_of_last(1,2) [OF j] nth_in_drop [of "pos_of r i" "pos_of r ?j" "r_order r"]
      by (metis not_le)
    then show "score_of r ?j < score_of r i" using top [OF j] by (auto simp: ranks_above_def split: if_splits)
  qed
  moreover have "score_of r (r_order r ! k) \<le> score_of r i" if "k < length (r_order r)" for k
    using top [of "r_order r ! k"] that by (auto simp: ranks_above_def split: if_splits)
  ultimately show ?thesis unfolding leads_def i_def [symmetric] using n(1,2) by metis
qed

section \<open>The invariant of a room\<close>

definition player_ok :: "(nat \<Rightarrow> nat) \<Rightarrow> dictionary \<Rightarrow> string \<Rightarrow> string \<Rightarrow> player \<Rightarrow> bool" where
  "player_ok uc d letters i p \<longleftrightarrow> p_id p = i \<and> map_wf (p_found p) \<and>
    (\<forall>(w, b) \<in> set (p_found p). b \<and> w \<in> set (FindWords uc d letters)) \<and>
    p_words p = int (length (p_found p)) \<and>
    p_score p = (\<Sum>(w, b) \<leftarrow> p_found p. WordPoints (int (length w)))"

definition players_ok :: "(nat \<Rightarrow> nat) \<Rightarrow> dictionary \<Rightarrow> Room \<Rightarrow> bool" where
  "players_ok uc d r \<longleftrightarrow> map_wf (r_players r) \<and>
    (\<forall>(i, p) \<in> set (r_players r). player_ok uc d (r_letters r) i p)"

text \<open>
  Everybody in the join order has an entry. In a staked room they are different and at most five; the host
  of a free room may come late, and so be a sixth, or stand in the order twice.
\<close>

definition tidy :: "Room \<Rightarrow> bool" where
  "tidy r \<longleftrightarrow> distinct (r_order r) \<and> length (r_order r) \<le> MaxPlayers"

definition order_ok :: "Room \<Rightarrow> bool" where
  "order_ok r \<longleftrightarrow> set (r_order r) = fst ` set (r_players r) \<and>
    distinct (remove1 (r_host r) (r_order r)) \<and> length (remove1 (r_host r) (r_order r)) \<le> MaxPlayers \<and>
    (r_stake r \<noteq> None \<longrightarrow> tidy r)"

definition room_ok :: "(nat \<Rightarrow> nat) \<Rightarrow> dictionary \<Rightarrow> Room \<Rightarrow> bool" where
  "room_ok uc d r \<longleftrightarrow> players_ok uc d r \<and> order_ok r \<and>
    (r_state r = Lobby \<longrightarrow> r_letters r = []) \<and>
    (r_settleStatus r \<noteq> Not_settled \<longrightarrow> r_state r = Over)"

lemma room_ok_no_nil: "room_ok uc d r \<Longrightarrow> no_nil_player r"
  by (auto simp: room_ok_def order_ok_def no_nil_player_def list_all_iff map_of_eq_None_iff)

lemma room_ok_length:
  assumes "room_ok uc d r"
  shows "length (r_players r) = card (set (r_order r))"
proof -
  have "distinct (map fst (r_players r))" "set (r_order r) = set (map fst (r_players r))"
    using assms by (simp_all add: room_ok_def players_ok_def order_ok_def map_wf_def)
  then show ?thesis by (metis distinct_card length_map)
qed

text \<open>A player who is not there yet, or the late host, goes to the end of the order.\<close>

lemma remove1_join:
  assumes "distinct (remove1 h xs)" "card (set xs) < n" "i \<notin> set xs"
  shows "distinct (remove1 h (xs @ [i])) \<and> length (remove1 h (xs @ [i])) \<le> n"
proof -
  have "length (remove1 h xs) = card (set (remove1 h xs))" using assms(1) by (simp add: distinct_card)
  also have "\<dots> \<le> card (set xs)" by (intro card_mono) (simp_all add: set_remove1_subset)
  finally have "length (remove1 h xs) < n" using assms(2) by simp
  moreover have "i \<notin> set (remove1 h xs)" using assms(3) set_remove1_subset [of h xs] by blast
  moreover have "remove1 h xs = xs" if "h \<notin> set xs" using that by (rule remove1_idem)
  ultimately show ?thesis using assms(1) by (cases "h \<in> set xs") (auto simp: remove1_append)
qed

lemma remove1_host:
  assumes "distinct xs" "length xs \<le> n"
  shows "distinct (remove1 h (xs @ [h])) \<and> length (remove1 h (xs @ [h])) \<le> n"
proof (cases "h \<in> set xs")
  case True
  then have "0 < length xs" by (cases xs) simp_all
  then show ?thesis using assms True by (simp add: remove1_append length_remove1)
qed (use assms in \<open>simp add: remove1_append\<close>)

lemma room_ok_new: "room_ok uc d (new_room m code pid public stake)"
  by (simp add: room_ok_def players_ok_def order_ok_def tidy_def new_room_def)

lemma fst_set_update: "fst ` set (AList.update k v m) = insert k (fst ` set m)"
  by (simp add: fst_entries dom_def) auto

lemma set_update_subset: "set (AList.update k v m) \<subseteq> insert (k, v) (set m)"
  by (induction m) auto

lemma addPlayer_simps:
  "r_players (addPlayer i name r) = AList.update i \<lparr>p_id = i,
    p_name = (if name = [] then shortID i else name), p_score = 0, p_words = 0, p_found = []\<rparr> (r_players r)"
  "r_order (addPlayer i name r) = r_order r @ [i]" "r_letters (addPlayer i name r) = r_letters r"
  "r_state (addPlayer i name r) = r_state r" "r_settleStatus (addPlayer i name r) = r_settleStatus r"
  "r_host (addPlayer i name r) = r_host r" "r_stake (addPlayer i name r) = r_stake r"
  "r_code (addPlayer i name r) = r_code r" "r_endsAt (addPlayer i name r) = r_endsAt r"
  "r_roundID (addPlayer i name r) = r_roundID r"
  by (simp_all add: addPlayer_def Let_def)

lemma room_ok_added:
  assumes "room_ok uc d r" "order_ok (addPlayer i name r)"
  shows "room_ok uc d (addPlayer i name r)"
proof -
  let ?p = "\<lparr>p_id = i, p_name = (if name = [] then shortID i else name), p_score = 0, p_words = 0,
    p_found = []\<rparr>"
  have "player_ok uc d (r_letters r) i ?p" by (simp add: player_ok_def)
  moreover have "\<forall>(j, p) \<in> set (r_players r). player_ok uc d (r_letters r) j p" "map_wf (r_players r)"
    using assms(1) by (simp_all add: room_ok_def players_ok_def)
  ultimately have "players_ok uc d (addPlayer i name r)"
    using set_update_subset [of i ?p "r_players r"] unfolding players_ok_def addPlayer_simps by blast
  then show ?thesis using assms by (simp add: room_ok_def addPlayer_simps)
qed

lemma tidy_addPlayer:
  assumes "room_ok uc d r" "map_of (r_players r) i = None" "length (r_players r) < MaxPlayers" "tidy r"
  shows "tidy (addPlayer i name r)"
proof -
  have "i \<notin> set (r_order r)" using assms(1,2) by (simp add: room_ok_def order_ok_def map_of_eq_None_iff)
  moreover have "length (r_order r) = length (r_players r)"
    using room_ok_length [OF assms(1)] assms(4) by (simp add: tidy_def distinct_card)
  ultimately show ?thesis using assms(3,4) by (simp add: tidy_def addPlayer_simps)
qed

lemma room_ok_addPlayer:
  assumes "room_ok uc d r" "map_of (r_players r) i = None" "length (r_players r) < MaxPlayers"
  shows "room_ok uc d (addPlayer i name r)"
proof (rule room_ok_added [OF assms(1)])
  have "i \<notin> set (r_order r)" using assms(1,2) by (simp add: room_ok_def order_ok_def map_of_eq_None_iff)
  then have "distinct (remove1 (r_host r) (r_order r @ [i])) \<and>
      length (remove1 (r_host r) (r_order r @ [i])) \<le> MaxPlayers"
    using assms(1,3) room_ok_length [OF assms(1)] by (intro remove1_join) (simp_all add: room_ok_def order_ok_def)
  then show "order_ok (addPlayer i name r)"
    using assms(1) tidy_addPlayer [OF assms]
    by (auto simp: order_ok_def room_ok_def addPlayer_simps fst_set_update)
qed

lemma room_ok_host:
  assumes "room_ok uc d r" "r_stake r = None" "tidy r"
  shows "room_ok uc d (addPlayer (r_host r) name r)"
  using assms remove1_host [of "r_order r" MaxPlayers "r_host r"]
  by (intro room_ok_added) (auto simp: order_ok_def room_ok_def tidy_def addPlayer_simps fst_set_update)

lemma maybeFinish_simps [simp]:
  "r_players (maybeFinishLocked now r) = r_players r" "r_order (maybeFinishLocked now r) = r_order r"
  "r_letters (maybeFinishLocked now r) = r_letters r" "r_code (maybeFinishLocked now r) = r_code r"
  "r_stake (maybeFinishLocked now r) = r_stake r" "r_roundID (maybeFinishLocked now r) = r_roundID r"
  "r_settleStatus (maybeFinishLocked now r) = r_settleStatus r"
  "r_host (maybeFinishLocked now r) = r_host r" "r_endsAt (maybeFinishLocked now r) = r_endsAt r"
  "r_state (maybeFinishLocked now r) = Lobby \<longleftrightarrow> r_state r = Lobby"
  by (simp_all add: maybeFinishLocked_def)

lemma room_ok_maybeFinish: "room_ok uc d r \<Longrightarrow> room_ok uc d (maybeFinishLocked now r)"
  by (auto simp: room_ok_def players_ok_def order_ok_def tidy_def) (auto simp: maybeFinishLocked_def)

lemma room_ok_round [simp]: "room_ok uc d (r\<lparr>r_roundID := x, r_stakeEndsAt := t\<rparr>) = room_ok uc d r"
  by (simp add: room_ok_def players_ok_def order_ok_def tidy_def)

lemma room_ok_settle:
  "room_ok uc d r \<Longrightarrow> r_state r = Over \<Longrightarrow> room_ok uc d (r\<lparr>r_settleStatus := st\<rparr>)"
  "room_ok uc d r \<Longrightarrow> r_state r = Over \<Longrightarrow> room_ok uc d (r\<lparr>r_settleStatus := st, r_settleErr := e\<rparr>)"
  by (simp_all add: room_ok_def players_ok_def order_ok_def tidy_def)

text \<open>Before the race nobody has found anything, so the rack can be dealt.\<close>

lemma player_ok_deal:
  assumes "dict_ok d" "player_ok uc d [] i p"
  shows "player_ok uc d letters i p"
proof -
  have "p_found p = []"
    using assms FindWords_empty_rack [OF assms(1), of uc]
    by (cases "p_found p") (auto simp: player_ok_def)
  then show ?thesis using assms(2) by (simp add: player_ok_def)
qed

lemma room_ok_deal:
  assumes "dict_ok d" "room_ok uc d r" "r_state r = Lobby"
  shows "room_ok uc d (r\<lparr>r_letters := letters, r_state := Racing, r_endsAt := t\<rparr>)"
proof -
  have l: "r_letters r = []" "r_settleStatus r = Not_settled" and p: "players_ok uc d r"
    using assms(2,3) unfolding room_ok_def by auto
  have "\<forall>(i, p) \<in> set (r_players r). player_ok uc d letters i p"
    using p l(1) player_ok_deal [OF assms(1)] unfolding players_ok_def by (metis (no_types, lifting) case_prodE case_prodI2 case_prod_conv)
  then show ?thesis
    using assms(2) p l(2) by (simp add: room_ok_def players_ok_def order_ok_def tidy_def)
qed

section \<open>A found word\<close>

lemma Score_one:
  assumes "case_table uc" "dict_ok d" "w = norm_word uc word"
  shows "accepted (Score uc d letters [w]) =
    (if w \<in> set (FindWords uc d letters)
     then [\<lparr>ws_word = w, ws_points = WordPoints (int (length w))\<rparr>] else [])"
proof -
  have w: "norm_word uc w = w" using norm_word_idem [OF assms(1)] assms(3) by simp
  have "w \<noteq> []" if "w \<in> set (FindWords uc d letters)"
    using lx.find_word_length [OF assms(2) that] by (auto simp: MinWordLen_def)
  moreover have "accepted_of uc d letters [w] = (if verdict uc d letters w = None then [w] else [])"
    using accepted_of_snoc [of uc d letters "[]" w] by (simp add: accepted_of_def [of _ _ _ "[]"])
  moreover have "entries_of uc [w] = (if w = [] then [] else [w])" by (simp add: entries_of_def w)
  ultimately show ?thesis
    by (auto simp: Score_eq score_state_def verdict_None [OF assms(2)] accepted_of_def [of _ _ _ "[]"])
qed

lemma update_absent: "map_of m k = None \<Longrightarrow> AList.update k v m = m @ [(k, v)]"
  by (induction m) (auto split: if_splits)

definition find_word :: "string \<Rightarrow> player \<Rightarrow> player" where
  "find_word w p = p\<lparr>p_found := AList.update w True (p_found p),
     p_score := p_score p + WordPoints (int (length w)), p_words := p_words p + 1\<rparr>"

lemma player_ok_found: "player_ok uc d letters i p \<Longrightarrow> map_of (p_found p) w = Some b \<Longrightarrow> b"
  using map_of_SomeD by (fastforce simp: player_ok_def)

lemma player_ok_find_word:
  assumes p: "player_ok uc d letters i p" and w: "map_of (p_found p) w \<noteq> Some True"
    "w \<in> set (FindWords uc d letters)"
  shows "player_ok uc d letters i (find_word w p)" "set (p_found p) \<subseteq> set (p_found (find_word w p))"
proof -
  have n: "map_of (p_found p) w = None" using player_ok_found [OF p, of w] w(1) by (metis (full_types) not_None_eq)
  then have u: "AList.update w True (p_found p) = p_found p @ [(w, True)]" by (rule update_absent)
  have "map_wf (AList.update w True (p_found p))"
    using p by (intro map_wf_update) (simp add: player_ok_def)
  then show "player_ok uc d letters i (find_word w p)"
    using p w(2) by (auto simp: player_ok_def find_word_def u)
  show "set (p_found p) \<subseteq> set (p_found (find_word w p))" by (auto simp: find_word_def u)
qed

lemma room_ok_player:
  assumes "room_ok uc d r" "map_of (r_players r) i = Some p" "player_ok uc d (r_letters r) i p'"
  shows "room_ok uc d (r\<lparr>r_players := AList.update i p' (r_players r)\<rparr>)"
proof -
  let ?r = "r\<lparr>r_players := AList.update i p' (r_players r)\<rparr>"
  have ps: "map_wf (r_players r)" "\<forall>(j, p) \<in> set (r_players r). player_ok uc d (r_letters r) j p"
    using assms(1) by (simp_all add: room_ok_def players_ok_def)
  then have "players_ok uc d ?r"
    using set_update_subset [of i p' "r_players r"] assms(3) unfolding players_ok_def by auto
  moreover have "i \<in> fst ` set (r_players r)" using assms(2) by (force dest: map_of_SomeD)
  then have "order_ok ?r"
    using assms(1) by (simp add: room_ok_def order_ok_def tidy_def fst_set_update insert_absorb)
  ultimately show ?thesis using assms(1) by (simp add: room_ok_def)
qed

section \<open>Progress of a room\<close>

fun state_rank :: "room_state \<Rightarrow> nat" where
  "state_rank Lobby = 0" | "state_rank Racing = 1" | "state_rank Over = 2"

fun settle_rank :: "settle_status \<Rightarrow> nat" where
  "settle_rank Not_settled = 0" | "settle_rank Pending = 1" | "settle_rank _ = 2"

text \<open>The states of a race are in a line; those of a settlement end in one of two ways.\<close>

instantiation room_state :: linorder
begin

definition less_eq_room_state :: "room_state \<Rightarrow> room_state \<Rightarrow> bool" where
  "less_eq_room_state s s' \<longleftrightarrow> state_rank s \<le> state_rank s'"

definition less_room_state :: "room_state \<Rightarrow> room_state \<Rightarrow> bool" where
  "less_room_state s s' \<longleftrightarrow> state_rank s < state_rank s'"

instance
proof
  fix s s' :: room_state
  show "s \<le> s' \<Longrightarrow> s' \<le> s \<Longrightarrow> s = s'"
    by (cases s; cases s') (simp_all add: less_eq_room_state_def)
qed (auto simp: less_eq_room_state_def less_room_state_def)

end

instantiation settle_status :: order
begin

definition less_eq_settle_status :: "settle_status \<Rightarrow> settle_status \<Rightarrow> bool" where
  "less_eq_settle_status s s' \<longleftrightarrow> s = s' \<or> settle_rank s < settle_rank s'"

definition less_settle_status :: "settle_status \<Rightarrow> settle_status \<Rightarrow> bool" where
  "less_settle_status s s' \<longleftrightarrow> settle_rank s < settle_rank s'"

instance
  by standard (auto simp: less_eq_settle_status_def less_settle_status_def)

end

text \<open>
  Nobody leaves. Those of whom \<open>K\<close> holds keep their words and points: all but the host of a free room,
  whose late entry replaces an earlier one.
\<close>

definition players_le :: "(string \<Rightarrow> bool) \<Rightarrow> (string \<times> player) list \<Rightarrow> (string \<times> player) list \<Rightarrow> bool" where
  "players_le K ps ps' \<longleftrightarrow> (\<forall>i p. map_of ps i = Some p \<longrightarrow> (\<exists>p'. map_of ps' i = Some p' \<and>
    (K i \<longrightarrow> set (p_found p) \<subseteq> set (p_found p') \<and> p_score p \<le> p_score p' \<and> p_name p' = p_name p)))"

definition steady :: "Room \<Rightarrow> string \<Rightarrow> bool" where
  "steady r i \<longleftrightarrow> r_stake r \<noteq> None \<or> i \<noteq> r_host r"

definition room_le :: "Room \<Rightarrow> Room \<Rightarrow> bool" where
  "room_le r r' \<longleftrightarrow> r_code r' = r_code r \<and> r_host r' = r_host r \<and> r_stake r' = r_stake r \<and>
    r_state r \<le> r_state r' \<and>
    (r_state r \<noteq> Lobby \<longrightarrow> r_letters r' = r_letters r \<and> r_endsAt r' = r_endsAt r) \<and>
    r_settleStatus r \<le> r_settleStatus r' \<and>
    players_le (steady r) (r_players r) (r_players r') \<and> (\<exists>new. r_order r' = r_order r @ new)"

lemma state_order [simp]: "Lobby \<le> s" "s \<le> Over" "s \<le> Lobby \<longleftrightarrow> s = Lobby" "Racing \<le> s \<longleftrightarrow> s \<noteq> Lobby"
  by (cases s; simp add: less_eq_room_state_def)+

lemma settle_order [simp]: "Not_settled \<le> st" "st \<le> Not_settled \<longleftrightarrow> st = Not_settled"
  "Pending \<le> st \<longleftrightarrow> st \<noteq> Not_settled"
  by (cases st; simp add: less_eq_settle_status_def)+

lemma players_le_refl [simp]: "players_le K ps ps"
  by (simp add: players_le_def)

lemma players_le_trans:
  assumes "players_le K a b" "players_le K b c"
  shows "players_le K a c"
  unfolding players_le_def
proof (intro allI impI)
  fix i p assume "map_of a i = Some p"
  then obtain p1 where p1: "map_of b i = Some p1" "K i \<longrightarrow> set (p_found p) \<subseteq> set (p_found p1) \<and>
    p_score p \<le> p_score p1 \<and> p_name p1 = p_name p"
    using assms(1) unfolding players_le_def by blast
  then obtain p2 where "map_of c i = Some p2" "K i \<longrightarrow> set (p_found p1) \<subseteq> set (p_found p2) \<and>
    p_score p1 \<le> p_score p2 \<and> p_name p2 = p_name p1"
    using assms(2) unfolding players_le_def by blast
  with p1 show "\<exists>p'. map_of c i = Some p' \<and> (K i \<longrightarrow> set (p_found p) \<subseteq> set (p_found p') \<and>
      p_score p \<le> p_score p' \<and> p_name p' = p_name p)" by auto
qed

lemma room_le_refl [simp]: "room_le r r"
  by (simp add: room_le_def)

lemma room_le_trans:
  assumes "room_le a b" "room_le b c"
  shows "room_le a c"
proof -
  have "r_state b \<noteq> Lobby" if "r_state a \<noteq> Lobby"
    using assms(1) that unfolding room_le_def by auto
  moreover have "steady b = steady a" using assms(1) by (simp add: room_le_def steady_def fun_eq_iff)
  ultimately show ?thesis using assms
    unfolding room_le_def
    by (metis (no_types, lifting) append_assoc order_trans players_le_trans)
qed

lemma room_le_maybeFinish: "room_le r (maybeFinishLocked now r)"
  by (simp add: room_le_def) (simp add: maybeFinishLocked_def)

lemma room_le_addPlayer: "map_of (r_players r) i = None \<Longrightarrow> room_le r (addPlayer i name r)"
  by (auto simp: room_le_def addPlayer_simps players_le_def)

lemma room_le_host: "r_stake r = None \<Longrightarrow> room_le r (addPlayer (r_host r) name r)"
  by (auto simp: room_le_def addPlayer_simps players_le_def steady_def)

lemma room_le_deal:
  "r_state r = Lobby \<Longrightarrow> room_le r (r\<lparr>r_letters := letters, r_state := Racing, r_endsAt := t\<rparr>)"
  by (simp add: room_le_def)

lemma room_le_round: "room_le r (r\<lparr>r_roundID := x, r_stakeEndsAt := t\<rparr>)"
  by (simp add: room_le_def)

lemma room_le_settle:
  "r_settleStatus r \<le> st \<Longrightarrow> room_le r (r\<lparr>r_settleStatus := st\<rparr>)"
  "r_settleStatus r \<le> st \<Longrightarrow> room_le r (r\<lparr>r_settleStatus := st, r_settleErr := e\<rparr>)"
  by (simp_all add: room_le_def)

lemma room_le_find:
  assumes "map_of (r_players r) i = Some p" "set (p_found p) \<subseteq> set (p_found (find_word w p))"
  shows "room_le r (r\<lparr>r_players := AList.update i (find_word w p) (r_players r)\<rparr>)"
proof -
  have "p_score p \<le> p_score (find_word w p)" "p_name (find_word w p) = p_name p"
    by (simp_all add: find_word_def)
  then have "players_le (steady r) (r_players r) (AList.update i (find_word w p) (r_players r))"
    using assms by (auto simp: players_le_def)
  then show ?thesis by (simp add: room_le_def)
qed

section \<open>The invariant of the manager\<close>

definition mgr_ok :: "(nat \<Rightarrow> nat) \<Rightarrow> 'c Manager \<Rightarrow> bool" where
  "mgr_ok uc m \<longleftrightarrow> dict_ok (m_dict m) \<and> map_wf (m_rooms m) \<and>
    (\<forall>r \<in> set (m_heap m). room_ok uc (m_dict m) r) \<and>
    (\<forall>code a. map_of (m_rooms m) code = Some a \<longrightarrow>
      a < length (m_heap m) \<and> r_code (m_heap m ! a) = code) \<and>
    (\<forall>(t, a) \<in> set (m_timers m). a < length (m_heap m) \<and> r_stake (m_heap m ! a) \<noteq> None)"

definition mgr_le :: "'c Manager \<Rightarrow> 'c Manager \<Rightarrow> bool" where
  "mgr_le m m' \<longleftrightarrow> length (m_heap m) \<le> length (m_heap m') \<and> m_dict m' = m_dict m \<and>
    (\<forall>a < length (m_heap m). room_le (m_heap m ! a) (m_heap m' ! a))"

lemma mgr_le_refl [simp]: "mgr_le m m"
  by (simp add: mgr_le_def)

lemma mgr_le_trans: "mgr_le a b \<Longrightarrow> mgr_le b c \<Longrightarrow> mgr_le a c"
  unfolding mgr_le_def by (metis (no_types, lifting) order_trans less_le_trans room_le_trans)

lemma mgr_ok_heap: "mgr_ok uc m \<Longrightarrow> a < length (m_heap m) \<Longrightarrow> room_ok uc (m_dict m) (m_heap m ! a)"
  by (simp add: mgr_ok_def)

lemma mgr_ok_addr: "mgr_ok uc m \<Longrightarrow> map_of (m_rooms m) code = Some a \<Longrightarrow> a < length (m_heap m)"
  by (simp add: mgr_ok_def)

text \<open>An operation is good if it keeps the invariant and only moves rooms forward.\<close>

definition good :: "(nat \<Rightarrow> nat) \<Rightarrow> 'c Manager \<Rightarrow> 'c Manager \<Rightarrow> bool" where
  "good uc m m' \<longleftrightarrow> mgr_ok uc m' \<and> mgr_le m m'"

lemma good_trans: "good uc a b \<Longrightarrow> (mgr_ok uc b \<Longrightarrow> good uc b c) \<Longrightarrow> good uc a c"
  unfolding good_def using mgr_le_trans by blast

lemma good_refl: "mgr_ok uc m \<Longrightarrow> good uc m m"
  by (simp add: good_def)

lemma good_world: "mgr_ok uc m \<Longrightarrow> good uc m (m\<lparr>m_world := w\<rparr>)"
  by (simp add: good_def mgr_ok_def mgr_le_def)

lemma good_set_room:
  assumes "mgr_ok uc m" "a < length (m_heap m)" "room_ok uc (m_dict m) r" "room_le (m_heap m ! a) r"
  shows "good uc m (set_room a r m)"
proof -
  have "r_code r = r_code (m_heap m ! a)" "r_stake r = r_stake (m_heap m ! a)"
    using assms(4) by (simp_all add: room_le_def)
  then have c: "r_code ((m_heap m)[a := r] ! b) = r_code (m_heap m ! b)"
    "r_stake ((m_heap m)[a := r] ! b) = r_stake (m_heap m ! b)" if "b < length (m_heap m)" for b
    using that assms(2) by (simp_all add: nth_list_update)
  have "\<forall>r' \<in> set ((m_heap m)[a := r]). room_ok uc (m_dict m) r'"
    using assms(1,3) set_update_subset_insert [of "m_heap m" a r] by (auto simp: mgr_ok_def)
  then have "mgr_ok uc (set_room a r m)"
    using assms(1) c by (fastforce simp: mgr_ok_def set_room_def)
  moreover have "mgr_le m (set_room a r m)"
    using assms(2,4) by (simp add: mgr_le_def set_room_def nth_list_update)
  ultimately show ?thesis by (simp add: good_def)
qed

section \<open>Every operation is good\<close>

lemma snd_snapshot: "snd (snapshot now viewer a m) = set_room a (maybeFinishLocked now (m_heap m ! a)) m"
  by (simp add: snapshot_def snapshotLocked_def Let_def)

lemma good_maybeFinish:
  "mgr_ok uc m \<Longrightarrow> a < length (m_heap m) \<Longrightarrow>
    good uc m (set_room a (maybeFinishLocked now (m_heap m ! a)) m)"
  by (intro good_set_room room_ok_maybeFinish room_le_maybeFinish mgr_ok_heap)

lemma good_snapshot:
  "mgr_ok uc m \<Longrightarrow> a < length (m_heap m) \<Longrightarrow> good uc m (snd (snapshot now viewer a m))"
  by (simp add: snd_snapshot good_maybeFinish)

lemma set_room_simps [simp]:
  "m_rooms (set_room a r m) = m_rooms m" "m_dict (set_room a r m) = m_dict m"
  "m_timers (set_room a r m) = m_timers m" "m_world (set_room a r m) = m_world m"
  "length (m_heap (set_room a r m)) = length (m_heap m)"
  "a < length (m_heap m) \<Longrightarrow> m_heap (set_room a r m) ! a = r"
  "m_reader (set_room a r m) = m_reader m" "m_writer (set_room a r m) = m_writer m"
  "m_signer (set_room a r m) = m_signer m"
  by (simp_all add: set_room_def)

text \<open>Changing a room and taking a snapshot of it.\<close>

lemma good_set_snapshot:
  assumes "mgr_ok uc m" "a < length (m_heap m)" "room_ok uc (m_dict m) r" "room_le (m_heap m ! a) r"
  shows "good uc m (snd (snapshot now viewer a (set_room a r m)))"
proof (rule good_trans)
  show "good uc m (set_room a r m)" by (rule good_set_room [OF assms])
  show "good uc (set_room a r m) (snd (snapshot now viewer a (set_room a r m)))"
    if "mgr_ok uc (set_room a r m)"
    using assms(2) by (intro good_snapshot that) simp
qed

lemma mgr_ok_code:
  "mgr_ok uc m \<Longrightarrow> map_of (m_rooms m) code = Some a \<Longrightarrow>
    a < length (m_heap m) \<and> r_code (m_heap m ! a) = code"
  unfolding mgr_ok_def by blast

lemma mgr_ok_timer: "mgr_ok uc m \<Longrightarrow> (t, a) \<in> set (m_timers m) \<Longrightarrow>
    a < length (m_heap m) \<and> r_stake (m_heap m ! a) \<noteq> None"
  unfolding mgr_ok_def by blast

lemma good_heap_snoc:
  assumes "mgr_ok uc m" "room_ok uc (m_dict m) r" "r_code r = code" "map_of (m_rooms m) code = None"
  shows "good uc m (m\<lparr>m_rooms := AList.update code (length (m_heap m)) (m_rooms m),
    m_heap := m_heap m @ [r], m_world := w\<rparr>)" (is "good uc m ?m")
proof -
  have "a < length (m_heap ?m) \<and> r_code (m_heap ?m ! a) = c" if "map_of (m_rooms ?m) c = Some a" for c a
    using that assms(3) mgr_ok_code [OF assms(1), of c a]
    by (auto simp: nth_append split: if_splits)
  moreover have "a < length (m_heap ?m) \<and> r_stake (m_heap ?m ! a) \<noteq> None"
    if "(t, a) \<in> set (m_timers ?m)" for t a
    using that mgr_ok_timer [OF assms(1), of t a] by (simp add: nth_append)
  moreover have "dict_ok (m_dict ?m)" "map_wf (m_rooms ?m)" "\<forall>r \<in> set (m_heap ?m). room_ok uc (m_dict ?m) r"
    using assms(1,2) by (simp_all add: mgr_ok_def)
  ultimately have "mgr_ok uc ?m" unfolding mgr_ok_def by blast
  moreover have "mgr_le m ?m" by (simp add: mgr_le_def nth_append)
  ultimately show ?thesis by (simp add: good_def)
qed

lemma freshCode_free:
  assumes "freshCode E rooms ch = Some y"
  shows "map_of rooms (fst y) = None \<and> (\<exists>ch0. randCode E ch0 = y)"
proof (rule freshCode.raw_induct [OF _ assms])
  fix f E rooms ch and y :: "string \<times> 'a"
  assume IH: "\<And>E rooms ch y. f E rooms ch = Some y \<Longrightarrow>
      map_of rooms (fst y) = None \<and> (\<exists>ch0. randCode E ch0 = y)"
    and y: "(case randCode E ch of
       (c, ch) \<Rightarrow> if map_of rooms c = None then Some (c, ch) else f E rooms ch) = Some y"
  obtain c ch1 where c: "randCode E ch = (c, ch1)" by fastforce
  show "map_of rooms (fst y) = None \<and> (\<exists>ch0. randCode E ch0 = y)"
  proof (cases "map_of rooms c")
    case None
    then show ?thesis using y c by auto
  next
    case (Some x)
    then have "f E rooms ch1 = Some y" using y c by simp
    then show ?thesis by (rule IH)
  qed
qed

lemma good_publish:
  assumes "mgr_ok uc m" "create_publish V pid public stake m = Some (a, code, m')"
  shows "good uc m m'" "a < length (m_heap m')" "m_dict m' = m_dict m"
    "m_heap m' ! a = new_room m code pid public stake"
proof -
  obtain w where w: "freshCode (e_eth V) (m_rooms m) (m_world m) = Some (code, w)"
    "a = length (m_heap m)" "m' = m\<lparr>m_rooms := AList.update code a (m_rooms m),
       m_heap := m_heap m @ [new_room m code pid public stake], m_world := w\<rparr>"
    using assms(2) by (auto simp: create_publish_def Let_def split: option.splits)
  have "map_of (m_rooms m) code = None" using freshCode_free [OF w(1)] by simp
  moreover have "r_code (new_room m code pid public stake) = code" by (simp add: new_room_def)
  ultimately show "good uc m m'"
    using good_heap_snoc [OF assms(1) room_ok_new] w(2,3) by simp
  show "a < length (m_heap m')" "m_dict m' = m_dict m" "m_heap m' ! a = new_room m code pid public stake"
    using w(2,3) by simp_all
qed

lemma good_drop: "mgr_ok uc m \<Longrightarrow> good uc m (drop_room code m)"
  by (auto simp: good_def mgr_ok_def mgr_le_def drop_room_def)

lemma create_open_world: "\<exists>w. snd (create_open V now amount m) = m\<lparr>m_world := w\<rparr>"
  by (auto simp: create_open_def Let_def split: option.split prod.split res.split)
    (metis Manager.surjective Manager.update_convs(9))+

lemma good_set_round:
  "mgr_ok uc m \<Longrightarrow> a < length (m_heap m) \<Longrightarrow> good uc m (set_round a rid t m)"
  unfolding set_round_def
  by (intro good_set_room) (simp_all add: mgr_ok_heap room_le_round)

lemma snapshot_eq:
  assumes "mgr_ok uc m" "a < length (m_heap m)"
  shows "snapshot now viewer a m = (Ok (view_of now viewer (maybeFinishLocked now (m_heap m ! a))),
    set_room a (maybeFinishLocked now (m_heap m ! a)) m)"
proof -
  have "room_ok uc (m_dict m) (maybeFinishLocked now (m_heap m ! a))"
    by (rule room_ok_maybeFinish [OF mgr_ok_heap [OF assms]])
  then show ?thesis
    by (simp add: snapshot_def snapshotLocked_def Let_def room_ok_no_nil)
qed

lemma good_host:
  assumes "mgr_ok uc m" "a < length (m_heap m)" "r_stake (m_heap m ! a) = None" "tidy (m_heap m ! a)"
  shows "good uc m (create_host (r_host (m_heap m ! a)) name a m)"
  unfolding create_host_def
  by (rule good_set_room [OF assms(1,2) room_ok_host [OF mgr_ok_heap [OF assms(1,2)] assms(3,4)] room_le_host [OF assms(3)]])

lemma same_world: "\<exists>w. m = m\<lparr>m_world := w\<rparr>"
  by (rule exI [of _ "m_world m"]) simp

lemma verify_stake_world: "\<exists>w. snd (verify_stake V pid r m) = m\<lparr>m_world := w\<rparr>"
  unfolding verify_stake_def
  by (auto simp: same_world split: option.split prod.split res.split)

lemma room_addr_ok: "mgr_ok uc m \<Longrightarrow> room_addr V code m = Some a \<Longrightarrow> a < length (m_heap m)"
  by (simp add: room_addr_def mgr_ok_addr)

lemma good_Join_at:
  assumes "mgr_ok uc m" "a < length (m_heap m)"
  shows "good uc m (snd (Join_at V now a pid name m))"
proof -
  define r where "r = m_heap m ! a"
  obtain x w where v: "verify_stake V pid r m = (x, m\<lparr>m_world := w\<rparr>)"
    using verify_stake_world [of V pid r m] by (metis prod.collapse)
  let ?m = "m\<lparr>m_world := w\<rparr>"
  have gw: "good uc m ?m" by (rule good_world [OF assms(1)])
  have add: "good uc m (snd (snapshot now pid a (set_room a (addPlayer pid name r) ?m)))"
    if n: "map_of (r_players r) pid = None" "length (r_players r) < MaxPlayers"
  proof (rule good_trans [OF gw])
    assume ok: "mgr_ok uc ?m"
    have "room_ok uc (m_dict m) (addPlayer pid name r)"
      using n by (intro room_ok_addPlayer) (simp_all add: r_def mgr_ok_heap [OF assms])
    moreover have "room_le r (addPlayer pid name r)" using n(1) by (rule room_le_addPlayer)
    ultimately show "good uc ?m (snd (snapshot now pid a (set_room a (addPlayer pid name r) ?m)))"
      using assms(2) by (intro good_set_snapshot [OF ok]) (simp_all add: r_def)
  qed
  show ?thesis
    using v gw add good_refl [OF assms(1)] good_snapshot [OF assms]
    by (auto simp: Join_at_def Let_def r_def split: res.splits)
qed

lemma good_timer:
  assumes "mgr_ok uc m" "a < length (m_heap m)" "r_stake (m_heap m ! a) \<noteq> None"
  shows "good uc m (scheduleSettle now a m)"
  using assms by (auto simp: good_def mgr_ok_def mgr_le_def scheduleSettle_def Let_def)

lemma good_Start_at:
  assumes "mgr_ok uc m" "a < length (m_heap m)"
  shows "good uc m (snd (Start_at V now seed a pid m))"
proof -
  define r where "r = m_heap m ! a"
  show ?thesis
  proof (cases "pid \<noteq> r_host r \<or> r_state r \<noteq> Lobby \<or>
      GenerateSolo (e_uc V) (e_rng V) (m_dict m) rackSize seed = None")
    case True
    then show ?thesis
      using good_refl [OF assms(1)] by (auto simp: Start_at_def Let_def r_def)
  next
    case False
    then obtain rk where rk: "GenerateSolo (e_uc V) (e_rng V) (m_dict m) rackSize seed = Some rk"
      and h: "pid = r_host r" "r_state r = Lobby" by auto
    define r' where "r' = r\<lparr>r_letters := rk_letters rk, r_state := Racing,
      r_endsAt := now + wrap64 (r_raceSeconds r * second)\<rparr>"
    have "room_ok uc (m_dict m) r'"
      unfolding r'_def using assms(1) h(2) mgr_ok_heap [OF assms]
      by (intro room_ok_deal) (simp_all add: r_def mgr_ok_def)
    moreover have "room_le r r'" unfolding r'_def by (rule room_le_deal [OF h(2)])
    ultimately have "good uc m (snd (snapshot now pid a (set_room a r' m)))"
      using assms by (intro good_set_snapshot) (simp_all add: r_def)
    then show ?thesis using h rk by (simp add: Start_at_def Let_def r_def [symmetric] r'_def [symmetric])
  qed
qed

lemma snd_submit_done: "snd (submit_done acc pts err now pid a m) = snd (snapshot now pid a m)"
  by (auto simp: submit_done_def split: prod.split res.split)

lemma maybeFinish_idem [simp]: "maybeFinishLocked now (maybeFinishLocked now r) = maybeFinishLocked now r"
  by (simp add: maybeFinishLocked_def)

lemma set_room_set_room [simp]: "set_room a r (set_room a r' m) = set_room a r m"
  by (simp add: set_room_def)

lemma submit_done_eq:
  assumes "mgr_ok uc m" "a < length (m_heap m)"
  shows "submit_done acc pts err now pid a m =
    (Ok \<lparr>sr_accepted = acc, sr_points = pts,
       sr_view = Some (view_of now pid (maybeFinishLocked now (m_heap m ! a))), sr_err = err\<rparr>,
     set_room a (maybeFinishLocked now (m_heap m ! a)) m)"
  by (simp add: submit_done_def snapshot_eq [OF assms])

text \<open>A submission either only looks at the room or adds one word the rack yields.\<close>

lemma Submit_at_cases:
  assumes "mgr_ok uc m" "a < length (m_heap m)" "case_table uc" "e_uc V = uc"
  obtains (refused) r where "r = maybeFinishLocked now (m_heap m ! a)"
    "r_state r \<noteq> Racing \<or> map_of (r_players r) pid = None \<or>
      (\<exists>p. map_of (r_players r) pid = Some p \<and> (map_of (p_found p) (norm_word uc word) = Some True \<or>
        norm_word uc word \<notin> set (FindWords uc (m_dict m) (r_letters r))))"
    "\<exists>rep. fst (Submit_at V now a pid word m) = Ok rep \<and> \<not> sr_accepted rep \<and> sr_points rep = 0"
    "snd (Submit_at V now a pid word m) = set_room a r m"
  | (scored) r p w r' where "r = maybeFinishLocked now (m_heap m ! a)"
    "r_state r = Racing" "map_of (r_players r) pid = Some p" "w = norm_word uc word"
    "map_of (p_found p) w \<noteq> Some True" "w \<in> set (FindWords uc (m_dict m) (r_letters r))"
    "r' = r\<lparr>r_players := AList.update pid (find_word w p) (r_players r)\<rparr>"
    "\<exists>rep. fst (Submit_at V now a pid word m) = Ok rep \<and> sr_accepted rep \<and>
      sr_points rep = WordPoints (int (length w)) \<and> sr_err rep = None"
    "snd (Submit_at V now a pid word m) = set_room a (maybeFinishLocked now r') m"
proof -
  note a = assms(2)
  define r where "r = maybeFinishLocked now (m_heap m ! a)"
  define w where "w = norm_word uc word"
  have ok: "mgr_ok uc (set_room a r m)"
    using good_maybeFinish [OF assms(1) a, of now] by (simp add: good_def r_def)
  have done1: "submit_done acc pts err now pid a (set_room a r m) = (Ok \<lparr>sr_accepted = acc,
      sr_points = pts, sr_view = Some (view_of now pid r), sr_err = err\<rparr>, set_room a r m)" for acc pts err
    using submit_done_eq [OF ok, of a acc pts err now pid] a by (simp add: r_def)
  have rok: "room_ok uc (m_dict m) r" unfolding r_def by (rule room_ok_maybeFinish [OF mgr_ok_heap [OF assms(1) a]])
  have d: "dict_ok (m_dict m)" using assms(1) by (simp add: mgr_ok_def)
  note sub = Submit_at_def Let_def r_def [symmetric] assms(4) w_def [symmetric]
  consider (idle) "r_state r \<noteq> Racing" | (out) "r_state r = Racing" "map_of (r_players r) pid = None"
    | (dup) p where "r_state r = Racing" "map_of (r_players r) pid = Some p" "map_of (p_found p) w = Some True"
    | (bad) p where "r_state r = Racing" "map_of (r_players r) pid = Some p"
      "map_of (p_found p) w \<noteq> Some True" "w \<notin> set (FindWords uc (m_dict m) (r_letters r))"
    | (new) p where "r_state r = Racing" "map_of (r_players r) pid = Some p"
      "map_of (p_found p) w \<noteq> Some True" "w \<in> set (FindWords uc (m_dict m) (r_letters r))"
    by (cases "map_of (r_players r) pid") blast+
  then show thesis
  proof cases
    case idle
    then show thesis by (intro refused [OF r_def]) (simp_all add: sub done1)
  next
    case out
    then show thesis by (intro refused [OF r_def]) (simp_all add: sub)
  next
    case dup
    then show thesis by (intro refused [OF r_def]) (simp_all add: sub done1)
  next
    case bad
    then show thesis
      by (intro refused [OF r_def]) (simp_all add: sub done1 Score_one [OF assms(3) d w_def])
  next
    case new
    define r' where "r' = r\<lparr>r_players := AList.update pid (find_word w p) (r_players r)\<rparr>"
    have p: "player_ok uc (m_dict m) (r_letters r) pid p"
      using rok new(2) map_of_SomeD unfolding room_ok_def players_ok_def by fastforce
    note fw = player_ok_find_word [OF p new(3,4)]
    have "good uc (set_room a r m) (set_room a r' (set_room a r m))"
      unfolding r'_def using a rok new(2) fw
      by (intro good_set_room [OF ok]) (simp_all add: room_ok_player room_le_find)
    then have ok': "mgr_ok uc (set_room a r' m)" by (simp add: good_def)
    have done2: "submit_done acc pts err now pid a (set_room a r' m) = (Ok \<lparr>sr_accepted = acc,
        sr_points = pts, sr_view = Some (view_of now pid (maybeFinishLocked now r')), sr_err = err\<rparr>,
        set_room a (maybeFinishLocked now r') m)" for acc pts err
      using submit_done_eq [OF ok', of a acc pts err now pid] a by simp
    have fold': "p\<lparr>p_found := AList.update w True (p_found p),
        p_score := p_score p + WordPoints (int (length w)), p_words := p_words p + 1\<rparr> = find_word w p"
      by (simp add: find_word_def)
    have "Submit_at V now a pid word m = submit_done True (WordPoints (int (length w))) None now pid a (set_room a r' m)"
      using new by (simp add: sub Score_one [OF assms(3) d w_def] fold' r'_def)
    then show thesis
      by (intro scored [OF r_def new(1,2) w_def new(3,4) r'_def]) (simp_all add: done2)
  qed
qed

lemma good_Submit_at:
  assumes "mgr_ok uc m" "a < length (m_heap m)" "case_table uc" "e_uc V = uc"
  shows "good uc m (snd (Submit_at V now a pid word m))"
proof (cases rule: Submit_at_cases [OF assms, where now = now and pid = pid and word = word, case_names refused scored])
  case (refused r)
  then show ?thesis using good_maybeFinish [OF assms(1,2)] by simp
next
  case (scored r p w r')
  have rok: "room_ok uc (m_dict m) r"
    unfolding scored(1) by (rule room_ok_maybeFinish [OF mgr_ok_heap [OF assms(1,2)]])
  have p: "player_ok uc (m_dict m) (r_letters r) pid p"
    using rok scored(3) map_of_SomeD unfolding room_ok_def players_ok_def by fastforce
  note fw = player_ok_find_word [OF p scored(5,6)]
  have "room_ok uc (m_dict m) r'" unfolding scored(7) by (rule room_ok_player [OF rok scored(3) fw(1)])
  moreover have "room_le r r'" unfolding scored(7) by (rule room_le_find [OF scored(3) fw(2)])
  then have "room_le (m_heap m ! a) r'"
    using room_le_trans [OF room_le_maybeFinish] scored(1) by blast
  ultimately have "good uc m (set_room a (maybeFinishLocked now r') m)"
    by (intro good_set_room [OF assms(1,2)] room_ok_maybeFinish)
      (blast intro: room_le_trans [OF _ room_le_maybeFinish])+
  then show ?thesis using scored(9) by simp
qed

lemma good_settle_begin:
  assumes "mgr_ok uc m" "a < length (m_heap m)"
  shows "good uc m (snd (settle_begin now a m))"
proof -
  define r where "r = maybeFinishLocked now (m_heap m ! a)"
  have r: "room_ok uc (m_dict m) r" "room_le (m_heap m ! a) r"
    by (simp_all add: r_def room_ok_maybeFinish room_le_maybeFinish mgr_ok_heap [OF assms])
  show ?thesis
  proof (cases "r_state r \<noteq> Over \<or> r_settleStatus r \<noteq> Not_settled")
    case True
    then show ?thesis
      using good_set_room [OF assms r] by (simp add: settle_begin_def Let_def r_def [symmetric])
  next
    case False
    then have "room_ok uc (m_dict m) (r\<lparr>r_settleStatus := Pending\<rparr>)"
      "room_le r (r\<lparr>r_settleStatus := Pending\<rparr>)"
      using r(1) by (simp_all add: room_ok_settle room_le_settle)
    then show ?thesis
      using False good_set_room [OF assms _ room_le_trans [OF r(2)]]
      by (simp add: settle_begin_def Let_def r_def [symmetric])
  qed
qed

lemma good_settle_end:
  assumes "mgr_ok uc m" "a < length (m_heap m)" "r_settleStatus (m_heap m ! a) = Pending"
    "st = Settled_ok \<or> st = Settle_failed"
  shows "good uc m (settle_end a st err m)"
proof -
  have r: "room_ok uc (m_dict m) (m_heap m ! a)" by (rule mgr_ok_heap [OF assms(1,2)])
  then have "r_state (m_heap m ! a) = Over" using assms(3) by (simp add: room_ok_def)
  moreover have "r_settleStatus (m_heap m ! a) \<le> st" using assms(3,4) by auto
  ultimately show ?thesis
    using r by (auto simp: settle_end_def Let_def room_ok_settle room_le_settle
        intro!: good_set_room [OF assms(1,2)])
qed

section \<open>Reachable states\<close>

text \<open>
  One section of some request or timer, on a room somebody holds a reference to. A \<open>Create\<close> publishes the
  room; then the round of a staked one is opened or it is dropped, and the host of a free one is added,
  when only joins have filled the room so far (\<open>tidy\<close>). The outside world changes at will.
\<close>

inductive room_step :: "('c, 'r) env \<Rightarrow> 'c Manager \<Rightarrow> 'c Manager \<Rightarrow> bool" for V where
  publish: "create_publish V pid public stake m = Some (a, code, m') \<Longrightarrow> room_step V m m'"
| hosted: "a < length (m_heap m) \<Longrightarrow> r_stake (m_heap m ! a) = None \<Longrightarrow> tidy (m_heap m ! a) \<Longrightarrow>
    room_step V m (create_host (r_host (m_heap m ! a)) name a m)"
| opened: "a < length (m_heap m) \<Longrightarrow> room_step V m (set_round a rid t m)"
| dropped: "room_step V m (drop_room code m)"
| world: "room_step V m (m\<lparr>m_world := w\<rparr>)"
| get: "a < length (m_heap m) \<Longrightarrow> room_step V m (snd (snapshot now viewer a m))"
| join: "a < length (m_heap m) \<Longrightarrow> room_step V m (snd (Join_at V now a pid name m))"
| start: "a < length (m_heap m) \<Longrightarrow> room_step V m (snd (Start_at V now seed a pid m))"
| armed: "a < length (m_heap m) \<Longrightarrow> r_stake (m_heap m ! a) \<noteq> None \<Longrightarrow> room_step V m (scheduleSettle now a m)"
| submit: "a < length (m_heap m) \<Longrightarrow> room_step V m (snd (Submit_at V now a pid word m))"
| settle_begin: "(t, a) \<in> set (m_timers m) \<Longrightarrow> room_step V m (snd (settle_begin now a m))"
| settle_end: "a < length (m_heap m) \<Longrightarrow> r_settleStatus (m_heap m ! a) = Pending \<Longrightarrow>
    st = Settled_ok \<or> st = Settle_failed \<Longrightarrow> room_step V m (settle_end a st err m)"

inductive room_reach :: "('c, 'r) env \<Rightarrow> 'c Manager \<Rightarrow> 'c Manager \<Rightarrow> bool" for V m where
  start_state: "room_reach V m m"
| next_state: "room_reach V m m' \<Longrightarrow> room_step V m' m'' \<Longrightarrow> room_reach V m m''"

lemma good_step:
  assumes "room_step V m m'" "mgr_ok uc m" "case_table uc" "e_uc V = uc"
  shows "good uc m m'"
  using assms(1)
proof cases
  case publish
  then show ?thesis by (intro good_publish(1) [OF assms(2)])
next
  case hosted
  then show ?thesis by (simp only: good_host [OF assms(2)])
next
  case armed
  then show ?thesis using good_timer [OF assms(2)] by blast
next
  case settle_begin
  then show ?thesis using good_settle_begin [OF assms(2)] mgr_ok_timer [OF assms(2)] by blast
next
  case opened
  then show ?thesis by (simp only: good_set_round [OF assms(2)])
next
  case dropped
  then show ?thesis by (simp only: good_drop [OF assms(2)])
next
  case world
  then show ?thesis by (simp only: good_world [OF assms(2)])
next
  case get
  then show ?thesis by (simp only: good_snapshot [OF assms(2)])
next
  case join
  then show ?thesis by (simp only: good_Join_at [OF assms(2)])
next
  case start
  then show ?thesis by (simp only: good_Start_at [OF assms(2)])
next
  case submit
  then show ?thesis by (simp only: good_Submit_at [OF assms(2) _ assms(3,4)])
next
  case settle_end
  then show ?thesis by (simp only: good_settle_end [OF assms(2)])
qed

lemma good_reach:
  assumes "room_reach V m m'" "mgr_ok uc m" "case_table uc" "e_uc V = uc"
  shows "good uc m m'"
  using assms(1)
proof induction
  case start_state
  then show ?case by (rule good_refl [OF assms(2)])
next
  case (next_state m' m'')
  show ?case
    by (rule good_trans [OF next_state.IH]) (rule good_step [OF next_state.hyps(2) _ assms(3,4)])
qed

lemma room_reach_trans: "room_reach V b c \<Longrightarrow> room_reach V a b \<Longrightarrow> room_reach V a c"
  by (induction rule: room_reach.induct) (auto intro: next_state)

lemma room_reach_step: "room_step V m m' \<Longrightarrow> room_reach V m m'"
  by (rule next_state [OF start_state])

text \<open>The operations as they are when nothing comes in between.\<close>

lemma Join_reach: "mgr_ok uc m \<Longrightarrow> room_reach V m (snd (Join V now code pid name m))"
  by (auto simp: Join_def start_state intro!: room_reach_step join dest: room_addr_ok split: option.split)

lemma snd_Start_at_simps [simp]:
  "length (m_heap (snd (Start_at V now seed a pid m))) = length (m_heap m)"
  "a < length (m_heap m) \<Longrightarrow> r_stake (m_heap (snd (Start_at V now seed a pid m)) ! a) = r_stake (m_heap m ! a)"
  by (simp_all add: Start_at_def Let_def snd_snapshot split: option.split)

lemma Start_reach:
  assumes "mgr_ok uc m"
  shows "room_reach V m (snd (Start V now seed code pid m))"
proof (cases "room_addr V code m")
  case (Some a)
  note a = room_addr_ok [OF assms Some]
  let ?m = "snd (Start_at V now seed a pid m)"
  have r: "room_reach V m ?m" by (rule room_reach_step [OF start [OF a]])
  have "room_reach V m (arm now a ?m)"
    using next_state [OF r armed] a r by (simp add: arm_def)
  then show ?thesis using Some r by (cases "Start_at V now seed a pid m") (auto simp: Start_def split: res.split)
qed (simp add: Start_def start_state)

lemma Submit_reach: "mgr_ok uc m \<Longrightarrow> room_reach V m (snd (Submit V now code pid wd m))"
  by (auto simp: Submit_def start_state intro!: room_reach_step submit dest: room_addr_ok split: option.split)

lemma Get_reach: "mgr_ok uc m \<Longrightarrow> room_reach V m (snd (Get V now code you m))"
  by (auto simp: Get_def start_state case_prod_unfold intro!: room_reach_step get dest: room_addr_ok split: option.split)

text \<open>A \<open>Create\<close> left alone publishes, then adds the host, or opens the round or drops the room.\<close>

lemma publish_simps:
  assumes "create_publish V pid public stake m = Some (a, code, m')"
  shows "a < length (m_heap m')" "m_heap m' ! a = new_room m code pid public stake" "a = length (m_heap m)"
    "m_heap m' = m_heap m @ [new_room m code pid public stake]"
  using assms by (auto simp: create_publish_def Let_def split: option.splits)

lemma new_room_simps [simp]:
  "r_host (new_room m code pid public stake) = pid" "r_order (new_room m code pid public stake) = []"
  "r_stake (new_room m code pid public stake) = (if is_staked stake then stake else None)"
  "r_players (new_room m code pid public stake) = []" "r_state (new_room m code pid public stake) = Lobby"
  "r_roundID (new_room m code pid public stake) = None" "r_settleStatus (new_room m code pid public stake) = Not_settled"
  "tidy (new_room m code pid public stake)"
  by (simp_all add: new_room_def tidy_def)

lemma Create_reach:
  assumes "Create V now at pid name public stake m = Some (v, m')"
  shows "room_reach V m m'"
proof (cases "is_staked stake \<and> \<not> (IsHexAddress (e_eth V) pid \<and> stakingEnabled m)")
  case True
  then show ?thesis using assms by (auto simp: Create_def start_state split: if_splits)
next
  case ok: False
  then obtain a code m1 where p: "create_publish V pid public stake m = Some (a, code, m1)"
    using assms by (auto simp: Create_def split: option.splits if_splits)
  note pub = publish_simps [OF p]
  have r1: "room_reach V m m1" by (rule room_reach_step [OF publish [OF p]])
  show ?thesis
  proof (cases "is_staked stake")
    case False
    have h: "room_step V m1 (create_host pid name a m1)"
      using hosted [of a m1 V name] pub(1,2) False by simp
    have "room_reach V m (snd (snapshot at pid a (create_host pid name a m1)))"
      by (rule next_state [OF next_state [OF r1 h] get]) (simp add: create_host_def pub(1))
    then show ?thesis using assms False p by (simp add: Create_def)
  next
    case True
    obtain amount where am: "stake = Some amount" using True by (auto simp: is_staked_def split: option.splits)
    obtain w where w: "snd (create_open V now amount m1) = m1\<lparr>m_world := w\<rparr>"
      using create_open_world [of V now amount m1] by (elim exE)
    let ?m2 = "m1\<lparr>m_world := w\<rparr>"
    have r2: "room_reach V m ?m2" by (rule next_state [OF r1 world])
    have "room_reach V m (drop_room code ?m2)" by (rule next_state [OF r2 dropped])
    moreover have "room_reach V m (snd (snapshot at pid a (set_round a rid t ?m2)))" for rid t
    proof (rule next_state [OF next_state [OF r2 opened] get])
      show "a < length (m_heap ?m2)" using pub(1) by simp
      show "a < length (m_heap (set_round a rid t ?m2))" using pub(1) by (simp add: set_round_def)
    qed
    ultimately show ?thesis
      using assms True ok p r2 w am by (auto simp: Create_def split: res.splits prod.splits) (metis snd_conv)+
  qed
qed

text \<open>Sections in which nobody gets into a room and no round is taken back.\<close>

definition quiet_room :: "Room \<Rightarrow> Room \<Rightarrow> bool" where
  "quiet_room r r' \<longleftrightarrow> r_order r' = r_order r \<and> r_host r' = r_host r \<and> r_stake r' = r_stake r \<and>
    (r_roundID r \<noteq> None \<longrightarrow> r_roundID r' \<noteq> None)"

definition quiet :: "'c Manager \<Rightarrow> 'c Manager \<Rightarrow> bool" where
  "quiet m m' \<longleftrightarrow> list_all2 quiet_room (m_heap m) (m_heap m')"

lemma quiet_same [simp]: "m_heap m' = m_heap m \<Longrightarrow> quiet m m'"
  by (simp add: quiet_def list_all2_same quiet_room_def)

lemma quiet_set_room:
  assumes "a < length (m_heap m) \<Longrightarrow> quiet_room (m_heap m ! a) r"
  shows "quiet m (set_room a r m)"
  unfolding quiet_def list_all2_conv_all_nth
proof (intro conjI allI impI)
  fix i assume i: "i < length (m_heap m)"
  then show "quiet_room (m_heap m ! i) (m_heap (set_room a r m) ! i)"
    using assms by (cases "i = a") (simp_all add: set_room_def, simp add: quiet_room_def)
qed simp

lemma quietD:
  assumes "quiet m m'" "a < length (m_heap m)"
  shows "a < length (m_heap m')" "r_order (m_heap m' ! a) = r_order (m_heap m ! a)"
    "r_host (m_heap m' ! a) = r_host (m_heap m ! a)" "r_stake (m_heap m' ! a) = r_stake (m_heap m ! a)"
    "r_roundID (m_heap m ! a) \<noteq> None \<Longrightarrow> r_roundID (m_heap m' ! a) \<noteq> None" "tidy (m_heap m' ! a) = tidy (m_heap m ! a)"
  using assms by (auto simp: quiet_def list_all2_conv_all_nth quiet_room_def tidy_def)

lemma quiet_length: "quiet m m' \<Longrightarrow> length (m_heap m') = length (m_heap m)"
  by (simp add: quiet_def list_all2_lengthD)

lemma quiet_trans: "quiet m m' \<Longrightarrow> quiet m' m'' \<Longrightarrow> quiet m m''"
  unfolding quiet_def by (rule list_all2_trans) (auto simp: quiet_room_def)

lemma quiet_maybeFinish [simp]: "quiet_room r (maybeFinishLocked now r)"
  by (simp add: quiet_room_def)

lemma quiet_snapshot [simp]: "quiet m (snd (snapshot now viewer a m))"
  by (simp add: snd_snapshot quiet_set_room)

lemma quiet_list_room [simp]: "quiet m (snd (list_room now a m))"
  using quiet_snapshot [of m now "[]" a]
  by (cases "snapshot now [] a m") (auto simp: list_room_def split: res.split)

lemma quiet_settle_begin [simp]: "quiet m (snd (settle_begin now a m))"
  by (auto simp: settle_begin_def Let_def intro!: quiet_set_room) (simp_all add: quiet_room_def)

lemma quiet_settle_end [simp]: "quiet m (settle_end a st err m)"
  by (auto simp: settle_end_def Let_def intro!: quiet_set_room) (simp_all add: quiet_room_def)

lemma quiet_set_round [simp]: "quiet m (set_round a rid t m)"
  unfolding set_round_def by (rule quiet_set_room) (simp add: quiet_room_def)

lemma quiet_same_heaps [simp]:
  "quiet m (drop_room code m)" "quiet m (scheduleSettle now a m)" "quiet m (arm now a m)"
  "quiet m (snd (create_open V now amount m))"
proof -
  show "quiet m (snd (create_open V now amount m))"
    using create_open_world [of V now amount m] by (auto intro: quiet_same)
qed (simp_all add: drop_room_def scheduleSettle_def arm_def Let_def)

lemma quiet_Start_at [simp]: "quiet m (snd (Start_at V now seed a pid m))"
  by (auto simp: Start_at_def Let_def snd_snapshot intro!: quiet_set_room split: option.split)
    (simp add: quiet_room_def)

lemma quiet_Submit_at [simp]: "quiet m (snd (Submit_at V now a pid wd m))"
proof -
  define r where "r = maybeFinishLocked now (m_heap m ! a)"
  have q1: "quiet m (set_room a r m)" unfolding r_def by (rule quiet_set_room) simp
  note q2 = quiet_trans [OF q1 quiet_snapshot]
  have "quiet (set_room a r m) (set_room a (r\<lparr>r_players := ps\<rparr>) (set_room a r m))" for ps
    by (rule quiet_set_room) (simp add: quiet_room_def)
  then have q3: "quiet m (snd (snapshot now pid a (set_room a (r\<lparr>r_players := ps\<rparr>) (set_room a r m))))" for ps
    by (rule quiet_trans [OF quiet_trans [OF q1] quiet_snapshot])
  show ?thesis
    using q1 q2 q3 by (simp add: Submit_at_def Let_def snd_submit_done r_def [symmetric] split: option.split list.split)
qed

text \<open>Joins change one room.\<close>

lemma Join_at_other:
  "length (m_heap (snd (Join_at V now a pid name m))) = length (m_heap m)"
  "b \<noteq> a \<Longrightarrow> m_heap (snd (Join_at V now a pid name m)) ! b = m_heap m ! b"
proof -
  have w: "m_heap m1 = m_heap m" if "verify_stake V pid r m = (x, m1)" for x r m1
    using verify_stake_world [of V pid r m] that by auto
  show "length (m_heap (snd (Join_at V now a pid name m))) = length (m_heap m)"
    "b \<noteq> a \<Longrightarrow> m_heap (snd (Join_at V now a pid name m)) ! b = m_heap m ! b"
    by (auto simp: Join_at_def Let_def snd_snapshot set_room_def dest: w split: prod.split res.split)
qed

lemma Join_at_room:
  assumes "mgr_ok uc m" "a < length (m_heap m)" "r = m_heap m ! a" "r' = m_heap (snd (Join_at V now a pid name m)) ! a"
  obtains (same) "quiet_room r r'"
  | (added) "r_order r' = r_order r @ [pid]" "r_host r' = r_host r" "r_stake r' = r_stake r"
      "r_roundID r' = r_roundID r" "r_state r = Lobby" "map_of (r_players r) pid = None"
      "length (r_players r) < MaxPlayers" "\<exists>m1. verify_stake V pid r m = (Ok (), m1)" "tidy r \<Longrightarrow> tidy r'"
proof -
  obtain x m1 where v: "verify_stake V pid r m = (x, m1)" by fastforce
  have w: "m_heap m1 = m_heap m" using verify_stake_world [of V pid r m] v by auto
  consider (in_it) "map_of (r_players r) pid \<noteq> None" | (no) "map_of (r_players r) pid = None" "r' = r"
    | (add) "map_of (r_players r) pid = None" "r_state r = Lobby" "length (r_players r) < MaxPlayers" "x = Ok ()"
    using v w assms(3,4) by (cases x) (auto simp: Join_at_def Let_def split: if_splits)
  then show thesis
  proof cases
    case in_it
    then have "r' = maybeFinishLocked now r"
      unfolding assms(4) using assms(2,3) by (simp add: Join_at_def Let_def snd_snapshot)
    then show thesis using same by simp
  next
    case no
    then show thesis using same by (simp add: quiet_room_def)
  next
    case add
    then have r': "r' = maybeFinishLocked now (addPlayer pid name r)"
      unfolding assms(4) using assms(2,3) v w by (simp add: Join_at_def Let_def snd_snapshot)
    have "room_ok uc (m_dict m) r" unfolding assms(3) by (rule mgr_ok_heap [OF assms(1,2)])
    from tidy_addPlayer [OF this add(1,3)] have "tidy r \<Longrightarrow> tidy r'" by (simp add: r' tidy_def)
    then show thesis using add v by (intro added) (simp_all add: r' addPlayer_simps)
  qed
qed

lemma mgr_ok_New: "dict_ok d \<Longrightarrow> mgr_ok uc (EnableStaking w r sg (NewManager rs d c))"
  by (simp add: mgr_ok_def EnableStaking_def NewManager_def)

end
