(* ===== verification/Room_Properties.thy ===== *)
theory Room_Properties
  imports Room_Invariant
begin

text \<open>
  The properties of the rooms: the invariant and the progress of every reachable room, what a
  submission and a join do, the winner, the payout and the single settlement, and two limits of
  the code: a staked race started late is never settled, and no code is found once all are taken.
\<close>

section \<open>Helpers\<close>

text \<open>A fresh manager with the word list and the on-chain pieces installed.\<close>

definition room_initial :: "('c, 'r) env \<Rightarrow> string \<Rightarrow> string \<Rightarrow> Writer option \<Rightarrow> Client option \<Rightarrow>
    Signer option \<Rightarrow> 'c \<Rightarrow> 'c Manager" where
  "room_initial V RACE_SECONDS text w rd sg c =
    EnableStaking w rd sg (NewManager RACE_SECONDS (New (e_uc V) text) c)"

lemma reachable_ok:
  assumes "case_table (e_uc V)" "room_reach V (room_initial V rs text w rd sg c) m"
  shows "mgr_ok (e_uc V) m" "m_dict m = New (e_uc V) text"
proof -
  have "mgr_ok (e_uc V) (room_initial V rs text w rd sg c)"
    unfolding room_initial_def by (rule mgr_ok_New [OF dict_ok_New])
  from good_reach [OF assms(2) this assms(1) refl]
  show "mgr_ok (e_uc V) m" "m_dict m = New (e_uc V) text"
    by (simp_all add: good_def mgr_le_def room_initial_def EnableStaking_def NewManager_def)
qed

lemma wrap64_id: "- (2 ^ 63) \<le> x \<Longrightarrow> x < 2 ^ 63 \<Longrightarrow> wrap64 x = x"
  by (simp add: wrap64_def sint_sbintrunc' signed_take_bit_int_eq_self)

lemma room_ok_player_of:
  "room_ok uc d r \<Longrightarrow> map_of (r_players r) i = Some p \<Longrightarrow> player_ok uc d (r_letters r) i p"
  using map_of_SomeD unfolding room_ok_def players_ok_def by fastforce

lemma player_ok_score:
  assumes "player_ok uc d letters i p"
  shows "distinct (map fst (p_found p))" "set (map fst (p_found p)) \<subseteq> set (FindWords uc d letters)"
    "p_score p = (\<Sum>w \<leftarrow> map fst (p_found p). WordPoints (int (length w)))"
    "p_words p = int (length (map fst (p_found p)))"
  using assms by (auto simp: player_ok_def map_wf_def comp_def split_def)

text \<open>The timer of a staked race, and a race started by its host.\<close>

lemma scheduleSettle_at:
  assumes "\<bar>r_stakeEndsAt (m_heap m ! a) - now\<bar> < 2 ^ 62"
  shows "scheduleSettle now a m =
    m\<lparr>m_timers := m_timers m @ [(max now (r_stakeEndsAt (m_heap m ! a) + 2 * second), a)]\<rparr>"
proof -
  let ?e = "r_stakeEndsAt (m_heap m ! a)"
  have u: "until now ?e + 2 * second = ?e + 2 * second - now"
    using assms by (simp add: until_def abs_if split: if_splits)
  have "wrap64 (until now ?e + 2 * second) = ?e + 2 * second - now"
    unfolding u using assms by (intro wrap64_id) (simp_all add: second_def abs_if split: if_splits)
  then show ?thesis unfolding scheduleSettle_def Let_def by (simp add: max_def)
qed

lemma Start_deals:
  assumes "mgr_ok uc m" "room_addr V code m = Some a" "r = m_heap m ! a" "r_host r = pid" "r_state r = Lobby"
    "GenerateSolo (e_uc V) (e_rng V) (m_dict m) rackSize seed = Some rk"
    "r' = r\<lparr>r_letters := rk_letters rk, r_state := Racing, r_endsAt := now + wrap64 (r_raceSeconds r * second)\<rparr>"
    "maybeFinishLocked now r' = r'"
  shows "Start V now seed code pid m = (Ok (view_of now pid r'),
    if r_stake r \<noteq> None then scheduleSettle now a (set_room a r' m) else set_room a r' m)"
proof -
  have a: "a < length (m_heap m)" by (rule room_addr_ok [OF assms(1,2)])
  have "room_ok uc (m_dict m) r'"
    unfolding assms(7) by (rule room_ok_deal [OF _ _ assms(5)]) (use assms(1,3) a in \<open>simp_all add: mgr_ok_def\<close>)
  then have "no_nil_player r'" by (rule room_ok_no_nil)
  then have "snapshot now pid a (set_room a r' m) = (Ok (view_of now pid r'), set_room a r' m)"
    using a assms(8) by (simp add: snapshot_def snapshotLocked_def Let_def)
  note sn = this [unfolded assms(7)]
  show ?thesis
    unfolding assms(7) using sn a
    by (simp add: Start_def Start_at_def arm_def Let_def assms(2,4,5,6) assms(3) [symmetric])
qed

lemma no_panic_List:
  assumes "mgr_ok uc m"
  shows "\<exists>vs. List_rooms now m = Ok vs"
proof -
  have "no_nil_player (m_heap m ! a)" if "(code, a) \<in> set (map_entries (m_rooms m))" for code a
  proof -
    have "map_of (m_rooms m) code = Some a"
      using that assms by (simp add: map_entries_def mgr_ok_def map_wf_def)
    then show ?thesis using room_ok_no_nil [OF mgr_ok_heap [OF assms mgr_ok_addr [OF assms]]] by blast
  qed
  then show ?thesis by (auto simp: List_rooms_def Let_def list_all_iff)
qed

text \<open>The player with the best score who joined first, and the leader the code takes.\<close>

definition best_player :: "Room \<Rightarrow> string \<Rightarrow> bool" where
  "best_player r i \<longleftrightarrow> (\<exists>n < length (r_order r). i = r_order r ! n \<and>
    (\<forall>k < length (r_order r). score_of r (r_order r ! k) \<le> score_of r (r_order r ! n)) \<and>
    (\<forall>k < n. score_of r (r_order r ! k) < score_of r (r_order r ! n)))"

lemma leads_best:
  assumes "leads r i" "tidy r"
  shows "best_player r i"
proof -
  obtain n where n: "n < length (r_order r)" "i = r_order r ! n"
    "\<forall>k < length (r_order r). score_of r (r_order r ! k) \<le> score_of r i"
    "\<forall>k < n. score_of r (r_order r ! k) < score_of r i \<or> r_order r ! k \<in> set (drop n (r_order r))"
    using assms(1) unfolding leads_def by blast
  have "r_order r ! k \<notin> set (drop n (r_order r))" if "k < n" for k
    using assms(2) that n(1) by (auto simp: tidy_def in_set_conv_nth nth_eq_iff_index_eq)
  then show ?thesis using n unfolding best_player_def by metis
qed

text \<open>Only the host of a free room can stand in the order twice.\<close>

lemma dup_remove1:
  "distinct (remove1 h xs) \<Longrightarrow> k < k' \<Longrightarrow> k' < length xs \<Longrightarrow> xs ! k = xs ! k' \<Longrightarrow> xs ! k = h"
proof (induction xs arbitrary: k k')
  case (Cons x xs)
  show ?case
  proof (cases k)
    case 0
    have "x \<in> set xs" using Cons.prems(2-4) 0 by (cases k') auto
    then show ?thesis using Cons.prems(1) 0 by (auto split: if_splits)
  next
    case (Suc j)
    obtain j' where j': "k' = Suc j'" using Cons.prems(2) by (cases k') auto
    show ?thesis
    proof (cases "x = h")
      case True
      then show ?thesis using Cons.prems Suc j' by (simp add: nth_eq_iff_index_eq)
    next
      case False
      then show ?thesis using Cons.IH [of j j'] Cons.prems Suc j' by simp
    qed
  qed
qed simp

lemma stands_twice:
  assumes "room_ok uc d r" "k < n" "n < length (r_order r)" "r_order r ! k \<in> set (drop n (r_order r))"
  shows "r_stake r = None \<and> r_order r ! k = r_host r"
proof -
  obtain j where j: "j < length (r_order r) - n" "r_order r ! k = r_order r ! (n + j)"
    using assms(4) by (auto simp: in_set_conv_nth)
  have o: "distinct (remove1 (r_host r) (r_order r))" "r_stake r \<noteq> None \<longrightarrow> distinct (r_order r)"
    using assms(1) by (simp_all add: room_ok_def order_ok_def tidy_def)
  then have "r_order r ! k = r_host r" using dup_remove1 [of "r_host r" "r_order r" k "n + j"] j assms(2) by simp
  moreover have "\<not> distinct (r_order r)" using j assms(2,3) by (auto simp: nth_eq_iff_index_eq)
  ultimately show ?thesis using o(2) by blast
qed

lemma staked_tidy: "room_ok uc d r \<Longrightarrow> r_stake r \<noteq> None \<Longrightarrow> tidy r"
  by (simp add: room_ok_def order_ok_def)

lemma leaderLocked_leads:
  assumes "room_ok uc d r"
  shows "\<exists>i. leaderLocked r = Ok i \<and> (i \<noteq> [] \<longrightarrow> leads r i)"
  using rankedIDs_hd [of r] room_ok_no_nil [OF assms]
  by (cases "rankedIDsLocked r") (auto simp: leaderLocked_def simp flip: rankedIDs_Nil_iff simp del: rankedIDs_Nil_iff)

lemma leaderLocked_best:
  assumes "room_ok uc d r" "r_stake r \<noteq> None"
  shows "\<exists>i. leaderLocked r = Ok i \<and> (i \<noteq> [] \<longrightarrow> best_player r i)"
  using leaderLocked_leads [OF assms(1)] leads_best [OF _ staked_tidy [OF assms]] by blast

text \<open>The chain part of a settlement leaves the rooms alone; when it succeeds, every call did.\<close>

lemma settle_pay_heap [simp]: "m_heap (snd (settle_pay V i roundID m)) = m_heap m"
  by (simp add: settle_pay_def Let_def split: option.split prod.split res.split)

lemma settle_pay_Settled:
  assumes "settle_pay V i roundID m = (Ok (Settled_ok, err), m')"
  obtains reader signer writer rnd ch sig where "IsHexAddress (e_eth V) i" "i \<noteq> []"
    "m_reader m = Some reader" "m_signer m = Some signer" "m_writer m = Some writer"
    "GetRound (e_eth V) reader roundID (m_world m) = (Ok rnd, ch)"
    "SignSettlement (e_eth V) (e_crypto V) signer roundID [HexToAddress (e_eth V) i]
      [payoutAfterRake (Pot rnd) (RakeBps rnd)] = Ok sig"
    "fst (Settle (e_eth V) writer roundID [HexToAddress (e_eth V) i]
      [payoutAfterRake (Pot rnd) (RakeBps rnd)] sig ch) = Ok ()"
  using assms
  by (auto simp: settle_pay_def Let_def split: if_splits option.splits prod.splits res.splits)

section \<open>Properties\<close>

text \<open>
  C8: in every reachable state every room has at most six players, those of the join order; all stand in it once,
  except that the host of a free room, who is added late, may stand in it twice; a staked room has at
  most five. Each player's score is the sum of the points of the different words
  the player found, every one of them a word the room's rack yields. The late entry of the host, which holds no
  lock, is taken as one step.
\<close>

theorem rooms_consistent:
  assumes "case_table (e_uc V)" "room_reach V (room_initial V rs text w rd sg c) m"
    "r \<in> set (m_heap m)"
  shows "set (r_order r) = dom (map_of (r_players r)) \<and> length (r_order r) \<le> 6 \<and>
    distinct (remove1 (r_host r) (r_order r)) \<and>
    (r_stake r \<noteq> None \<longrightarrow> distinct (r_order r) \<and> length (r_order r) \<le> 5) \<and>
    (\<forall>i p. map_of (r_players r) i = Some p \<longrightarrow> p_id p = i \<and>
      distinct (map fst (p_found p)) \<and>
      set (map fst (p_found p)) \<subseteq> set (FindWords (e_uc V) (New (e_uc V) text) (r_letters r)) \<and>
      p_words p = int (length (map fst (p_found p))) \<and>
      p_score p = (\<Sum>w \<leftarrow> map fst (p_found p). WordPoints (int (length w))))"
proof -
  have r: "room_ok (e_uc V) (New (e_uc V) text) r"
    using reachable_ok [OF assms(1,2)] assms(3) by (simp add: mgr_ok_def)
  then have o: "order_ok r" by (simp add: room_ok_def)
  then have "length (r_order r) \<le> 6"
    by (auto simp: order_ok_def MaxPlayers_def length_remove1 split: if_splits)
  moreover have "p_id p = i \<and> distinct (map fst (p_found p)) \<and>
      set (map fst (p_found p)) \<subseteq> set (FindWords (e_uc V) (New (e_uc V) text) (r_letters r)) \<and>
      p_words p = int (length (map fst (p_found p))) \<and>
      p_score p = (\<Sum>w \<leftarrow> map fst (p_found p). WordPoints (int (length w)))"
    if "map_of (r_players r) i = Some p" for i p
    using room_ok_player_of [OF r that] player_ok_score [OF room_ok_player_of [OF r that]]
    unfolding player_ok_def by blast
  ultimately show ?thesis using o by (simp add: order_ok_def tidy_def MaxPlayers_def fst_entries)
qed

text \<open>
  C28: rooms only move forward: from any reachable state on, a room keeps its code, host and
  stake, its state goes from lobby to racing to done and never back, its letters and the end of the race are
  fixed once it has started, the order in which its players came only grows, and no player leaves
  it or loses a word or points, except the host of a free room, whose late entry starts afresh.
\<close>

theorem rooms_move_forward:
  assumes "case_table (e_uc V)" "room_reach V (room_initial V rs text w rd sg c) m"
    "room_reach V m m'" "a < length (m_heap m)"
  shows "r_code (m_heap m' ! a) = r_code (m_heap m ! a) \<and> r_host (m_heap m' ! a) = r_host (m_heap m ! a) \<and>
    r_stake (m_heap m' ! a) = r_stake (m_heap m ! a) \<and>
    r_state (m_heap m ! a) \<le> r_state (m_heap m' ! a) \<and>
    (r_state (m_heap m ! a) \<noteq> Lobby \<longrightarrow> r_letters (m_heap m' ! a) = r_letters (m_heap m ! a) \<and>
      r_endsAt (m_heap m' ! a) = r_endsAt (m_heap m ! a)) \<and>
    (\<exists>new. r_order (m_heap m' ! a) = r_order (m_heap m ! a) @ new) \<and>
    (\<forall>i p. map_of (r_players (m_heap m ! a)) i = Some p \<longrightarrow>
      (\<exists>p'. map_of (r_players (m_heap m' ! a)) i = Some p' \<and>
        (r_stake (m_heap m ! a) \<noteq> None \<or> i \<noteq> r_host (m_heap m ! a) \<longrightarrow>
          set (p_found p) \<subseteq> set (p_found p') \<and> p_score p \<le> p_score p')))"
proof -
  have "good (e_uc V) m m'"
    by (rule good_reach [OF assms(3) reachable_ok(1) [OF assms(1,2)] assms(1) refl])
  then have "room_le (m_heap m ! a) (m_heap m' ! a)" using assms(4) by (simp add: good_def mgr_le_def)
  then show ?thesis unfolding room_le_def players_le_def steady_def by blast
qed

text \<open>
  C9: a word submitted to a room is accepted exactly when the race is running, the player is in
  the room, has not found the word before, and the word is one the rack yields; it then earns the
  points of its length, and otherwise nothing.
\<close>

theorem Submit_accepts:
  assumes "case_table (e_uc V)" "room_reach V (room_initial V rs text w rd sg c) m"
  shows "\<exists>rep. fst (Submit V now code pid word m) = Ok rep \<and>
    (sr_accepted rep \<longleftrightarrow> (\<exists>a p. room_addr V code m = Some a \<and>
      r_state (maybeFinishLocked now (m_heap m ! a)) = Racing \<and>
      map_of (r_players (m_heap m ! a)) pid = Some p \<and>
      norm_word (e_uc V) word \<notin> fst ` set (p_found p) \<and>
      norm_word (e_uc V) word \<in>
        set (FindWords (e_uc V) (New (e_uc V) text) (r_letters (m_heap m ! a))))) \<and>
    sr_points rep = (if sr_accepted rep then WordPoints (int (length (norm_word (e_uc V) word))) else 0)"
proof -
  note ok = reachable_ok [OF assms]
  have found: "map_of (p_found p) x = Some True \<longleftrightarrow> x \<in> fst ` set (p_found p)"
    if "a < length (m_heap m)" "map_of (r_players (m_heap m ! a)) pid = Some p" for a p x
  proof -
    have "player_ok (e_uc V) (m_dict m) (r_letters (m_heap m ! a)) pid p"
      by (rule room_ok_player_of [OF mgr_ok_heap [OF ok(1) that(1)] that(2)])
    then show ?thesis
      using player_ok_found by (auto simp: fst_entries) (metis (full_types))
  qed
  show ?thesis
  proof (cases "room_addr V code m")
    case None
    then show ?thesis by (simp add: Submit_def)
  next
    case (Some a)
    note a = room_addr_ok [OF ok(1) Some]
    have e: "Submit V now code pid word m = Submit_at V now a pid word m" by (simp add: Submit_def Some)
    show ?thesis
    proof (cases rule: Submit_at_cases [OF ok(1) a assms(1) refl, where now = now and pid = pid and word = word,
        case_names refused scored])
      case (refused r)
      then show ?thesis using found [OF a] ok(2) Some unfolding e by auto
    next
      case (scored r p w r')
      have p: "map_of (r_players (m_heap m ! a)) pid = Some p" using scored(1,3) by simp
      have "norm_word (e_uc V) word \<notin> fst ` set (p_found p)"
        using found [OF a p] scored(4,5) by blast
      moreover have "norm_word (e_uc V) word \<in>
          set (FindWords (e_uc V) (New (e_uc V) text) (r_letters (m_heap m ! a)))"
        using scored(1,4,6) ok(2) by simp
      ultimately show ?thesis using scored p Some unfolding e by auto
    qed
  qed
qed

text \<open>A join that gets a player into a staked room has checked on chain that the player entered its round.\<close>

lemma Join_at_requires_stake:
  assumes "a < length (m_heap m)" "r_stake (m_heap m ! a) \<noteq> None" "i \<notin> set (r_order (m_heap m ! a))"
    "i \<in> set (r_order (m_heap (snd (Join_at V now a pid name m)) ! a))"
  shows "i = pid \<and> r_state (m_heap m ! a) = Lobby \<and> length (r_players (m_heap m ! a)) < 5 \<and>
    IsHexAddress (e_eth V) pid \<and> (\<exists>reader. m_reader m = Some reader \<and>
    fst (HasEntered (e_eth V) reader (r_roundID (m_heap m ! a)) (HexToAddress (e_eth V) pid) (m_world m))
      = Ok True)"
proof -
  obtain x m1 where v: "verify_stake V pid (m_heap m ! a) m = (x, m1)" by fastforce
  have w: "m_heap m1 = m_heap m" using verify_stake_world [of V pid "m_heap m ! a" m] v by auto
  have "x = Ok () \<and> i = pid \<and> r_state (m_heap m ! a) = Lobby \<and> length (r_players (m_heap m ! a)) < 5"
    using assms v w
    by (auto simp: Join_at_def Let_def snd_snapshot addPlayer_simps MaxPlayers_def split: if_splits res.splits)
  then show ?thesis using v assms(2)
    by (auto simp: verify_stake_def split: if_splits option.splits prod.splits res.splits)
qed

text \<open>
  C26: a view of a room always succeeds, never shows the letters before the race, lists the
  players by falling score, and names a winner exactly when the race is over and somebody plays:
  the player with the best score who joined first; only the host of a free room, when listed twice, is
  placed by the second time.
\<close>

theorem view_winner:
  assumes "case_table (e_uc V)" "room_reach V (room_initial V rs text w rd sg c) m"
    "a < length (m_heap m)" "r = maybeFinishLocked now (m_heap m ! a)"
  shows "\<exists>v. fst (snapshot now viewer a m) = Ok v \<and>
    v_letters v = (if r_state r = Lobby then [] else r_letters r) \<and>
    set (map pv_id (v_players v)) = set (r_order r) \<and>
    sorted_wrt (\<lambda>x y. pv_score x \<ge> pv_score y) (v_players v) \<and>
    (if r_state r = Over \<and> r_order r \<noteq> []
     then \<exists>n < length (r_order r). v_winner v = r_order r ! n \<and>
       (\<forall>k < length (r_order r). score_of r (r_order r ! k) \<le> score_of r (r_order r ! n)) \<and>
       (\<forall>k < n. score_of r (r_order r ! k) < score_of r (r_order r ! n) \<or>
         r_stake r = None \<and> r_order r ! k = r_host r \<and> r_host r \<in> set (drop n (r_order r)))
     else v_winner v = [])"
proof -
  note ok = reachable_ok [OF assms(1,2)]
  have rok: "room_ok (e_uc V) (m_dict m) r"
    unfolding assms(4) by (rule room_ok_maybeFinish [OF mgr_ok_heap [OF ok(1) assms(3)]])
  let ?v = "view_of now viewer r"
  have sn: "fst (snapshot now viewer a m) = Ok ?v"
    by (simp add: snapshot_eq [OF ok(1) assms(3)] assms(4))
  have pv: "pv_id (player_view r i) = i" "pv_score (player_view r i) = score_of r i" for i
    by (simp_all add: player_view_def score_of_def split: option.split)
  have "sorted_wrt (\<lambda>x y. \<not> ranks_above r y x) (rankedIDsLocked r)"
    unfolding rankedIDsLocked_def by (rule rnk.sorted_sort_slice)
  then have "sorted_wrt (\<lambda>x y. score_of r x \<ge> score_of r y) (rankedIDsLocked r)"
    by (rule sorted_wrt_mono_rel [rotated]) (auto simp: ranks_above_def split: if_splits)
  then have srt: "sorted_wrt (\<lambda>x y. pv_score x \<ge> pv_score y) (v_players ?v)"
    by (simp add: view_of_def Let_def sorted_wrt_map pv)
  have ids: "set (map pv_id (v_players ?v)) = set (r_order r)"
    by (simp add: view_of_def Let_def comp_def pv)
  have win: "if r_state r = Over \<and> r_order r \<noteq> []
     then \<exists>n < length (r_order r). v_winner ?v = r_order r ! n \<and>
       (\<forall>k < length (r_order r). score_of r (r_order r ! k) \<le> score_of r (r_order r ! n)) \<and>
       (\<forall>k < n. score_of r (r_order r ! k) < score_of r (r_order r ! n) \<or>
         r_stake r = None \<and> r_order r ! k = r_host r \<and> r_host r \<in> set (drop n (r_order r)))
     else v_winner ?v = []"
  proof (cases "r_state r = Over \<and> r_order r \<noteq> []")
    case True
    have "v_winner ?v = hd (rankedIDsLocked r)" using True by (simp add: view_of_def Let_def)
    with rankedIDs_hd True have "leads r (v_winner ?v)" by simp
    then obtain n where n: "n < length (r_order r)" "v_winner ?v = r_order r ! n"
      "\<forall>k < length (r_order r). score_of r (r_order r ! k) \<le> score_of r (v_winner ?v)"
      "\<forall>k < n. score_of r (r_order r ! k) < score_of r (v_winner ?v) \<or> r_order r ! k \<in> set (drop n (r_order r))"
      unfolding leads_def by blast
    have "score_of r (r_order r ! k) < score_of r (r_order r ! n) \<or>
        r_stake r = None \<and> r_order r ! k = r_host r \<and> r_host r \<in> set (drop n (r_order r))" if "k < n" for k
      using n(2,4) that stands_twice [OF rok that n(1)] by metis
    then show ?thesis using n unfolding if_P [OF True] by metis
  qed (auto simp: view_of_def Let_def)
  have let': "v_letters ?v = (if r_state r = Lobby then [] else r_letters r)"
    by (simp add: view_of_def Let_def)
  show ?thesis using sn let' ids srt win by blast
qed

lemma view_ids [simp]: "pv_id ` player_view r ` A = A"
proof -
  have "pv_id (player_view r i) = i" for i by (simp add: player_view_def split: option.split)
  then show ?thesis by (simp add: image_image)
qed

text \<open>
  C27: the list of rooms holds exactly the public rooms in the lobby with a free seat, each once, in
  the order of their codes, with no letters shown.
\<close>

theorem List_shows_open_rooms:
  assumes "case_table (e_uc V)" "room_reach V (room_initial V rs text w rd sg c) m"
  shows "\<exists>vs. List_rooms now m = Ok vs \<and> sorted_wrt (<) (map v_code vs) \<and>
    set (map v_code vs) = {code. \<exists>a. map_of (m_rooms m) code = Some a \<and> r_state (m_heap m ! a) = Lobby \<and>
      r_public (m_heap m ! a) \<and> length (r_players (m_heap m ! a)) < 5} \<and>
    (\<forall>v \<in> set vs. v_letters v = [] \<and> v_public v \<and> card (set (map pv_id (v_players v))) < 5)"
proof -
  note ok = reachable_ok(1) [OF assms]
  obtain vs where vs: "List_rooms now m = Ok vs" using no_panic_List [OF ok] by blast
  define rs where "rs = filter open_room (map (\<lambda>(code, a). m_heap m ! a) (m_rooms m))"
  have srt: "vs = sort_slice code_before (map (view_of now []) rs)"
    using vs by (simp add: List_rooms_def Let_def rs_def map_entries_def split: if_splits)
  have wf: "distinct (map fst (m_rooms m))" using ok by (simp add: mgr_ok_def map_wf_def)
  have code: "r_code (m_heap m ! a) = code" "room_ok (e_uc V) (m_dict m) (m_heap m ! a)"
    "map_of (m_rooms m) code = Some a" if "(code, a) \<in> set (m_rooms m)" for code a
    using that wf mgr_ok_code [OF ok, of code a] mgr_ok_heap [OF ok, of a] by simp_all
  have opn: "open_room (m_heap m ! a) \<longleftrightarrow> r_state (m_heap m ! a) = Lobby \<and>
      r_public (m_heap m ! a) \<and> length (r_players (m_heap m ! a)) < 5"
    if "(code, a) \<in> set (m_rooms m)" for code a
    by (simp add: open_room_def MaxPlayers_def)
  have "map r_code (map (\<lambda>(code, a). m_heap m ! a) (m_rooms m)) = map fst (m_rooms m)"
    using code(1) by auto
  then have "distinct (map r_code rs)" using wf unfolding rs_def by (metis distinct_map_filter)
  moreover have codes: "map v_code vs = sort (map r_code rs)"
    unfolding srt lst.map_key_sort_slice by (simp add: comp_def view_of_def Let_def)
  ultimately have "sorted_wrt (<) (map v_code vs)" by (simp add: strict_sorted_iff)
  moreover have "set (map v_code vs) = {code. \<exists>a. map_of (m_rooms m) code = Some a \<and>
      r_state (m_heap m ! a) = Lobby \<and> r_public (m_heap m ! a) \<and> length (r_players (m_heap m ! a)) < 5}"
  proof -
    have "set (map v_code vs) = {code. \<exists>a. map_of (m_rooms m) code = Some a \<and> open_room (m_heap m ! a)}"
      unfolding codes using code map_of_SomeD by (fastforce simp: rs_def)
    also have "\<dots> = {code. \<exists>a. map_of (m_rooms m) code = Some a \<and> r_state (m_heap m ! a) = Lobby \<and>
        r_public (m_heap m ! a) \<and> length (r_players (m_heap m ! a)) < 5}"
      by (intro Collect_cong ex_cong1 conj_cong refl) (rule opn [OF map_of_SomeD])
    finally show ?thesis .
  qed
  moreover have "r_state r = Lobby \<and> r_public r \<and> card (set (r_order r)) < 5" if r: "r \<in> set rs" for r
  proof -
    obtain c a where "(c, a) \<in> set (m_rooms m)" "r = m_heap m ! a" using r by (auto simp: rs_def)
    then show ?thesis using r opn room_ok_length [OF code(2)] by (auto simp: rs_def)
  qed
  then have "v_letters v = [] \<and> v_public v \<and> card (pv_id ` set (v_players v)) < 5"
    if "v \<in> view_of now [] ` set rs" for v
    using that by (auto simp: view_of_def Let_def)
  then have "\<forall>v \<in> set vs. v_letters v = [] \<and> v_public v \<and> card (set (map pv_id (v_players v))) < 5"
    unfolding srt by simp
  ultimately show ?thesis using vs by (intro exI [of _ vs] conjI)
qed

text \<open>
  C29: for a rake of at most 10000 basis points the payout is what the contract allows: between
  nothing and the pot, and the rake, rounded down, is what is kept.
\<close>

theorem payout_within_pot:
  assumes "0 \<le> pot" "uint rakeBps \<le> 10000"
  shows "0 \<le> payoutAfterRake pot rakeBps \<and> payoutAfterRake pot rakeBps \<le> pot \<and>
    10000 * (pot - payoutAfterRake pot rakeBps) \<le> pot * uint rakeBps \<and>
    pot * uint rakeBps < 10000 * (pot - payoutAfterRake pot rakeBps + 1)"
proof -
  let ?k = "pot * uint rakeBps"
  have k: "0 \<le> ?k" "?k \<le> pot * 10000" using assms by (simp_all add: mult_left_mono)
  have "10000 * (k div 10000) \<le> k \<and> k < 10000 * (k div 10000 + 1)" for k :: int by presburger
  then have d: "10000 * (?k div 10000) \<le> ?k" "?k < 10000 * (?k div 10000 + 1)" by blast+
  have "0 \<le> ?k div 10000" "?k div 10000 \<le> pot" using k d by (simp_all add: pos_imp_zdiv_nonneg_iff)
  then show ?thesis using d by (simp add: payoutAfterRake_def Let_def bpsDenominator_def)
qed

text \<open>
  C5: a room is settled at most once: after a settlement has begun, whatever happens to the
  rooms, no later timer begins another one for it.
\<close>

theorem settled_once:
  assumes "case_table (e_uc V)" "room_reach V (room_initial V rs text w rd sg c) m"
    "a < length (m_heap m)" "fst (settle_begin now a m) \<noteq> None"
    "room_reach V (snd (settle_begin now a m)) m'"
  shows "fst (settle_begin now' a m') = None"
proof -
  note ok = reachable_ok(1) [OF assms(1,2)]
  let ?m = "snd (settle_begin now a m)"
  have okm: "mgr_ok (e_uc V) ?m" using good_settle_begin [OF ok assms(3)] by (simp add: good_def)
  have p: "r_settleStatus (m_heap ?m ! a) = Pending" "a < length (m_heap ?m)"
    using assms(3,4) by (auto simp: settle_begin_def Let_def split: if_splits)
  have "good (e_uc V) ?m m'" by (rule good_reach [OF assms(5) okm assms(1) refl])
  then have "room_le (m_heap ?m ! a) (m_heap m' ! a)" using p(2) by (simp add: good_def mgr_le_def)
  then have "r_settleStatus (m_heap m' ! a) \<noteq> Not_settled"
    using p(1) by (auto simp: room_le_def)
  then show ?thesis by (simp add: settle_begin_def Let_def)
qed

text \<open>
  C6: a settlement that ends as settled paid the right player: the race was over, the payout of the
  pot after the rake went in one signed and mined transaction to the one address, a valid one, that
  has the best score and joined first among those that have it.
\<close>

theorem settled_pays_winner:
  assumes "case_table (e_uc V)" "room_reach V (room_initial V rs text w rd sg c) m"
    "(t, a) \<in> set (m_timers m)" "r = maybeFinishLocked now (m_heap m ! a)" "r_settleStatus r = Not_settled"
    "settleRoom V now a m = (res, m')" "r_settleStatus (m_heap m' ! a) = Settled_ok"
  shows "r_state r = Over \<and> (\<exists>n reader signer writer rnd ch sig.
    n < length (r_order r) \<and>
    (\<forall>k < length (r_order r). score_of r (r_order r ! k) \<le> score_of r (r_order r ! n)) \<and>
    (\<forall>k < n. score_of r (r_order r ! k) < score_of r (r_order r ! n)) \<and>
    IsHexAddress (e_eth V) (r_order r ! n) \<and>
    m_reader m = Some reader \<and> m_signer m = Some signer \<and> m_writer m = Some writer \<and>
    GetRound (e_eth V) reader (r_roundID r) (m_world m) = (Ok rnd, ch) \<and>
    SignSettlement (e_eth V) (e_crypto V) signer (r_roundID r) [HexToAddress (e_eth V) (r_order r ! n)]
      [payoutAfterRake (Pot rnd) (RakeBps rnd)] = Ok sig \<and>
    fst (Settle (e_eth V) writer (r_roundID r) [HexToAddress (e_eth V) (r_order r ! n)]
      [payoutAfterRake (Pot rnd) (RakeBps rnd)] sig ch) = Ok ())"
proof -
  note ok = reachable_ok(1) [OF assms(1,2)]
  have a: "a < length (m_heap m)" "r_stake r \<noteq> None" using mgr_ok_timer [OF ok assms(3)] by (simp_all add: assms(4))
  have rok: "room_ok (e_uc V) (m_dict m) r"
    unfolding assms(4) by (rule room_ok_maybeFinish [OF mgr_ok_heap [OF ok a(1)]])
  have over: "r_state r = Over"
  proof (rule ccontr)
    assume "r_state r \<noteq> Over"
    then have "m' = set_room a r m" using assms(6)
      by (simp add: settleRoom_def settle_begin_def Let_def assms(4) [symmetric])
    then show False using a(1) assms(5,7) by simp
  qed
  define m1 where "m1 = set_room a (r\<lparr>r_settleStatus := Pending\<rparr>) m"
  have begin_eq: "settle_begin now a m = (Some (leaderLocked r), m1)"
    using over assms(5) by (simp add: settle_begin_def Let_def assms(4) [symmetric] m1_def)
  obtain winner where lead: "leaderLocked r = Ok winner" "winner \<noteq> [] \<Longrightarrow> best_player r winner"
    using leaderLocked_best [OF rok a(2)] by blast
  have m1: "m_heap m1 ! a = r\<lparr>r_settleStatus := Pending\<rparr>" "a < length (m_heap m1)"
    "m_reader m1 = m_reader m" "m_signer m1 = m_signer m" "m_writer m1 = m_writer m" "m_world m1 = m_world m"
    using a(1) by (simp_all add: m1_def set_room_def)
  obtain p m2 where pay: "settle_pay V winner (r_roundID r) m1 = (p, m2)" by fastforce
  then have m2: "m_heap m2 = m_heap m1" using settle_pay_heap [of V winner "r_roundID r" m1] by simp
  have "\<exists>err. p = Ok (Settled_ok, err)"
    using assms(6,7) m1 m2
    by (auto simp: settleRoom_def begin_eq lead pay settle_end_def Let_def
        split: res.splits if_splits)
  then obtain err where "settle_pay V winner (r_roundID r) m1 = (Ok (Settled_ok, err), m2)"
    using pay by blast
  then obtain reader signer writer rnd ch sig where paid: "IsHexAddress (e_eth V) winner" "winner \<noteq> []"
    "m_reader m = Some reader" "m_signer m = Some signer" "m_writer m = Some writer"
    "GetRound (e_eth V) reader (r_roundID r) (m_world m) = (Ok rnd, ch)"
    "SignSettlement (e_eth V) (e_crypto V) signer (r_roundID r) [HexToAddress (e_eth V) winner]
      [payoutAfterRake (Pot rnd) (RakeBps rnd)] = Ok sig"
    "fst (Settle (e_eth V) writer (r_roundID r) [HexToAddress (e_eth V) winner]
      [payoutAfterRake (Pot rnd) (RakeBps rnd)] sig ch) = Ok ()"
    by (rule settle_pay_Settled) (unfold m1(3-6), rule that)
  with lead(2) obtain n where "n < length (r_order r)" "winner = r_order r ! n"
    "\<forall>k < length (r_order r). score_of r (r_order r ! k) \<le> score_of r (r_order r ! n)"
    "\<forall>k < n. score_of r (r_order r ! k) < score_of r (r_order r ! n)"
    unfolding best_player_def by blast
  then show ?thesis using over paid by blast
qed


lemma to_upper_ascii:
  assumes "\<forall>c \<in> set s. byte c < 97"
  shows "to_upper uc s = s"
proof -
  have "runes s = map byte s"
    unfolding runes_def using assms by (intro byte_runes_ascii) auto
  moreover have "encode_rune (upper_rune uc (byte c)) = [c]" if "byte c < 97" for c
    using that by (simp add: encode_rune_def encode_bytes_def upper_rune_def)
  then have "concat (map (\<lambda>c. encode_rune (upper_rune uc (byte c))) s) = s"
    using assms by (induction s) auto
  ultimately show ?thesis by (simp add: to_upper_def comp_def)
qed

lemma codeAlphabet_ascii: "c \<in> set codeAlphabet \<Longrightarrow> byte c < 97"
  by (auto simp: codeAlphabet_def)

lemma randCode_form:
  assumes "randCode E ch = (code, ch')"
  shows "length code = 4 \<and> set code \<subseteq> set codeAlphabet"
proof -
  obtain r w where r: "RandRead E codeLen ch = (r, w)" by fastforce
  have "length (read_buf codeLen r) = 4"
    by (cases r) (simp_all add: read_buf_def codeLen_def)
  moreover have "codeAlphabet ! (b mod length codeAlphabet) \<in> set codeAlphabet" for b
    by (intro nth_mem) (simp add: codeAlphabet_def)
  moreover have "code = map (\<lambda>b. codeAlphabet ! (byte b mod length codeAlphabet)) (read_buf codeLen r)"
    using assms r by (simp add: randCode_def)
  ultimately show ?thesis by auto
qed

text \<open>
  C40: a fresh code is four characters of the alphabet under which no room is stored, and
  upper-casing leaves it alone, so that looking it up finds its room; once every code is taken the
  search for one does not return.
\<close>

theorem freshCode_unused:
  "(\<forall>code ch'. freshCode E rooms ch = Some (code, ch') \<longrightarrow> map_of rooms code = None \<and>
      length code = 4 \<and> set code \<subseteq> set codeAlphabet \<and> to_upper uc code = code) \<and>
   ((\<forall>code. length code = 4 \<and> set code \<subseteq> set codeAlphabet \<longrightarrow> map_of rooms code \<noteq> None) \<longrightarrow>
      freshCode E rooms ch = None)"
proof -
  have f: "map_of rooms code = None \<and> length code = 4 \<and> set code \<subseteq> set codeAlphabet \<and>
      to_upper uc code = code" if fc: "freshCode E rooms ch = Some (code, ch')" for code ch'
  proof -
    obtain ch0 where "map_of rooms code = None" "randCode E ch0 = (code, ch')"
      using freshCode_free [OF fc] by auto
    then have c: "map_of rooms code = None" "length code = 4" "set code \<subseteq> set codeAlphabet"
      using randCode_form [of E ch0 code ch'] by blast+
    then have "to_upper uc code = code" using codeAlphabet_ascii by (intro to_upper_ascii) blast
    with c show ?thesis by simp
  qed
  moreover have "freshCode E rooms ch = None"
    if "\<forall>code. length code = 4 \<and> set code \<subseteq> set codeAlphabet \<longrightarrow> map_of rooms code \<noteq> None"
    using f that by (metis (full_types) not_None_eq prod.collapse)
  ultimately show ?thesis by blast
qed

section \<open>Divergences\<close>

text \<open>
  \<open>Create\<close> adds the host of a free room after publishing it and without its lock. If joins come
  first, the unguarded \<open>addPlayer\<close> makes a sixth player, or lists the host twice and takes away what the
  host has found.
\<close>

lemma late_host:
  assumes "a < length (m_heap m)" "r = m_heap m ! a" "r' = m_heap (create_host (r_host r) name a m) ! a"
  shows "r_order r' = r_order r @ [r_host r]"
    "\<exists>p. map_of (r_players r') (r_host r) = Some p \<and> p_found p = [] \<and> p_score p = 0"
  using assms(1) unfolding assms(2,3) by (simp_all add: create_host_def addPlayer_simps)

section \<open>Witnesses\<close>

text \<open>A server with an empty word list, and with and without the on-chain pieces.\<close>

definition toy_env :: "(unit, unit) env" where
  "toy_env = \<lparr>e_eth = toy_eth, e_crypto = toy_crypto, e_uc = (\<lambda>r. r), e_rng = first_rng\<rparr>"

definition toy_client :: Client where
  "toy_client = \<lparr>c_rpc = [], c_contract = 11\<rparr>"

definition toy_writer :: Writer where
  "toy_writer = \<lparr>w_rpc = [], w_contract = 11, w_key = 7, w_chainID = 42220, w_address = 9\<rparr>"

definition toy_m0 :: "unit Manager" where
  "toy_m0 = room_initial toy_env [] [] (Some toy_writer) (Some toy_client) (Some toy_signer) ()"

lemma toy_env_simps [simp]: "e_eth toy_env = toy_eth" "e_uc toy_env = (\<lambda>r. r)" "e_rng toy_env = first_rng"
  by (simp_all add: toy_env_def)

lemma case_table_toy: "case_table (e_uc toy_env)"
  by (simp add: case_table_def upper_rune_def)

definition toy_room :: "int option \<Rightarrow> Room" where
  "toy_room stake = new_room toy_m0 ''AAAA'' ''p1'' True stake"

definition with_room :: "Room \<Rightarrow> unit Manager" where
  "with_room r = toy_m0\<lparr>m_rooms := [(''AAAA'', 0)], m_heap := [r]\<rparr>"

lemma toy_code: "freshCode toy_eth [] () = Some (''AAAA'', ())"
proof -
  have "randCode toy_eth () = (''AAAA'', ())" by code_simp
  then show ?thesis by (subst freshCode.simps) simp
qed

lemma toy_m0_simps [simp]: "m_rooms toy_m0 = []" "m_heap toy_m0 = []" "m_timers toy_m0 = []"
  "m_world toy_m0 = ()" "m_dict toy_m0 = New (\<lambda>r. r) []" "m_raceSeconds toy_m0 = 60"
  "m_reader toy_m0 = Some toy_client"
  by (simp_all add: toy_m0_def room_initial_def EnableStaking_def NewManager_def Atoi_def
      big_SetString_def RaceSeconds_def)

lemma toy_publish: "create_publish toy_env ''p1'' True stake toy_m0 =
    Some (0, ''AAAA'', with_room (toy_room stake))"
  by (simp add: create_publish_def toy_code toy_room_def with_room_def)

text \<open>A free room with its host.\<close>

definition toy_free :: "unit Manager" where
  "toy_free = with_room (addPlayer ''p1'' ''ann'' (toy_room None))"

lemma reach_free: "room_reach toy_env toy_m0 toy_free"
proof -
  have "room_reach toy_env toy_m0 (with_room (toy_room None))"
    by (rule room_reach_step [OF publish [OF toy_publish]])
  moreover have "toy_free = create_host (r_host (m_heap (with_room (toy_room None)) ! 0)) ''ann'' 0 (with_room (toy_room None))"
    by (simp add: toy_free_def create_host_def with_room_def toy_room_def set_room_def)
  then have "room_step toy_env (with_room (toy_room None)) toy_free"
    using hosted [of 0 "with_room (toy_room None)" toy_env "''ann''"]
    by (simp add: with_room_def toy_room_def is_staked_def)
  ultimately show ?thesis by (rule next_state)
qed

text \<open>The host joins a room that was published, and is then added once more by the end of \<open>Create\<close>.\<close>

lemma toy_twice:
  obtains m where "room_reach toy_env toy_m0 m" "0 < length (m_heap m)"
    "r_order (m_heap m ! 0) = [''p1'', ''p1'']" "r_stake (m_heap m ! 0) = None"
proof -
  let ?m1 = "with_room (toy_room None)"
  have m1: "room_reach toy_env toy_m0 ?m1" by (rule room_reach_step [OF publish [OF toy_publish]])
  define m2 where "m2 = snd (Join_at toy_env 5 0 ''p1'' ''ann'' ?m1)"
  have m2: "room_reach toy_env toy_m0 m2"
    unfolding m2_def by (rule next_state [OF m1 join]) (simp add: with_room_def)
  have r2: "length (m_heap m2) = 1" "r_order (m_heap m2 ! 0) = [''p1'']" "r_host (m_heap m2 ! 0) = ''p1''"
    "r_stake (m_heap m2 ! 0) = None"
    by (simp_all add: m2_def Join_at_def Let_def verify_stake_def toy_room_def is_staked_def MaxPlayers_def
        snd_snapshot with_room_def addPlayer_simps)
  then have h: "room_step toy_env m2 (create_host ''p1'' ''ann'' 0 m2)"
    using hosted [of 0 m2 toy_env "''ann''"] by (simp add: tidy_def MaxPlayers_def)
  show thesis
    by (rule that [OF next_state [OF m2 h]]) (use r2 in \<open>simp_all add: create_host_def addPlayer_simps\<close>)
qed

theorem rooms_consistent_witness:
  "\<exists>m. room_reach toy_env toy_m0 m \<and> r_order (m_heap m ! 0) = [''p1'', ''p1''] \<and>
    dom (map_of (r_players (m_heap m ! 0))) = {''p1''}"
proof -
  obtain m where m: "room_reach toy_env toy_m0 m" "0 < length (m_heap m)"
    "r_order (m_heap m ! 0) = [''p1'', ''p1'']" "r_stake (m_heap m ! 0) = None" by (rule toy_twice)
  then have "m_heap m ! 0 \<in> set (m_heap m)" by simp
  from rooms_consistent [OF case_table_toy m(1) [unfolded toy_m0_def] this] m show ?thesis by auto
qed

theorem rooms_move_forward_witness:
  "r_code (m_heap (snd (Join_at toy_env 5 0 ''p2'' ''bob'' toy_free)) ! 0) = ''AAAA''"
proof -
  have a: "0 < length (m_heap toy_free)" by (simp add: toy_free_def with_room_def)
  have "room_reach toy_env toy_free (snd (Join_at toy_env 5 0 ''p2'' ''bob'' toy_free))"
    by (rule next_state [OF start_state join [OF a]])
  from rooms_move_forward [OF case_table_toy reach_free [unfolded toy_m0_def] this a]
  show ?thesis by (simp add: toy_free_def with_room_def addPlayer_def toy_room_def new_room_def Let_def)
qed

theorem Submit_accepts_witness:
  "\<exists>rep. fst (Submit toy_env 5 ''AAAA'' ''p1'' ''BAB'' toy_free) = Ok rep \<and> \<not> sr_accepted rep \<and>
    sr_points rep = 0"
proof -
  have "r_state (maybeFinishLocked 5 (m_heap toy_free ! 0)) = Lobby"
    by (simp add: toy_free_def with_room_def toy_room_def new_room_def addPlayer_def Let_def)
  moreover have "a = 0" if "room_addr toy_env ''AAAA'' toy_free = Some a" for a
    using that by (simp add: room_addr_def toy_free_def with_room_def split: if_splits)
  ultimately show ?thesis
    using Submit_accepts [OF case_table_toy reach_free [unfolded toy_m0_def], of 5 "''AAAA''" "''p1''" "''BAB''"]
    by fastforce
qed

text \<open>A staked room whose round is open until three minutes after time 0, and a player's join.\<close>

definition toy_lobby :: Room where
  "toy_lobby = (toy_room (Some 5))\<lparr>r_roundID := Some 9, r_stakeEndsAt := stakeWindow\<rparr>"

definition toy_joined :: Room where
  "toy_joined = addPlayer ''p2'' ''bob'' toy_lobby"

lemma toy_lobby_simps [simp]: "r_players toy_lobby = []" "r_order toy_lobby = []" "r_state toy_lobby = Lobby"
  "r_stake toy_lobby = Some 5" "r_roundID toy_lobby = Some 9" "r_host toy_lobby = ''p1''"
  "r_raceSeconds toy_lobby = 60" "r_stakeEndsAt toy_lobby = 180000000000" "r_settleStatus toy_lobby = Not_settled"
  by (simp_all add: toy_lobby_def toy_room_def new_room_def is_staked_def stakeWindow_def second_def)

lemma toy_joined_simps [simp]: "r_order toy_joined = [''p2'']" "\<exists>p. map_of (r_players toy_joined) ''p2'' = Some p"
  "r_state toy_joined = Lobby" "r_stake toy_joined = Some 5" "r_roundID toy_joined = Some 9"
  "r_host toy_joined = ''p1''" "r_raceSeconds toy_joined = 60" "r_stakeEndsAt toy_joined = 180000000000"
  "r_settleStatus toy_joined = Not_settled"
  by (simp_all add: toy_joined_def addPlayer_def Let_def)

lemma with_room_simps [simp]: "m_heap (with_room r) = [r]" "m_world (with_room r) = ()"
  "m_reader (with_room r) = Some toy_client" "m_writer (with_room r) = Some toy_writer"
  "m_signer (with_room r) = Some toy_signer" "m_dict (with_room r) = New (\<lambda>r. r) []"
  "m_timers (with_room r) = []" "room_addr toy_env ''AAAA'' (with_room r) = Some 0"
  "set_room 0 r' (with_room r) = with_room r'"
  by (simp_all add: with_room_def room_addr_def set_room_def)
    (simp_all add: toy_m0_def room_initial_def EnableStaking_def NewManager_def)

lemma reach_staked: "room_reach toy_env toy_m0 (with_room toy_lobby)"
proof -
  have "room_reach toy_env toy_m0 (with_room (toy_room (Some 5)))"
    by (rule room_reach_step [OF publish [OF toy_publish]])
  moreover have "with_room toy_lobby = set_round 0 9 stakeWindow (with_room (toy_room (Some 5)))"
    by (simp add: toy_lobby_def set_round_def)
  ultimately show ?thesis
    using opened [of 0 "with_room (toy_room (Some 5))" toy_env 9 stakeWindow] by (simp add: next_state)
qed

lemma toy_entered: "HasEntered toy_eth reader (Some roundID) player () = (Ok True, ())"
  by (simp add: HasEntered_def toy_eth_def entered_of_def big_arg_def)

lemma toy_valid [simp]: "IsHexAddress toy_eth s \<longleftrightarrow> s \<noteq> []"
  by (simp add: toy_eth_def)

lemma toy_join: "snd (Join_at toy_env now 0 ''p2'' ''bob'' (with_room toy_lobby)) = with_room toy_joined"
proof -
  have "verify_stake toy_env ''p2'' toy_lobby (with_room toy_lobby) = (Ok (), with_room toy_lobby)"
    by (simp add: verify_stake_def toy_entered)
  then show ?thesis
    by (simp add: Join_at_def Let_def MaxPlayers_def snd_snapshot toy_joined_def [symmetric] maybeFinishLocked_def)
qed

lemma reach_joined: "room_reach toy_env toy_m0 (with_room toy_joined)"
  using next_state [OF reach_staked join [of 0 _ toy_env 5 "''p2''" "''bob''"]]
  by (simp add: toy_join)

theorem view_winner_witness:
  "\<exists>v. fst (snapshot 5 ''p1'' 0 toy_free) = Ok v \<and> v_letters v = [] \<and> v_winner v = []"
proof -
  have "r_state (maybeFinishLocked 5 (m_heap toy_free ! 0)) = Lobby" "0 < length (m_heap toy_free)"
    by (simp_all add: toy_free_def with_room_def toy_room_def new_room_def addPlayer_def Let_def)
  with view_winner [OF case_table_toy reach_free [unfolded toy_m0_def] _ refl, of 0 5 "''p1''"]
  show ?thesis by auto
qed

theorem List_shows_open_rooms_witness:
  "\<exists>vs. List_rooms 5 toy_free = Ok vs \<and> ''AAAA'' \<in> set (map v_code vs)"
proof -
  have "r_state (m_heap toy_free ! 0) = Lobby" "r_public (m_heap toy_free ! 0)"
    "length (r_players (m_heap toy_free ! 0)) < 5" "map_of (m_rooms toy_free) ''AAAA'' = Some 0"
    by (simp_all add: toy_free_def with_room_def toy_room_def new_room_def addPlayer_def Let_def)
  with List_shows_open_rooms [OF case_table_toy reach_free [unfolded toy_m0_def], of 5]
  show ?thesis by auto
qed

theorem payout_within_pot_witness: "payoutAfterRake 1001 500 = 951 \<and> (951::int) \<le> 1001"
proof -
  have "payoutAfterRake 1001 500 = 951" by (simp add: payoutAfterRake_def bpsDenominator_def)
  then show ?thesis using payout_within_pot [of 1001 500] by simp
qed

theorem freshCode_unused_witness:
  "map_of [] ''AAAA'' = (None :: nat option) \<and> length ''AAAA'' = 4 \<and> to_upper (\<lambda>r. r) ''AAAA'' = ''AAAA''"
  using freshCode_unused [of toy_eth "[]" "()" "\<lambda>r. r"] toy_code by blast


text \<open>The race of the joined room, started at time 0: its timer fires after the window.\<close>

lemma reach_over:
  obtains m r where "room_reach toy_env toy_m0 m" "m_heap m = [r]" "r_state r = Racing"
    "r_endsAt r = 60 * second" "r_settleStatus r = Not_settled" "r_order r = [''p2'']" "r_roundID r = Some 9"
    "m_reader m = Some toy_client" "m_writer m = Some toy_writer" "m_signer m = Some toy_signer"
    "no_nil_player r" "m_timers m = [(182 * second, 0)]"
proof -
  have ok: "mgr_ok (\<lambda>r. r) (with_room toy_joined)"
    using reachable_ok(1) [OF case_table_toy reach_joined [unfolded toy_m0_def]] by simp
  have "2 \<le> rackSize" by (simp add: rackSize_def)
  then obtain rk where rk: "GenerateSolo (\<lambda>r. r) first_rng (New (\<lambda>r. r) []) rackSize 7 = Some rk"
    using GenerateSolo_total [OF dict_ok_New rng_ok_first] by blast
  define r where "r = toy_joined\<lparr>r_letters := rk_letters rk, r_state := Racing, r_endsAt := 60 * second\<rparr>"
  define m where "m = (with_room r)\<lparr>m_timers := [(182 * second, 0)]\<rparr>"
  have w: "wrap64 (60 * second) = 60 * second" by (rule wrap64_id) (simp_all add: second_def)
  have "scheduleSettle 0 0 (with_room r) = m"
    using scheduleSettle_at [of "with_room r" 0 0] by (simp add: r_def m_def second_def)
  moreover have "maybeFinishLocked 0 r = r" by (simp add: maybeFinishLocked_def r_def second_def)
  ultimately have "snd (Start toy_env 0 7 ''AAAA'' ''p1'' (with_room toy_joined)) = m"
    using Start_deals [OF ok, of toy_env "''AAAA''" 0 toy_joined "''p1''" 7 rk r 0] rk
    by (simp add: r_def w)
  then have "room_reach toy_env toy_m0 m"
    using room_reach_trans [OF Start_reach [OF ok, of toy_env 0 7 "''AAAA''" "''p1''"] reach_joined] by simp
  then show thesis by (rule that [of m r]) (simp_all add: m_def, simp_all add: r_def no_nil_player_def)
qed

theorem settled_once_witness:
  "\<exists>m. fst (settle_begin (182 * second) 0 m) \<noteq> None \<and>
    fst (settle_begin (190 * second) 0 (snd (settle_begin (182 * second) 0 (m :: unit Manager)))) = None"
proof -
  obtain m r where m: "room_reach toy_env toy_m0 m" "m_heap m = [r]" "r_state r = Racing"
    "r_endsAt r = 60 * second" "r_settleStatus r = Not_settled" by (rule reach_over)
  have b: "fst (settle_begin (182 * second) 0 m) \<noteq> None"
    using m by (simp add: settle_begin_def Let_def maybeFinishLocked_def second_def)
  have "0 < length (m_heap m)" using m(2) by simp
  from settled_once [OF case_table_toy m(1) [unfolded toy_m0_def] this b start_state]
  show ?thesis using b by blast
qed

text \<open>Its settlement pays the joined player 950 of the 1000 staked.\<close>

theorem settled_pays_winner_witness:
  "\<exists>m. m_timers m = [(182 * second, 0)] \<and>
    r_settleStatus (m_heap (snd (settleRoom toy_env (182 * second) 0 m)) ! 0) = Settled_ok \<and>
    (\<exists>sig. fst (Settle toy_eth toy_writer (Some 9) [HexToAddress toy_eth ''p2''] [950] sig ()) = Ok ())"
proof -
  obtain m r where m: "room_reach toy_env toy_m0 m" "m_heap m = [r]" "r_state r = Racing"
    "r_endsAt r = 60 * second" "r_settleStatus r = Not_settled" "r_order r = [''p2'']" "r_roundID r = Some 9"
    "m_reader m = Some toy_client" "m_writer m = Some toy_writer" "m_signer m = Some toy_signer"
    "no_nil_player r" "m_timers m = [(182 * second, 0)]" by (rule reach_over)
  define r' where "r' = maybeFinishLocked (182 * second) (m_heap m ! 0)"
  have mf: "maybeFinishLocked (182 * second) r = r\<lparr>r_state := Over\<rparr>"
    using m(3,4) by (simp add: maybeFinishLocked_def second_def)
  then have r': "r' = r\<lparr>r_state := Over\<rparr>" using m(2) by (simp add: r'_def)
  have rd: "GetRound toy_eth toy_client (Some 9) ch = (Ok toy_onchain, ch)" for ch
    by (simp add: GetRound_def) (simp add: toy_eth_def encode_round_def decode_round_def big_arg_def)
  have st: "Settle toy_eth toy_writer (Some 9) ws xs sig ch = (Ok (), ch)" for ws xs sig ch
    by (simp add: Settle_def send_def) (simp add: toy_eth_def)
  have pay: "payoutAfterRake (Pot toy_onchain) (RakeBps toy_onchain) = 950"
    by (simp add: payoutAfterRake_def bpsDenominator_def toy_onchain_def)
  have "leaderLocked r' = Ok ''p2''"
    using m(6,11) by (simp add: r' leaderLocked_def rankedIDsLocked_def no_nil_player_def)
  then have "r_settleStatus (m_heap (snd (settleRoom toy_env (182 * second) 0 m)) ! 0) = Settled_ok"
    using m(5,7-10) mf by (simp add: r' settleRoom_def settle_begin_def Let_def m(2) settle_pay_def rd st
        toy_signature set_room_def settle_end_def toy_env_def)
  moreover have "(182 * second, 0) \<in> set (m_timers m)" "r_settleStatus r' = Not_settled" using m(5,12) by (simp_all add: r')
  ultimately show ?thesis
    using settled_pays_winner [OF case_table_toy m(1) [unfolded toy_m0_def] _ r'_def, of "182 * second" "fst (settleRoom toy_env (182 * second) 0 m)"
        "snd (settleRoom toy_env (182 * second) 0 m)"] m(6-10,12) rd pay by (auto simp: r')
qed

end
