(* ===== verification/Json.thy ===== *)
theory Json
  imports Numbers
begin

text \<open>
  JSON as \<open>encoding/json\<close> writes and reads it for the handlers. \<open>json\<close> is a Go value on its way out
  (\<open>JObj\<close> a struct, its fields in order, \<open>JMap\<close> a \<open>map[string]any\<close>, written in the order of its keys),
  \<open>json_encode\<close> what \<open>Encode\<close> writes before its line break. Reading is in two parts: \<open>tokens\<close> cuts the
  bytes into tokens, and \<open>scan_run\<close> is the scanner's state machine with its stack of open arrays and
  objects, which stops at the end of the first value. The main lemma is that what was written reads
  back; the second half stores a value read into the fields of a request.
\<close>

section \<open>Writing\<close>

datatype json = JNull | JBool bool | JNum int | JStr string | JArr "json list"
  | JObj "(string \<times> json) list" | JMap "(string \<times> json) list"

abbreviation dquote :: char where
  "dquote \<equiv> CHR 0x22"

abbreviation bslash :: char where
  "bslash \<equiv> CHR 0x5C"

definition hex_digit :: "nat \<Rightarrow> char" where
  "hex_digit n = ''0123456789abcdef'' ! n"

text \<open>A code unit below 65536 as an escape.\<close>

definition escape_u :: "nat \<Rightarrow> string" where
  "escape_u r = [bslash, CHR ''u'', hex_digit (r div 4096), hex_digit (r div 256 mod 16),
    hex_digit (r div 16 mod 16), hex_digit (r mod 16)]"

definition html_safe :: "nat \<Rightarrow> bool" where
  "html_safe b \<longleftrightarrow> 32 \<le> b \<and> b \<notin> {34, 38, 60, 62, 92}"

definition escape_ascii :: "nat \<Rightarrow> string" where
  "escape_ascii b =
    (if html_safe b then [char_of b]
     else if b = 34 then [bslash, dquote] else if b = 92 then [bslash, bslash]
     else if b = 8 then [bslash, CHR ''b''] else if b = 12 then [bslash, CHR ''f'']
     else if b = 10 then [bslash, CHR ''n''] else if b = 13 then [bslash, CHR ''r'']
     else if b = 9 then [bslash, CHR ''t''] else escape_u b)"

definition escape_rune :: "nat \<Rightarrow> nat list \<Rightarrow> string" where
  "escape_rune r raw =
    (if r < 128 then escape_ascii r
     else if r = rune_error \<and> length raw = 1 \<or> r = 8232 \<or> r = 8233 then escape_u r
     else map char_of raw)"

function escape_str :: "nat list \<Rightarrow> string" where
  "escape_str bs =
    (if bs = [] then []
     else escape_rune (fst (decode_bytes bs)) (take (snd (decode_bytes bs)) bs) @
       escape_str (drop (snd (decode_bytes bs)) bs))"
  by pat_completeness auto
termination
  by (relation "measure length")
    (auto simp: decode_width_pos diff_less length_greater_0_conv)

declare escape_str.simps [simp del]

definition json_quote :: "string \<Rightarrow> string" where
  "json_quote s = dquote # escape_str (map byte s) @ [dquote]"

fun comma_join :: "string list \<Rightarrow> string" where
  "comma_join [] = []"
| "comma_join [s] = s"
| "comma_join (s # t # ss) = s @ CHR '','' # comma_join (t # ss)"

fun json_encode :: "json \<Rightarrow> string" where
  "json_encode JNull = ''null''"
| "json_encode (JBool b) = (if b then ''true'' else ''false'')"
| "json_encode (JNum n) = big_String n"
| "json_encode (JStr s) = json_quote s"
| "json_encode (JArr xs) = CHR ''['' # comma_join (map json_encode xs) @ '']''"
| "json_encode (JObj kvs) =
    CHR ''{'' # comma_join (map (\<lambda>(k, v). json_quote k @ CHR '':'' # json_encode v) kvs) @ ''}''"
| "json_encode (JMap kvs) =
    CHR ''{'' # comma_join (map snd (sort_key fst (map (\<lambda>(k, v). (k, json_quote k @ CHR '':'' # json_encode v)) kvs))) @ ''}''"

section \<open>Tokens\<close>

datatype token = LBrace | RBrace | LBrack | RBrack | Comma | Colon
  | TStr string | TNum string | TTrue | TFalse | TNull | TBad

definition json_space :: "char \<Rightarrow> bool" where
  "json_space c \<longleftrightarrow> byte c \<in> {9, 10, 13, 32}"

definition hex_val :: "char \<Rightarrow> nat option" where
  "hex_val c =
    (let b = byte c
     in if 48 \<le> b \<and> b \<le> 57 then Some (b - 48)
        else if 97 \<le> b \<and> b \<le> 102 then Some (b - 87)
        else if 65 \<le> b \<and> b \<le> 70 then Some (b - 55) else None)"

text \<open>The four hexadecimal digits of an escape.\<close>

definition hex4 :: "string \<Rightarrow> nat option" where
  "hex4 s =
    (case map hex_val (take 4 s) of
       [Some a, Some b, Some c, Some d] \<Rightarrow> Some (a * 4096 + b * 256 + c * 16 + d)
     | _ \<Rightarrow> None)"

text \<open>From behind the opening json_quote to the closing one: the bytes between, and the rest.\<close>

function scan_string :: "string \<Rightarrow> (string \<times> string) option" where
  "scan_string [] = None"
| "scan_string (c # cs) =
    (if c = dquote then Some ([], cs)
     else if c = bslash
     then if cs = [] then None
       else if hd cs \<in> set [dquote, bslash, CHR ''/'', CHR ''b'', CHR ''f'', CHR ''n'', CHR ''r'', CHR ''t'']
       then map_option (\<lambda>(raw, r). (c # hd cs # raw, r)) (scan_string (tl cs))
       else if hd cs = CHR ''u'' \<and> hex4 (tl cs) \<noteq> None
       then map_option (\<lambda>(raw, r). (c # take 5 cs @ raw, r)) (scan_string (drop 5 cs))
       else None
     else if byte c < 32 then None
     else map_option (\<lambda>(raw, r). (c # raw, r)) (scan_string cs))"
  by pat_completeness auto
termination by (relation "measure length") auto

definition is_surrogate :: "nat \<Rightarrow> bool" where
  "is_surrogate r \<longleftrightarrow> 55296 \<le> r \<and> r < 57344"

definition getu4 :: "string \<Rightarrow> nat option" where
  "getu4 s = (if take 2 s = [bslash, CHR ''u''] then hex4 (drop 2 s) else None)"

text \<open>\<open>utf16.DecodeRune\<close>.\<close>

definition utf16_pair :: "nat \<Rightarrow> nat \<Rightarrow> nat" where
  "utf16_pair r1 r2 =
    (if 55296 \<le> r1 \<and> r1 < 56320 \<and> 56320 \<le> r2 \<and> r2 < 57344
     then (r1 - 55296) * 1024 + (r2 - 56320) + 65536 else rune_error)"

definition unescape_char :: "char \<Rightarrow> char" where
  "unescape_char c =
    (if c = CHR ''b'' then CHR 0x08 else if c = CHR ''f'' then CHR 0x0C else if c = CHR ''n'' then CHR 0x0A
     else if c = CHR ''r'' then CHR 0x0D else if c = CHR ''t'' then CHR 0x09 else c)"

text \<open>The bytes of a scanned string with its escapes resolved and invalid UTF-8 replaced.\<close>

function unquote :: "string \<Rightarrow> string" where
  "unquote [] = []"
| "unquote (c # cs) =
    (if c = bslash then
       (case getu4 (c # cs) of
          Some rr \<Rightarrow>
            (case (if is_surrogate rr then getu4 (drop 5 cs) else None) of
               Some rr1 \<Rightarrow>
                 if utf16_pair rr rr1 \<noteq> rune_error
                 then encode_rune (utf16_pair rr rr1) @ unquote (drop 11 cs)
                 else encode_rune rune_error @ unquote (drop 5 cs)
             | None \<Rightarrow> encode_rune (if is_surrogate rr then rune_error else rr) @ unquote (drop 5 cs))
        | None \<Rightarrow> map unescape_char (take 1 cs) @ unquote (drop 1 cs))
     else encode_rune (fst (decode_bytes (map byte (c # cs)))) @
       unquote (drop (snd (decode_bytes (map byte (c # cs))) - 1) cs))"
  by pat_completeness auto
termination by (relation "measure length") auto

definition expo_rest :: "string \<Rightarrow> string option" where
  "expo_rest s =
    (if s \<noteq> [] \<and> hd s \<in> {CHR ''e'', CHR ''E''}
     then let t = (if tl s \<noteq> [] \<and> hd (tl s) \<in> {CHR ''+'', CHR ''-''} then tl (tl s) else tl s)
          in if t \<noteq> [] \<and> is_digit (hd t) then Some (dropWhile is_digit t) else None
     else Some s)"

definition frac_rest :: "string \<Rightarrow> string option" where
  "frac_rest s =
    (if s \<noteq> [] \<and> hd s = CHR ''.''
     then if tl s \<noteq> [] \<and> is_digit (hd (tl s)) then expo_rest (dropWhile is_digit (tl s)) else None
     else expo_rest s)"

definition number_rest :: "string \<Rightarrow> string option" where
  "number_rest s =
    (case (if s \<noteq> [] \<and> hd s = CHR ''-'' then tl s else s) of
       [] \<Rightarrow> None
     | c # cs \<Rightarrow> if c = CHR ''0'' then frac_rest cs
                else if is_digit c then frac_rest (dropWhile is_digit cs) else None)"

definition lex_word :: "string \<Rightarrow> token \<Rightarrow> string \<Rightarrow> token \<times> string" where
  "lex_word w t s = (if take (length w) s = w then (t, drop (length w) s) else (TBad, []))"

definition lex_token :: "char \<Rightarrow> string \<Rightarrow> token \<times> string" where
  "lex_token c cs =
    (if c = CHR ''{'' then (LBrace, cs) else if c = CHR ''}'' then (RBrace, cs)
     else if c = CHR ''['' then (LBrack, cs) else if c = CHR '']'' then (RBrack, cs)
     else if c = CHR '','' then (Comma, cs) else if c = CHR '':'' then (Colon, cs)
     else if c = dquote then (case scan_string cs of None \<Rightarrow> (TBad, []) | Some (raw, r) \<Rightarrow> (TStr (unquote raw), r))
     else if c = CHR ''t'' then lex_word ''true'' TTrue (c # cs)
     else if c = CHR ''f'' then lex_word ''false'' TFalse (c # cs)
     else if c = CHR ''n'' then lex_word ''null'' TNull (c # cs)
     else case number_rest (c # cs) of
            None \<Rightarrow> (TBad, []) | Some r \<Rightarrow> (TNum (take (length (c # cs) - length r) (c # cs)), r))"

lemma scan_string_length: "scan_string s = Some (raw, r) \<Longrightarrow> length r < length s"
proof (induction s arbitrary: raw rule: scan_string.induct)
  case (2 c cs)
  then show ?case by (fastforce split: if_splits)
qed simp

lemma number_rest_length: "number_rest s = Some r \<Longrightarrow> length r < length s"
proof -
  have d: "length (dropWhile is_digit t) \<le> length t" for t by (rule length_dropWhile_le)
  have e: "length r \<le> length s" if "expo_rest s = Some r" for s r
    using that d [of "tl s"] d [of "tl (tl s)"] by (auto simp: expo_rest_def Let_def split: if_splits)
  have f: "length r \<le> length s" if "frac_rest s = Some r" for s r
    using that e [of "dropWhile is_digit (tl s)" r] e [of s r] d [of "tl s"]
    by (auto simp: frac_rest_def split: if_splits)
  assume "number_rest s = Some r"
  then show ?thesis
    using f [of "dropWhile is_digit (tl s)" r] d [of "tl s"] f [of "tl s" r]
      f [of "dropWhile is_digit (tl (tl s))" r] d [of "tl (tl s)"] f [of "tl (tl s)" r]
    by (cases s) (auto simp: number_rest_def split: list.splits if_splits)
qed

lemma lex_length: "lex_token c cs = (t, r) \<Longrightarrow> length r < Suc (length cs)"
  using scan_string_length [of cs] number_rest_length [of "c # cs"]
  by (auto simp: lex_token_def lex_word_def split: if_splits option.splits dest!: scan_string_length)

function tokens :: "string \<Rightarrow> token list" where
  "tokens [] = []"
| "tokens (c # cs) =
    (if json_space c then tokens cs else case lex_token c cs of (t, r) \<Rightarrow> t # tokens r)"
  by pat_completeness auto
termination by (relation "measure length") (auto dest!: sym [of "(_, _)"] lex_length)

section \<open>The scanner's state machine\<close>

datatype jraw = RNull | RBool bool | RNum string | RStr string | RArr "jraw list"
  | RObj "(string \<times> jraw) list"

text \<open>An open array with its elements, last first; an open object with its members and the key that waits
  for its value.\<close>

datatype frame = In_array "jraw list" | In_object "(string \<times> jraw) list" string

datatype mode = Value | Value_or_close | Key_or_close | Key_only | Colon_only | After_element | After_member

datatype outcome = Stuck | Finished jraw | More mode "frame list"

definition maxNestingDepth :: nat where
  "maxNestingDepth = 10000"

definition open_frame :: "mode \<Rightarrow> frame \<Rightarrow> frame list \<Rightarrow> outcome" where
  "open_frame m f st = (if maxNestingDepth \<le> length st then Stuck else More m (f # st))"

fun value_done :: "jraw \<Rightarrow> frame list \<Rightarrow> outcome" where
  "value_done v [] = Finished v"
| "value_done v (In_array vs # st) = More After_element (In_array (v # vs) # st)"
| "value_done v (In_object kvs k # st) = More After_member (In_object ((k, v) # kvs) [] # st)"

fun begin_value :: "token \<Rightarrow> frame list \<Rightarrow> outcome" where
  "begin_value TNull st = value_done RNull st"
| "begin_value TTrue st = value_done (RBool True) st"
| "begin_value TFalse st = value_done (RBool False) st"
| "begin_value (TStr s) st = value_done (RStr s) st"
| "begin_value (TNum s) st = value_done (RNum s) st"
| "begin_value LBrack st = open_frame Value_or_close (In_array []) st"
| "begin_value LBrace st = open_frame Key_or_close (In_object [] []) st"
| "begin_value _ st = Stuck"

fun close_frame :: "frame list \<Rightarrow> outcome" where
  "close_frame (In_array vs # st) = value_done (RArr (rev vs)) st"
| "close_frame (In_object kvs k # st) = value_done (RObj (rev kvs)) st"
| "close_frame [] = Stuck"

fun begin_key :: "token \<Rightarrow> frame list \<Rightarrow> outcome" where
  "begin_key (TStr s) (In_object kvs k # st) = More Colon_only (In_object kvs s # st)"
| "begin_key _ _ = Stuck"

definition scan_step :: "token \<Rightarrow> mode \<Rightarrow> frame list \<Rightarrow> outcome" where
  "scan_step t m st =
    (case m of
       Value \<Rightarrow> begin_value t st
     | Value_or_close \<Rightarrow> if t = RBrack then close_frame st else begin_value t st
     | Key_or_close \<Rightarrow> if t = RBrace then close_frame st else begin_key t st
     | Key_only \<Rightarrow> begin_key t st
     | Colon_only \<Rightarrow> if t = Colon then More Value st else Stuck
     | After_element \<Rightarrow> if t = Comma then More Value st else if t = RBrack then close_frame st else Stuck
     | After_member \<Rightarrow> if t = Comma then More Key_only st else if t = RBrace then close_frame st else Stuck)"

fun scan_run :: "token list \<Rightarrow> mode \<Rightarrow> frame list \<Rightarrow> jraw option" where
  "scan_run [] m st = None"
| "scan_run (t # ts) m st =
    (case scan_step t m st of Stuck \<Rightarrow> None | Finished v \<Rightarrow> Some v | More m' st' \<Rightarrow> scan_run ts m' st')"

definition json_parse :: "string \<Rightarrow> jraw option" where
  "json_parse s = scan_run (tokens s) Value []"

section \<open>What was written reads back\<close>

text \<open>Strings come back as valid UTF-8, numbers as their digits, maps in the order of their keys.\<close>

definition to_valid :: "string \<Rightarrow> string" where
  "to_valid s = concat (map encode_rune (runes s))"

fun raw_of :: "json \<Rightarrow> jraw" where
  "raw_of JNull = RNull"
| "raw_of (JBool b) = RBool b"
| "raw_of (JNum n) = RNum (big_String n)"
| "raw_of (JStr s) = RStr (to_valid s)"
| "raw_of (JArr xs) = RArr (map raw_of xs)"
| "raw_of (JObj kvs) = RObj (map (\<lambda>(k, v). (to_valid k, raw_of v)) kvs)"
| "raw_of (JMap kvs) =
    RObj (map snd (sort_key fst (map (\<lambda>(k, v). (k, (to_valid k, raw_of v))) kvs)))"

fun json_depth :: "json \<Rightarrow> nat" where
  "json_depth (JArr xs) = Suc (Max (insert 0 (set (map json_depth xs))))"
| "json_depth (JObj kvs) = Suc (Max (insert 0 (set (map (\<lambda>(k, v). json_depth v) kvs))))"
| "json_depth (JMap kvs) = Suc (Max (insert 0 (set (map (\<lambda>(k, v). json_depth v) kvs))))"
| "json_depth _ = 0"

subsection \<open>Strings\<close>

lemma hex_val_digit [simp]: "n < 16 \<Longrightarrow> hex_val (hex_digit n) = Some n"
proof -
  have "list_all (\<lambda>n. hex_val (hex_digit n) = Some n) [0..<16]" by code_simp
  then show "n < 16 \<Longrightarrow> ?thesis" by (simp add: list_all_iff)
qed

lemma take4: "take 4 (a # b # c # d # s) = [a, b, c, d]"
  and take5: "take 5 (e # a # b # c # d # s) = [e, a, b, c, d]"
  and drop5: "drop 5 (e # a # b # c # d # s) = s"
  by (simp_all add: numeral_eq_Suc)

lemma hex4_digits:
  assumes "r < 65536"
  shows "hex4 (hex_digit (r div 4096) # hex_digit (r div 256 mod 16) # hex_digit (r div 16 mod 16) #
    hex_digit (r mod 16) # s) = Some r"
proof -
  define q p where "q = r div 16" and "p = q div 16"
  have e: "r div 256 = p" "r div 4096 = p div 16"
    by (simp_all add: p_def q_def div_mult2_eq [symmetric])
  have "r = q * 16 + r mod 16" "q = p * 16 + q mod 16" "p = p div 16 * 16 + p mod 16"
    by (simp_all add: p_def q_def)
  then have "r div 4096 * 4096 + r div 256 mod 16 * 256 + r div 16 mod 16 * 16 + r mod 16 = r"
    unfolding e q_def [symmetric] by linarith
  moreover have "r div 4096 < 16" using assms by (simp add: less_mult_imp_div_less)
  moreover have "hex4 (map hex_digit [a, b, c, d] @ s) = Some (a * 4096 + b * 256 + c * 16 + d)"
    if "a < 16" "b < 16" "c < 16" "d < 16" for a b c d
    using that by (simp add: hex4_def take4)
  from this [of "r div 4096" "r div 256 mod 16" "r div 16 mod 16" "r mod 16"]
  have "r div 4096 < 16 \<Longrightarrow> hex4 (hex_digit (r div 4096) # hex_digit (r div 256 mod 16) #
      hex_digit (r div 16 mod 16) # hex_digit (r mod 16) # s) =
    Some (r div 4096 * 4096 + r div 256 mod 16 * 256 + r div 16 mod 16 * 16 + r mod 16)"
    by simp
  ultimately show ?thesis by (simp only:)
qed

text \<open>A piece of a written string stands for one rune, whatever follows.\<close>

definition reads_rune :: "string \<Rightarrow> nat \<Rightarrow> bool" where
  "reads_rune p r \<longleftrightarrow> (\<forall>s. scan_string (p @ s) = map_option (\<lambda>(raw, t). (p @ raw, t)) (scan_string s) \<and>
    unquote (p @ s) = encode_rune r @ unquote s)"

lemma reads_escape_u:
  assumes "r < 65536" "\<not> is_surrogate r"
  shows "reads_rune (escape_u r) r"
  using hex4_digits [OF assms(1)] assms(2)
  by (simp add: reads_rune_def escape_u_def getu4_def take5 drop5 case_prod_unfold)

lemma reads_plain:
  assumes "html_safe b" "b < 128"
  shows "reads_rune [char_of b] b"
proof -
  have "char_of b \<noteq> dquote" "char_of b \<noteq> bslash" "\<not> b < 32"
    using assms by (auto simp: html_safe_def dest: arg_cong [of _ _ byte])
  moreover have "encode_rune b = [char_of b]" using assms(2) by (simp add: encode_rune_def encode_bytes_def)
  ultimately show ?thesis using assms(2)
    by (simp add: reads_rune_def decode_starts1 case_prod_unfold)
qed

lemma reads_short:
  assumes "c \<in> set [dquote, bslash, CHR ''b'', CHR ''f'', CHR ''n'', CHR ''r'', CHR ''t'']"
  shows "reads_rune [bslash, c] (byte (unescape_char c))"
proof -
  have "list_all (\<lambda>c. encode_rune (byte (unescape_char c)) = [unescape_char c] \<and> c \<noteq> CHR ''u'')
      [dquote, bslash, CHR ''b'', CHR ''f'', CHR ''n'', CHR ''r'', CHR ''t'']" by code_simp
  then have e: "encode_rune (byte (unescape_char c)) = [unescape_char c]" and u: "c \<noteq> CHR ''u''"
    using assms unfolding list_all_iff by blast+
  have "scan_string (bslash # c # s) = map_option (\<lambda>(raw, t). (bslash # c # raw, t)) (scan_string s)" for s
    using assms u by simp blast
  moreover have "getu4 (bslash # c # s) = None" for s using u by (simp add: getu4_def)
  then have "unquote (bslash # c # s) = unescape_char c # unquote s" for s by simp
  ultimately show ?thesis by (simp only: reads_rune_def e append_Cons append_Nil simp_thms)
qed

lemma reads_escape_ascii:
  assumes "b < 128"
  shows "reads_rune (escape_ascii b) b"
proof -
  have u: "reads_rune (escape_u b) b" using assms by (intro reads_escape_u) (simp_all add: is_surrogate_def)
  show ?thesis
    using u reads_plain [of b] assms reads_short [of dquote] reads_short [of bslash] reads_short [of "CHR ''b''"]
      reads_short [of "CHR ''f''"] reads_short [of "CHR ''n''"] reads_short [of "CHR ''r''"] reads_short [of "CHR ''t''"]
    by (auto simp: escape_ascii_def unescape_char_def)
qed

text \<open>The bytes of a rune from 128 on stand for themselves.\<close>

lemma scan_high:
  fixes bs :: "nat list"
  assumes "\<forall>b \<in> set bs. 128 \<le> b \<and> b < 256"
  shows "scan_string (map char_of bs @ s) = map_option (\<lambda>(raw, t). (map char_of bs @ raw, t)) (scan_string s)"
  using assms
proof (induction bs)
  case Nil
  then show ?case by (simp add: option.map_ident)
next
  case (Cons b bs)
  have "char_of b \<noteq> dquote" "char_of b \<noteq> bslash" "\<not> byte (char_of b :: char) < 32"
    using Cons.prems by (auto dest: arg_cong [of _ _ byte])
  then show ?case using Cons by (simp add: option.map_comp comp_def case_prod_unfold)
qed

lemma encode_high:
  assumes "128 \<le> r" "valid_rune r" "b \<in> set (encode_bytes r)"
  shows "128 \<le> b \<and> b < 256"
  using assms encode_bytes_small [OF assms(2,3)] by (auto simp: encode_bytes_def split: if_splits)

lemma reads_high:
  assumes "128 \<le> r" "valid_rune r"
  shows "reads_rune (map char_of (encode_bytes r)) r"
proof -
  obtain b bs where e: "encode_bytes r = b # bs" by (metis encode_bytes_nonempty neq_Nil_conv)
  have h: "\<forall>x \<in> set (b # bs). 128 \<le> x \<and> x < 256" using encode_high [OF assms] e by simp
  then have m: "map byte (map char_of (b # bs) :: string) = b # bs" by (simp add: map_idI)
  have "char_of b \<noteq> bslash" using h by (auto dest: arg_cong [of _ _ byte])
  moreover have "decode_bytes (map byte (map char_of (b # bs) @ s)) = (r, Suc (length bs))" for s :: string
    using decode_encode [OF assms(2), of "map byte s"] m by (simp add: e)
  ultimately have "unquote (map char_of (b # bs) @ s) = encode_rune r @ unquote s" for s
    by (simp add: drop_append)
  then show ?thesis using scan_high [OF h] by (simp only: reads_rune_def e simp_thms)
qed

text \<open>A decoded rune that was not an error was read from its encoding.\<close>

lemma decode_is_encoding:
  assumes "\<not> (fst (decode_bytes (b # bs)) = rune_error \<and> snd (decode_bytes (b # bs)) = 1)" 
  shows "take (snd (decode_bytes (b # bs))) (b # bs) = encode_bytes (fst (decode_bytes (b # bs)))"
  using assms
  by (cases rule: decode_cases [of b bs])
    (simp_all add: encode_sextets2 encode_sextets3 encode_sextets4 encode_bytes_def [of b])

lemma reads_escape_rune:
  "reads_rune (escape_rune (fst (decode_bytes (b # bs))) (take (snd (decode_bytes (b # bs))) (b # bs)))
    (fst (decode_bytes (b # bs)))"
proof -
  define r n where "r = fst (decode_bytes (b # bs))" and "n = snd (decode_bytes (b # bs))"
  have n: "n \<le> length (b # bs)" and v: "valid_rune r"
    using decode_width_le [of "b # bs"] decode_valid [of "b # bs"] by (simp_all add: n_def r_def)
  consider "r < 128" | "128 \<le> r" "r = rune_error \<and> n = 1 \<or> r = 8232 \<or> r = 8233"
    | "128 \<le> r" "\<not> (r = rune_error \<and> n = 1)" "r \<noteq> 8232" "r \<noteq> 8233" by fastforce
  then have "reads_rune (escape_rune r (take n (b # bs))) r"
  proof cases
    case 1
    then show ?thesis using reads_escape_ascii by (simp add: escape_rune_def)
  next
    case 2
    then have "escape_rune r (take n (b # bs)) = escape_u r" using n by (auto simp: escape_rune_def)
    moreover have "reads_rune (escape_u r) r"
      using 2 by (intro reads_escape_u) (auto simp: is_surrogate_def)
    ultimately show ?thesis by simp
  next
    case 3
    moreover have "take n (b # bs) = encode_bytes r"
      using 3 decode_is_encoding [of b bs] by (simp add: r_def n_def)
    moreover have "length (take n (b # bs)) = n" using n by simp
    ultimately have "escape_rune r (take n (b # bs)) = map char_of (encode_bytes r)"
      by (auto simp: escape_rune_def)
    then show ?thesis using reads_high [OF _ v] 3 by simp
  qed
  then show ?thesis by (simp add: r_def n_def)
qed

lemma reads_escape:
  "scan_string (escape_str bs @ dquote # s) = Some (escape_str bs, s) \<and>
   unquote (escape_str bs) = concat (map encode_rune (byte_runes bs))"
proof (induction bs rule: escape_str.induct)
  case (1 bs)
  show ?case
  proof (cases bs)
    case Nil
    then show ?thesis by (simp add: escape_str.simps byte_runes.simps)
  next
    case (Cons b cs)
    note IH = 1 [unfolded Cons, OF list.distinct(2)]
    show ?thesis unfolding Cons
      using reads_escape_rune [of b cs] IH
      by (subst (1 2 3) escape_str.simps, subst byte_runes.simps) (simp add: reads_rune_def)
  qed
qed

lemma tokens_quote [simp]: "tokens (json_quote s @ r) = TStr (to_valid s) # tokens r"
  using reads_escape [of "map byte s" r]
  by (simp add: json_quote_def lex_token_def json_space_def to_valid_def runes_def)

subsection \<open>Numbers\<close>

text \<open>What may follow a number: the end, or a byte that does not continue it.\<close>

definition ends :: "string \<Rightarrow> bool" where
  "ends s \<longleftrightarrow> s = [] \<or> \<not> is_digit (hd s) \<and> hd s \<notin> {CHR ''.'', CHR ''e'', CHR ''E''}"

lemma ends_simps [simp]: "ends []" "ends (CHR '','' # s)" "ends (CHR '']'' # s)" "ends (CHR ''}'' # s)"
  "ends (CHR 0x0A # s)"
  by (simp_all add: ends_def is_digit_def)

lemma frac_rest_ends: "ends s \<Longrightarrow> frac_rest s = Some s"
  by (auto simp: ends_def frac_rest_def expo_rest_def)

lemma digits_zero: "hd (digits n) = CHR ''0'' \<Longrightarrow> n = 0"
proof (induction n rule: digits.induct)
  case (1 n)
  show ?case
  proof (cases "n < 10")
    case True
    then have "byte (hd (digits n)) = 48 + n" by (subst digits.simps) (simp add: byte_digit)
    then show ?thesis using "1.prems" by simp
  next
    case False
    then have "hd (digits n) = hd (digits (n div 10))"
      by (subst digits.simps) simp
    then have "n div 10 = 0" using "1.IH" [OF False] "1.prems" by simp
    then show ?thesis using False by (simp add: div_eq_0_iff)
  qed
qed

lemma dropWhile_digits:
  "ends s \<Longrightarrow> (\<And>c. c \<in> set ds \<Longrightarrow> is_digit c) \<Longrightarrow> dropWhile is_digit (ds @ s) = s"
  by (induction ds) (auto simp: ends_def dropWhile_eq_self_iff)

lemma number_rest_digits:
  assumes "ends s"
  shows "number_rest (digits n @ s) = Some s \<and> number_rest (CHR ''-'' # digits n @ s) = Some s"
proof -
  obtain c cs where d: "digits n = c # cs" by (metis digits_not_Nil neq_Nil_conv)
  then have dig: "is_digit c" "\<And>x. x \<in> set cs \<Longrightarrow> is_digit x" using digits_set [of _ n] by auto
  have "c \<noteq> CHR ''-''" using digits_hd_sign [of n] d by auto
  moreover have "cs = []" if "c = CHR ''0''"
    using digits_zero [of n] d that by (simp add: digits.simps)
  ultimately show ?thesis
    using d dig(1) dropWhile_digits [OF assms dig(2)] frac_rest_ends [OF assms]
    by (auto simp: number_rest_def)
qed

lemma tokens_number:
  assumes "ends s"
  shows "tokens (big_String n @ s) = TNum (big_String n) # tokens s"
proof -
  obtain c cs where d: "big_String n = c # cs" by (metis big_String_def digits_not_Nil list.exhaust)
  have c: "c = CHR ''-'' \<or> is_digit c"
    using d digits_set [of c "nat n"] by (auto simp: big_String_def split: if_splits)
  then have "\<not> json_space c" and l: "c \<notin> set [CHR ''{'', CHR ''}'', CHR ''['', CHR '']'', CHR '','', CHR '':'', dquote,
      CHR ''t'', CHR ''f'', CHR ''n'']"
    by (auto simp: is_digit_def json_space_def)
  moreover have "number_rest (big_String n @ s) = Some s"
    using number_rest_digits [OF assms] by (simp add: big_String_def)
  then have "number_rest (c # cs @ s) = Some s" by (simp add: d)
  ultimately show ?thesis unfolding d by (simp add: lex_token_def)
qed

subsection \<open>Values\<close>

fun tjoin :: "token list list \<Rightarrow> token list" where
  "tjoin [] = []"
| "tjoin [t] = t"
| "tjoin (t # u # ts) = t @ Comma # tjoin (u # ts)"

fun toks :: "json \<Rightarrow> token list" where
  "toks JNull = [TNull]"
| "toks (JBool b) = [if b then TTrue else TFalse]"
| "toks (JNum n) = [TNum (big_String n)]"
| "toks (JStr s) = [TStr (to_valid s)]"
| "toks (JArr xs) = LBrack # tjoin (map toks xs) @ [RBrack]"
| "toks (JObj kvs) = LBrace # tjoin (map (\<lambda>(k, v). TStr (to_valid k) # Colon # toks v) kvs) @ [RBrace]"
| "toks (JMap kvs) = LBrace # tjoin (map snd (sort_key fst
    (map (\<lambda>(k, v). (k, TStr (to_valid k) # Colon # toks v)) kvs))) @ [RBrace]"

text \<open>A map is written and read as the struct with its fields in the order of their keys.\<close>

lemma insort_key_map: "insort_key fst (k, f (k, v)) (map (\<lambda>z. (fst z, f z)) xs) =
    map (\<lambda>z. (fst z, f z)) (insort_key fst (k, v) xs)"
  by (induction xs) auto

lemma sort_map_entries:
  "map snd (sort_key fst (map (\<lambda>(k, v). (k, f k v)) kvs)) = map (\<lambda>(k, v). f k v) (sort_key fst kvs)"
proof -
  have "sort_key fst (map (\<lambda>z. (fst z, f (fst z) (snd z))) kvs) =
      map (\<lambda>z. (fst z, f (fst z) (snd z))) (sort_key fst kvs)"
    using insort_key_map [where f = "\<lambda>z. f (fst z) (snd z)"]
    by (induction kvs) (auto simp: split_paired_all)
  then show ?thesis by (simp add: case_prod_unfold comp_def)
qed

lemma json_map_obj:
  "json_encode (JMap kvs) = json_encode (JObj (sort_key fst kvs))"
  "toks (JMap kvs) = toks (JObj (sort_key fst kvs))"
  "raw_of (JMap kvs) = raw_of (JObj (sort_key fst kvs))"
  "json_depth (JMap kvs) = json_depth (JObj (sort_key fst kvs))"
  by (simp_all only: json_encode.simps toks.simps raw_of.simps json_depth.simps sort_map_entries set_map set_sort)

lemma tokens_join:
  assumes "\<And>x s. x \<in> set xs \<Longrightarrow> ends s \<Longrightarrow> tokens (f x @ s) = g x @ tokens s" "ends s"
  shows "tokens (comma_join (map f xs) @ s) = tjoin (map g xs) @ tokens s"
  using assms
proof (induction xs rule: induct_list012)
  case (3 x y zs)
  have "tokens (f x @ CHR '','' # comma_join (map f (y # zs)) @ s) =
      g x @ Comma # tokens (comma_join (map f (y # zs)) @ s)"
    using "3.prems"(1) [of x] by (simp add: json_space_def lex_token_def)
  with 3 show ?case by simp
qed simp_all

lemma tokens_word:
  "tokens (''null'' @ s) = TNull # tokens s" "tokens (''true'' @ s) = TTrue # tokens s"
  "tokens (''false'' @ s) = TFalse # tokens s"
  by (simp_all add: json_space_def lex_token_def lex_word_def)

lemma tokens_punct:
  "tokens (CHR ''{'' # s) = LBrace # tokens s" "tokens (CHR ''}'' # s) = RBrace # tokens s"
  "tokens (CHR ''['' # s) = LBrack # tokens s" "tokens (CHR '']'' # s) = RBrack # tokens s"
  "tokens (CHR '':'' # s) = Colon # tokens s"
  by (simp_all add: json_space_def lex_token_def)

lemma tokens_object:
  assumes "\<And>k v s. (k, v) \<in> set kvs \<Longrightarrow> ends s \<Longrightarrow> tokens (json_encode v @ s) = toks v @ tokens s"
  shows "tokens (json_encode (JObj kvs) @ s) = toks (JObj kvs) @ tokens s"
  using tokens_join [of kvs "\<lambda>(k, v). json_quote k @ CHR '':'' # json_encode v"
      "\<lambda>(k, v). TStr (to_valid k) # Colon # toks v" "CHR ''}'' # s"] assms
  by (simp add: tokens_punct del: tokens.simps) (auto simp: tokens_punct simp del: tokens.simps)

lemma tokens_encode: "ends s \<Longrightarrow> tokens (json_encode j @ s) = toks j @ tokens s"
proof (induction j arbitrary: s rule: json_encode.induct)
  case (3 n)
  then show ?case by (simp add: tokens_number del: tokens.simps)
next
  case (5 xs)
  have "tokens (comma_join (map json_encode xs) @ CHR '']'' # s) = tjoin (map toks xs) @ tokens (CHR '']'' # s)"
    by (rule tokens_join) (simp_all add: 5)
  then show ?case by (simp add: tokens_punct del: tokens.simps)
next
  case (6 kvs)
  show ?case by (rule tokens_object) (use 6 in auto)
next
  case (7 kvs)
  show ?case unfolding json_map_obj by (rule tokens_object) (use 7 in auto)
qed (simp_all add: tokens_word [unfolded append.simps] del: tokens.simps)

subsection \<open>The state machine\<close>

definition resume :: "outcome \<Rightarrow> token list \<Rightarrow> jraw option" where
  "resume out ts = (case out of Stuck \<Rightarrow> None | Finished v \<Rightarrow> Some v | More m st \<Rightarrow> scan_run ts m st)"

lemma scan_run_Cons: "scan_run (t # ts) m st = resume (scan_step t m st) ts"
  by (simp add: resume_def split: outcome.split)

lemma resume_More [simp]: "resume (More m st) ts = scan_run ts m st"
  by (simp add: resume_def)

declare scan_run.simps(2) [simp del] scan_run_Cons [simp]

lemma toks_begin: "\<exists>t ts. toks j = t # ts \<and> t \<noteq> RBrack"
  by (cases j) auto

lemma run_elements:
  assumes "\<And>x vs ts. x \<in> set xs \<Longrightarrow> scan_run (toks x @ ts) Value (In_array vs # st) =
      scan_run ts After_element (In_array (raw_of x # vs) # st)" "xs \<noteq> []"
  shows "scan_run (tjoin (map toks xs) @ RBrack # ts) Value (In_array vs # st) =
    resume (value_done (RArr (rev vs @ map raw_of xs)) st) ts"
  using assms
proof (induction xs arbitrary: vs rule: induct_list012)
  case (3 x y zs)
  show ?case using "3.IH"(2) [of "raw_of x # vs"] "3.prems"(1) by (simp add: scan_step_def)
qed (simp_all add: scan_step_def)

lemma run_members:
  assumes "\<And>x vs k ts. x \<in> set xs \<Longrightarrow> scan_run (toks (snd x) @ ts) Value (In_object vs k # st) =
      scan_run ts After_member (In_object ((k, raw_of (snd x)) # vs) [] # st)" "xs \<noteq> []" "m \<in> {Key_or_close, Key_only}"
  shows "scan_run (tjoin (map (\<lambda>(k, v). TStr (to_valid k) # Colon # toks v) xs) @ RBrace # ts) m (In_object vs k # st) =
    resume (value_done (RObj (rev vs @ map (\<lambda>(k, v). (to_valid k, raw_of v)) xs)) st) ts"
  using assms
proof (induction xs arbitrary: vs k m rule: induct_list012)
  case (3 x y zs)
  obtain k1 v1 where x: "x = (k1, v1)" by (cases x)
  have "scan_run ((TStr (to_valid k1) # Colon # toks v1) @ us) m (In_object vs k # st) =
      scan_run us After_member (In_object ((to_valid k1, raw_of v1) # vs) [] # st)" for us
    using "3.prems"(1) [of x us vs "to_valid k1"] "3.prems"(3) by (auto simp: scan_step_def x)
  with "3.IH"(2) [of Key_only "(to_valid k1, raw_of v1) # vs" "[]"] "3.prems"(1) show ?case
    by (simp add: x scan_step_def)
next
  case (2 x)
  obtain k1 v1 where x: "x = (k1, v1)" by (cases x)
  show ?case using "2.prems"(1) [of x _ vs "to_valid k1"] "2.prems"(3) by (auto simp: scan_step_def x)
qed simp

lemma le_Max_image: "x \<in> set ys \<Longrightarrow> (f x :: nat) \<le> Max (insert 0 (f ` set ys))"
  by (rule Max_ge) auto

lemma depth_element:
  "x \<in> set xs \<Longrightarrow> n + json_depth (JArr xs) \<le> m \<Longrightarrow> Suc n + json_depth x \<le> m"
  "(k, v) \<in> set kvs \<Longrightarrow> n + json_depth (JObj kvs) \<le> m \<Longrightarrow> Suc n + json_depth v \<le> m"
  using le_Max_image [of x xs json_depth] le_Max_image [of "(k, v)" kvs "\<lambda>(k, v). json_depth v"]
  unfolding json_depth.simps set_map prod.case by linarith+

lemma run_object:
  assumes "\<And>k v st ts. (k, v) \<in> set kvs \<Longrightarrow> length st + json_depth v \<le> maxNestingDepth \<Longrightarrow>
      scan_run (toks v @ ts) Value st = resume (value_done (raw_of v) st) ts"
    "length st + json_depth (JObj kvs) \<le> maxNestingDepth"
  shows "scan_run (toks (JObj kvs) @ ts) Value st = resume (value_done (raw_of (JObj kvs)) st) ts"
proof -
  have "length st < maxNestingDepth" using assms(2) by simp
  moreover have "scan_run (toks (snd x) @ us) Value (In_object vs k # st) =
      scan_run us After_member (In_object ((k, raw_of (snd x)) # vs) [] # st)" if "x \<in> set kvs" for x us vs k
    using assms(1) [of "fst x" "snd x" "In_object vs k # st"] depth_element(2) [OF _ assms(2), of "fst x" "snd x"] that
    by simp
  ultimately show ?thesis
    using run_members [of kvs st Key_or_close ts "[]" "[]"]
    by (cases "kvs = []") (auto simp: scan_step_def open_frame_def)
qed

lemma scan_run_value:
  "length st + json_depth j \<le> maxNestingDepth \<Longrightarrow>
    scan_run (toks j @ ts) Value st = resume (value_done (raw_of j) st) ts"
proof (induction j arbitrary: st ts rule: json_encode.induct)
  case (5 xs)
  have "length st < maxNestingDepth" using "5.prems" by simp
  then have o: "scan_run (toks (JArr xs) @ ts) Value st =
      scan_run (tjoin (map toks xs) @ RBrack # ts) Value_or_close (In_array [] # st)"
    by (simp add: scan_step_def open_frame_def)
  show ?case
  proof (cases xs)
    case Nil
    then show ?thesis using o by (simp add: scan_step_def)
  next
    case (Cons x ys)
    obtain t us where t: "toks x = t # us" "t \<noteq> RBrack" using toks_begin by blast
    have "\<exists>vs. tjoin (map toks xs) = t # vs" using Cons t by (cases ys) simp_all
    then have "scan_run (tjoin (map toks xs) @ RBrack # ts) Value_or_close (In_array [] # st) =
        scan_run (tjoin (map toks xs) @ RBrack # ts) Value (In_array [] # st)"
      using t(2) by (auto simp: scan_step_def)
    moreover have "scan_run (toks x @ ts) Value (In_array vs # st) =
        scan_run ts After_element (In_array (raw_of x # vs) # st)" if "x \<in> set xs" for x vs ts
      using "5.IH" [OF that, of "In_array vs # st" ts] depth_element(1) [OF that "5.prems"] by simp
    ultimately show ?thesis using run_elements [of xs st ts "[]"] o Cons by simp
  qed
next
  case (6 kvs)
  show ?case by (rule run_object) (use 6 in auto)
next
  case (7 kvs)
  show ?case unfolding json_map_obj
  proof (rule run_object)
    show "length st + json_depth (JObj (sort_key fst kvs)) \<le> maxNestingDepth"
      using "7.prems" by (simp only: json_map_obj)
  qed (use 7 in auto)
qed (auto simp: scan_step_def)

text \<open>What is written is one JSON value, which reads back as what it stands for.\<close>

lemma json_parse_encode:
  assumes "json_depth j \<le> maxNestingDepth" "ends s"
  shows "json_parse (json_encode j @ s) = Some (raw_of j)"
  using scan_run_value [of "[]" j "tokens s"] tokens_encode [OF assms(2), of j] assms(1)
  by (simp add: json_parse_def resume_def)

text \<open>Bounds on the nesting of a value.\<close>

lemma json_depth_le [simp]:
  "json_depth (JArr xs) \<le> n \<longleftrightarrow> 0 < n \<and> (\<forall>x \<in> set xs. json_depth x \<le> n - 1)"
  "json_depth (JObj kvs) \<le> n \<longleftrightarrow> 0 < n \<and> (\<forall>(k, v) \<in> set kvs. json_depth v \<le> n - 1)"
  "json_depth (JMap kvs) \<le> n \<longleftrightarrow> 0 < n \<and> (\<forall>(k, v) \<in> set kvs. json_depth v \<le> n - 1)"
  by (cases n; auto)+

declare json_depth.simps(1-3) [simp del]

section \<open>Values are no larger than their text\<close>

fun jnodes :: "jraw \<Rightarrow> nat" where
  "jnodes (RArr vs) = Suc (sum_list (map jnodes vs))"
| "jnodes (RObj kvs) = Suc (sum_list (map (\<lambda>(k, v). jnodes v) kvs))"
| "jnodes _ = 1"

fun frame_nodes :: "frame \<Rightarrow> nat" where
  "frame_nodes (In_array vs) = Suc (sum_list (map jnodes vs))"
| "frame_nodes (In_object kvs k) = Suc (sum_list (map (\<lambda>(k, v). jnodes v) kvs))"

abbreviation stack_nodes :: "frame list \<Rightarrow> nat" where
  "stack_nodes st \<equiv> sum_list (map frame_nodes st)"

definition outcome_nodes :: "outcome \<Rightarrow> nat" where
  "outcome_nodes r = (case r of Stuck \<Rightarrow> 0 | Finished v \<Rightarrow> jnodes v | More m st \<Rightarrow> stack_nodes st)"

lemma nodes_value_done: "outcome_nodes (value_done v st) \<le> jnodes v + stack_nodes st"
  by (cases "(v, st)" rule: value_done.cases) (simp_all add: outcome_nodes_def)

lemma nodes_close_frame: "outcome_nodes (close_frame st) \<le> stack_nodes st"
proof (cases st rule: close_frame.cases)
  case (1 vs st)
  then show ?thesis using nodes_value_done [of "RArr (rev vs)" st] by (simp add: rev_map [symmetric] sum_list_rev)
next
  case (2 kvs k st)
  then show ?thesis using nodes_value_done [of "RObj (rev kvs)" st] by (simp add: rev_map [symmetric] sum_list_rev)
qed (simp add: outcome_nodes_def)

lemma nodes_begin_value: "outcome_nodes (begin_value t st) \<le> Suc (stack_nodes st)"
  using nodes_value_done [of RNull st] nodes_value_done [of "RBool b" st for b]
    nodes_value_done [of "RStr s" st for s] nodes_value_done [of "RNum s" st for s]
  by (cases t) (auto simp: open_frame_def outcome_nodes_def)

lemma nodes_begin_key: "outcome_nodes (begin_key t st) \<le> stack_nodes st"
  by (cases "(t, st)" rule: begin_key.cases) (simp_all add: outcome_nodes_def)

lemma nodes_scan_step: "outcome_nodes (scan_step t m st) \<le> Suc (stack_nodes st)"
  using nodes_begin_value [of t st] nodes_begin_key [of t st] nodes_close_frame [of st]
  by (auto simp: scan_step_def outcome_nodes_def [of Stuck] outcome_nodes_def [of "More m' st" for m']
      split: mode.split)

lemma nodes_scan_run: "scan_run ts m st = Some v \<Longrightarrow> jnodes v \<le> stack_nodes st + length ts"
proof (induction ts arbitrary: m st)
  case (Cons t ts)
  show ?case
  proof (cases "scan_step t m st")
    case (More m' st')
    then show ?thesis using Cons.IH [of m' st'] Cons.prems nodes_scan_step [of t m st]
      by (simp add: outcome_nodes_def resume_More)
  qed (use Cons.prems nodes_scan_step [of t m st] in \<open>simp_all add: outcome_nodes_def resume_def\<close>)
qed simp

lemma length_tokens: "length (tokens s) \<le> length s"
proof (induction s rule: tokens.induct)
  case (2 c cs)
  show ?case
  proof (cases "json_space c")
    case False
    obtain t r where tr: "lex_token c cs = (t, r)" by fastforce
    then show ?thesis using 2(2) [OF False tr [symmetric]] lex_length [OF tr] False by simp
  qed (use 2(1) in simp)
qed simp

lemma json_parse_nodes: "json_parse s = Some v \<Longrightarrow> jnodes v \<le> length s"
  using nodes_scan_run [of "tokens s" Value "[]" v] length_tokens [of s] by (simp add: json_parse_def)

lemma jnodes_pos: "0 < jnodes v"
  by (cases v) simp_all

lemma length_le_nodes: "length vs \<le> jnodes (RArr vs)"
proof -
  have "length vs \<le> sum_list (map jnodes vs)"
  proof (induction vs)
    case (Cons v vs)
    then show ?case using jnodes_pos [of v] by simp
  qed simp
  then show ?thesis by simp
qed

lemma member_nodes: "(k, v) \<in> set kvs \<Longrightarrow> jnodes v \<le> jnodes (RObj kvs)"
  using member_le_sum_list [of "jnodes v" "map (\<lambda>(k, v). jnodes v) kvs"] by force

end
