(* ===== verification/Bodies.thy ===== *)
theory Bodies
  imports Json
begin

text \<open>
  \<open>decode\<close> of \<open>internal/api/api.go\<close>: a request body of at most one megabyte is read as one JSON value
  and stored into the fields of a struct, which start out zero. A field is found by its name, or by
  its name up to case folding; \<open>null\<close> leaves it alone, a value of another type fails the request;
  unknown members and what follows the value are ignored. One definition per handler's struct. The
  lemmas show that the bodies a client writes for these structs are read as meant.
\<close>

section \<open>Fields\<close>

text \<open>A slice of strings is the cells written so far of its array and its length.\<close>

datatype slot = F_str string | F_bool bool | F_int int | F_strs "string list" nat

type_synonym fields = "(string \<times> slot) list"

definition store_cell :: "string \<Rightarrow> jraw \<Rightarrow> string option" where
  "store_cell old v = (case v of RStr s \<Rightarrow> Some s | RNull \<Rightarrow> Some old | _ \<Rightarrow> None)"

text \<open>An element is decoded into its cell: \<open>null\<close> keeps what an earlier array left there.\<close>

fun store_cells :: "string list \<Rightarrow> jraw list \<Rightarrow> string list option" where
  "store_cells cells [] = Some cells"
| "store_cells cells (v # vs) =
    (case store_cell (case cells of [] \<Rightarrow> [] | c # _ \<Rightarrow> c) v of
       None \<Rightarrow> None
     | Some s \<Rightarrow> map_option ((#) s) (store_cells (drop 1 cells) vs))"

definition store_strs :: "string list \<Rightarrow> nat \<Rightarrow> jraw \<Rightarrow> slot option" where
  "store_strs cells n v =
    (case v of
       RNull \<Rightarrow> Some (F_strs [] 0)
     | RArr vs \<Rightarrow> (if vs = [] then Some (F_strs [] 0)
                  else map_option (\<lambda>cs. F_strs cs (length vs)) (store_cells cells vs))
     | _ \<Rightarrow> None)"

definition store_slot :: "slot \<Rightarrow> jraw \<Rightarrow> slot option" where
  "store_slot x v =
    (case x of
       F_str s \<Rightarrow> (case v of RNull \<Rightarrow> Some x | RStr t \<Rightarrow> Some (F_str t) | _ \<Rightarrow> None)
     | F_bool b \<Rightarrow> (case v of RNull \<Rightarrow> Some x | RBool c \<Rightarrow> Some (F_bool c) | _ \<Rightarrow> None)
     | F_int n \<Rightarrow> (case v of RNull \<Rightarrow> Some x | RNum t \<Rightarrow> map_option F_int (Atoi t) | _ \<Rightarrow> None)
     | F_strs cells n \<Rightarrow> store_strs cells n v)"

text \<open>Folding a name to the smallest rune of every class: beyond ASCII only the long s and the
  Kelvin sign have an ASCII letter in their class.\<close>

definition fold_rune :: "nat \<Rightarrow> nat" where
  "fold_rune r = (if 97 \<le> r \<and> r \<le> 122 then r - 32 else if r = 383 then 83 else if r = 8490 then 75 else r)"

definition fold_name :: "string \<Rightarrow> nat list" where
  "fold_name k = map fold_rune (runes k)"

definition find_field :: "fields \<Rightarrow> string \<Rightarrow> string option" where
  "find_field fs k =
    (if map_of fs k \<noteq> None then Some k
     else map_option fst (List.find (\<lambda>(f, _). fold_name f = fold_name k) fs))"

fun store_members :: "fields \<Rightarrow> (string \<times> jraw) list \<Rightarrow> fields option" where
  "store_members fs [] = Some fs"
| "store_members fs ((k, v) # kvs) =
    (case find_field fs k of
       None \<Rightarrow> store_members fs kvs
     | Some f \<Rightarrow>
         (case Option.bind (map_of fs f) (\<lambda>x. store_slot x v) of
            None \<Rightarrow> None | Some x \<Rightarrow> store_members (AList.update f x fs) kvs))"

section \<open>The body\<close>

definition bodyLimit :: nat where
  "bodyLimit = 2 ^ 20"

text \<open>
  The reader fails behind the limit; the value must end before it, and the end of a bare \<open>null\<close> is
  only seen with the byte that follows.
\<close>

definition body_value :: "string \<Rightarrow> jraw option" where
  "body_value body =
    (if bodyLimit < length body \<and> dropWhile json_space (take bodyLimit body) = ''null'' then None
     else json_parse (take bodyLimit body))"

definition decode :: "fields \<Rightarrow> string \<Rightarrow> fields option" where
  "decode fs body =
    (case body_value body of
       Some RNull \<Rightarrow> Some fs | Some (RObj kvs) \<Rightarrow> store_members fs kvs | _ \<Rightarrow> None)"

definition str_field :: "fields \<Rightarrow> string \<Rightarrow> string" where
  "str_field fs f = (case map_of fs f of Some (F_str s) \<Rightarrow> s | _ \<Rightarrow> [])"

definition bool_field :: "fields \<Rightarrow> string \<Rightarrow> bool" where
  "bool_field fs f = (case map_of fs f of Some (F_bool b) \<Rightarrow> b | _ \<Rightarrow> False)"

definition int_field :: "fields \<Rightarrow> string \<Rightarrow> int" where
  "int_field fs f = (case map_of fs f of Some (F_int n) \<Rightarrow> n | _ \<Rightarrow> 0)"

definition strs_field :: "fields \<Rightarrow> string \<Rightarrow> string list" where
  "strs_field fs f = (case map_of fs f of Some (F_strs cells n) \<Rightarrow> take n cells | _ \<Rightarrow> [])"

section \<open>The structs of the handlers\<close>

definition decode_score :: "string \<Rightarrow> (string \<times> string list) option" where
  "decode_score body =
    map_option (\<lambda>fs. (str_field fs ''letters'', strs_field fs ''words''))
      (decode [(''letters'', F_str []), (''words'', F_strs [] 0)] body)"

definition decode_daily :: "string \<Rightarrow> (string \<times> string list) option" where
  "decode_daily body =
    map_option (\<lambda>fs. (str_field fs ''address'', strs_field fs ''words''))
      (decode [(''address'', F_str []), (''words'', F_strs [] 0)] body)"

definition decode_open :: "string \<Rightarrow> (string \<times> int \<times> string) option" where
  "decode_open body =
    map_option (\<lambda>fs. (str_field fs ''roundId'', int_field fs ''endTime'', str_field fs ''dateKey''))
      (decode [(''roundId'', F_str []), (''endTime'', F_int 0), (''dateKey'', F_str [])] body)"

definition decode_pool :: "string \<Rightarrow> (string \<times> int) option" where
  "decode_pool body =
    map_option (\<lambda>fs. (str_field fs ''entryFee'', int_field fs ''days''))
      (decode [(''entryFee'', F_str []), (''days'', F_int 0)] body)"

definition decode_settlement :: "string \<Rightarrow> (string \<times> string list \<times> string list) option" where
  "decode_settlement body =
    map_option (\<lambda>fs. (str_field fs ''roundId'', strs_field fs ''winners'', strs_field fs ''amounts''))
      (decode [(''roundId'', F_str []), (''winners'', F_strs [] 0), (''amounts'', F_strs [] 0)] body)"

definition decode_create :: "string \<Rightarrow> (string \<times> string \<times> bool \<times> string) option" where
  "decode_create body =
    map_option (\<lambda>fs. (str_field fs ''playerId'', str_field fs ''name'', bool_field fs ''public'', str_field fs ''stake''))
      (decode [(''playerId'', F_str []), (''name'', F_str []), (''public'', F_bool False), (''stake'', F_str [])] body)"

definition decode_join :: "string \<Rightarrow> (string \<times> string \<times> string) option" where
  "decode_join body =
    map_option (\<lambda>fs. (str_field fs ''code'', str_field fs ''playerId'', str_field fs ''name''))
      (decode [(''code'', F_str []), (''playerId'', F_str []), (''name'', F_str [])] body)"

definition decode_start :: "string \<Rightarrow> (string \<times> string) option" where
  "decode_start body =
    map_option (\<lambda>fs. (str_field fs ''code'', str_field fs ''playerId''))
      (decode [(''code'', F_str []), (''playerId'', F_str [])] body)"

definition decode_submit :: "string \<Rightarrow> (string \<times> string \<times> string) option" where
  "decode_submit body =
    map_option (\<lambda>fs. (str_field fs ''code'', str_field fs ''playerId'', str_field fs ''word''))
      (decode [(''code'', F_str []), (''playerId'', F_str []), (''word'', F_str [])] body)"

section \<open>Bodies that clients write\<close>

text \<open>A client's value for a field.\<close>

fun slot_json :: "slot \<Rightarrow> json" where
  "slot_json (F_str s) = JStr s"
| "slot_json (F_bool b) = JBool b"
| "slot_json (F_int n) = JNum n"
| "slot_json (F_strs ws n) = JArr (map JStr ws)"

text \<open>A struct's field after that value was stored: strings as valid UTF-8.\<close>

fun stored :: "slot \<Rightarrow> slot" where
  "stored (F_str s) = F_str (to_valid s)"
| "stored (F_bool b) = F_bool b"
| "stored (F_int n) = F_int n"
| "stored (F_strs ws n) = F_strs (map to_valid ws) (length ws)"

fun same_kind :: "slot \<Rightarrow> slot \<Rightarrow> bool" where
  "same_kind (F_str _) (F_str s) \<longleftrightarrow> s = []"
| "same_kind (F_bool _) (F_bool b) \<longleftrightarrow> \<not> b"
| "same_kind (F_int n) (F_int z) \<longleftrightarrow> z = 0 \<and> - (2 ^ 63) \<le> n \<and> n < 2 ^ 63"
| "same_kind (F_strs _ _) (F_strs cs n) \<longleftrightarrow> cs = [] \<and> n = 0"
| "same_kind _ _ \<longleftrightarrow> False"

lemma store_cells_strs: "store_cells [] (map RStr ws) = Some ws"
  by (induction ws) (simp_all add: store_cell_def)

lemma store_slot_json: "same_kind y x \<Longrightarrow> store_slot x (raw_of (slot_json y)) = Some (stored y)"
  by (cases "(y, x)" rule: same_kind.cases)
    (auto simp: store_slot_def store_strs_def Atoi_def SetString_String comp_def
      store_cells_strs [of "map to_valid ws" for ws, simplified comp_def map_map])

text \<open>The client's members fit the fields: known names, each at most once, values of their types.\<close>

definition fits :: "(string \<times> slot) list \<Rightarrow> fields \<Rightarrow> bool" where
  "fits kvs fs \<longleftrightarrow> distinct (map fst kvs) \<and>
    (\<forall>(k, y) \<in> set kvs. to_valid k = k \<and> (\<exists>x. map_of fs k = Some x \<and> same_kind y x))"

lemma store_members_fits:
  assumes "fits kvs fs"
  shows "\<exists>fs'. store_members fs (map (\<lambda>(k, y). (to_valid k, raw_of (slot_json y))) kvs) = Some fs' \<and>
    map fst fs' = map fst fs \<and> map_of fs' = map_of fs ++ (map_option stored \<circ> map_of kvs)"
  using assms
proof (induction kvs arbitrary: fs)
  case Nil
  then show ?case by (auto simp: map_add_def)
next
  case (Cons z kvs)
  obtain k y where z: "z = (k, y)" by (cases z)
  have k: "to_valid k = k" "k \<notin> fst ` set kvs" using Cons.prems by (simp_all add: fits_def z)
  obtain x where x: "map_of fs k = Some x" "same_kind y x" using Cons.prems by (auto simp: fits_def z)
  let ?fs = "AList.update k (stored y) fs"
  have "fits kvs ?fs" using Cons.prems k(2) by (force simp: fits_def z update_conv')
  from Cons.IH [OF this] obtain fs' where fs': "map fst fs' = map fst ?fs" "map_of fs' = map_of ?fs ++ (map_option stored \<circ> map_of kvs)"
    "store_members ?fs (map (\<lambda>(k, y). (to_valid k, raw_of (slot_json y))) kvs) = Some fs'" by blast
  have "map_of kvs k = None" using k(2) by (simp add: map_of_eq_None_iff)
  then have e: "map_of fs' = map_of fs ++ (map_option stored \<circ> map_of (z # kvs))"
    unfolding fs'(2) z by (auto simp: fun_eq_iff map_add_def update_conv' split: option.split)
  have "store_members fs (map (\<lambda>(k, y). (to_valid k, raw_of (slot_json y))) (z # kvs)) = Some fs'"
    using fs'(3) x by (simp add: z k(1) find_field_def store_slot_json)
  moreover have "map fst fs' = map fst fs"
    using fs'(1) map_of_SomeD [OF x(1)] by (force simp: update_keys)
  ultimately show ?case using e by blast
qed

text \<open>A body with any of the fields, in any order, is read as those fields; the others stay zero.\<close>

lemma decode_fits:
  assumes "fits kvs fs" "ends s"
    "length (json_encode (JObj (map (\<lambda>(k, y). (k, slot_json y)) kvs)) @ s) \<le> bodyLimit"
  shows "\<exists>fs'. decode fs (json_encode (JObj (map (\<lambda>(k, y). (k, slot_json y)) kvs)) @ s) = Some fs' \<and>
    map fst fs' = map fst fs \<and> map_of fs' = map_of fs ++ (map_option stored \<circ> map_of kvs)"
proof -
  let ?j = "JObj (map (\<lambda>(k, y). (k, slot_json y)) kvs)"
  have "json_depth (slot_json y) \<le> 9999" for y by (cases y) auto
  then have "json_depth ?j \<le> maxNestingDepth" by (auto simp: maxNestingDepth_def)
  then have "json_parse (json_encode ?j @ s) = Some (raw_of ?j)" by (rule json_parse_encode [OF _ assms(2)])
  then have "body_value (json_encode ?j @ s) = Some (raw_of ?j)"
    using assms(3) unfolding body_value_def by (simp del: json_encode.simps raw_of.simps)
  moreover have "raw_of ?j = RObj (map (\<lambda>(k, y). (to_valid k, raw_of (slot_json y))) kvs)"
    by (simp add: comp_def case_prod_unfold)
  ultimately have "decode fs (json_encode ?j @ s) =
      store_members fs (map (\<lambda>(k, y). (to_valid k, raw_of (slot_json y))) kvs)"
    by (simp only: decode_def option.case jraw.case)
  then show ?thesis using store_members_fits [OF assms(1)] by (simp only:)
qed

section \<open>Bodies are small\<close>

text \<open>No slice of strings read from a body is longer than the body limit.\<close>

definition strs_le :: "nat \<Rightarrow> fields \<Rightarrow> bool" where
  "strs_le B fs \<longleftrightarrow> (\<forall>f cells n. map_of fs f = Some (F_strs cells n) \<longrightarrow> n \<le> B)"

lemma store_slot_length: "store_slot x v = Some (F_strs cells n) \<Longrightarrow> jnodes v \<le> B \<Longrightarrow> n \<le> B"
  using length_le_nodes
  by (auto simp: store_slot_def store_strs_def split: slot.splits jraw.splits if_splits)
    (metis jnodes.simps(1) order_trans)+

lemma strs_le_members:
  assumes "strs_le B fs" "store_members fs kvs = Some fs'" "\<forall>(k, v) \<in> set kvs. jnodes v \<le> B"
  shows "strs_le B fs'"
  using assms
proof (induction fs kvs rule: store_members.induct)
  case (2 fs k v kvs)
  show ?case
  proof (cases "find_field fs k")
    case (Some f)
    then obtain y where y: "Option.bind (map_of fs f) (\<lambda>x. store_slot x v) = Some y"
      "store_members (AList.update f y fs) kvs = Some fs'" using 2 by (auto split: option.splits)
    then have "y = F_strs cells n \<Longrightarrow> n \<le> B" for cells n
      using store_slot_length 2 by (auto simp: bind_eq_Some_conv)
    then have "strs_le B (AList.update f y fs)" using 2 by (auto simp: strs_le_def update_conv')
    then show ?thesis using 2 Some y by simp
  qed (use 2 in simp)
qed simp

lemma strs_le_decode: "decode fs body = Some fs' \<Longrightarrow> strs_le bodyLimit fs \<Longrightarrow> strs_le bodyLimit fs'"
proof -
  assume d: "decode fs body = Some fs'" and fs: "strs_le bodyLimit fs"
  obtain v where v: "body_value body = Some v" using d by (auto simp: decode_def split: option.splits)
  then have "jnodes v \<le> bodyLimit"
    using json_parse_nodes [of "take bodyLimit body" v] by (simp add: body_value_def split: if_splits)
  then have "\<forall>(k, w) \<in> set kvs. jnodes w \<le> bodyLimit" if "v = RObj kvs" for kvs
    using that member_nodes by fastforce
  then show ?thesis using d v fs strs_le_members [OF fs] by (auto simp: decode_def split: jraw.splits)
qed

lemma decode_daily_length: "decode_daily body = Some (a, ws) \<Longrightarrow> length ws \<le> bodyLimit"
proof -
  assume "decode_daily body = Some (a, ws)"
  then obtain fs where fs: "decode [(''address'', F_str []), (''words'', F_strs [] 0)] body = Some fs"
    "ws = strs_field fs ''words''" by (auto simp: decode_daily_def)
  have "strs_le bodyLimit [(''address'', F_str []), (''words'', F_strs [] 0)]" by (simp add: strs_le_def)
  from strs_le_decode [OF fs(1) this] show ?thesis
    by (auto simp: fs(2) strs_field_def strs_le_def min.coboundedI2 split: option.split slot.split)
qed

end
