(* ===== verification/Api.thy ===== *)
theory Api
  imports Grid Db Json Room_Properties
begin

text \<open>
  \<open>internal/api/api.go\<close>: the HTTP handlers. A handler is a function of what it takes from the
  request (the decoded body is an option, \<open>None\<close> when decoding fails: theory \<open>Bodies\<close>), of the clock readings it
  makes and of the server's state, and returns a status with a JSON body; \<open>None\<close> in place of a
  response is a panic, which the HTTP server turns into a dropped connection. Chain calls of
  handlers and rooms share the state of the outside world kept in the room manager.
\<close>

section \<open>State\<close>

type_synonym response = "nat \<times> json"

record Config =
  SoloRackSize :: int
  SoloGridSize :: int
  DailyRackSize :: int
  AdminToken :: string

record ('c, 'p) Server =
  sv_dict :: dictionary
  sv_gridTrie :: Trie
  sv_store :: "'p Store"
  sv_signer :: "Signer option"
  sv_chain :: "Client option"
  sv_writer :: "Writer option"
  sv_rooms :: "'c Manager"
  sv_cfg :: Config

definition default_size :: "int \<Rightarrow> int \<Rightarrow> int" where
  "default_size n def = (if n = 0 then def else n)"

definition api_New :: "string \<Rightarrow> dictionary \<Rightarrow> Trie \<Rightarrow> 'p Store \<Rightarrow> Signer option \<Rightarrow> Client option \<Rightarrow> Config \<Rightarrow>
    'c \<Rightarrow> ('c, 'p) Server" where
  "api_New RACE_SECONDS d gt st sg chainCli cfg w =
    \<lparr>sv_dict = d, sv_gridTrie = gt, sv_store = st, sv_signer = sg, sv_chain = chainCli,
     sv_writer = None, sv_rooms = NewManager RACE_SECONDS d w,
     sv_cfg = cfg\<lparr>SoloRackSize := default_size (SoloRackSize cfg) 6,
       SoloGridSize := default_size (SoloGridSize cfg) 4,
       DailyRackSize := default_size (DailyRackSize cfg) 6\<rparr>\<rparr>"

definition EnableRoomStaking :: "Writer option \<Rightarrow> Client option \<Rightarrow> Signer option \<Rightarrow> ('c, 'p) Server \<Rightarrow>
    ('c, 'p) Server" where
  "EnableRoomStaking w chainCli sg s =
    s\<lparr>sv_writer := w, sv_rooms := EnableStaking w chainCli sg (sv_rooms s)\<rparr>"

definition world_of :: "('c, 'p) Server \<Rightarrow> 'c" where
  "world_of s = m_world (sv_rooms s)"

definition set_world :: "'c \<Rightarrow> ('c, 'p) Server \<Rightarrow> ('c, 'p) Server" where
  "set_world w s = s\<lparr>sv_rooms := (sv_rooms s)\<lparr>m_world := w\<rparr>\<rparr>"

section \<open>Helpers\<close>

definition writeErr :: "nat \<Rightarrow> string \<Rightarrow> response" where
  "writeErr code msg = (code, JMap [(''error'', JStr msg)])"

definition bad_body :: response where
  "bad_body = writeErr 400 ''invalid JSON body''"

definition clampSize :: "int \<Rightarrow> int" where
  "clampSize n = (if n < 4 then 4 else if n > 8 then 8 else n)"

definition clampGridSize :: "int \<Rightarrow> int" where
  "clampGridSize n = (if n < 4 then 4 else if n > 6 then 6 else n)"

text \<open>The digits of a query value as a 64-bit \<open>int\<close>, wrapping; anything else is the default.\<close>

fun int_loop :: "int \<Rightarrow> int \<Rightarrow> nat list \<Rightarrow> int" where
  "int_loop def n [] = n"
| "int_loop def n (c # cs) =
    (if c < 48 \<or> c > 57 then def else int_loop def (wrap64 (n * 10 + int (c - 48))) cs)"

definition intQuery :: "string \<Rightarrow> int \<Rightarrow> int" where
  "intQuery v def = (if v = [] then def else int_loop def 0 (runes v))"

definition adminOK :: "('c, 'p) Server \<Rightarrow> string \<Rightarrow> response option" where
  "adminOK s token =
    (if AdminToken (sv_cfg s) = [] then Some (writeErr 503 ''admin routes disabled (no ADMIN_TOKEN)'')
     else if token \<noteq> AdminToken (sv_cfg s) then Some (writeErr 401 ''invalid admin token'')
     else None)"

text \<open>\<open>time.Unix(sec, 0)\<close> and \<open>t.Unix()\<close>: seconds are 64-bit and wrap.\<close>

definition unix_time :: "int \<Rightarrow> int" where
  "unix_time sec = wrap64 (sec + 62135596800) * second"

definition unix_secs :: "int \<Rightarrow> int" where
  "unix_secs t = wrap64 (Unix t)"

definition jwords :: "string list \<Rightarrow> json" where
  "jwords ws = (if ws = [] then JNull else JArr (map JStr ws))"

fun reason_String :: "reason \<Rightarrow> string" where
  "reason_String ReasonTooShort = ''too_short''"
| "reason_String ReasonNotInRack = ''not_in_rack''"
| "reason_String ReasonNotAWord = ''not_a_word''"
| "reason_String ReasonDuplicate = ''duplicate''"

definition jresult :: "game_result \<Rightarrow> json" where
  "jresult r = JObj
    [(''total'', JNum (total r)),
     (''accepted'', JArr (map (\<lambda>a. JObj [(''word'', JStr (ws_word a)), (''points'', JNum (ws_points a))]) (accepted r))),
     (''rejected'', JArr (map (\<lambda>a. JObj [(''word'', JStr (rj_word a)),
        (''reason'', JStr (reason_String (rj_reason a)))]) (rejected r)))]"

definition jentry :: "LeaderboardEntry \<Rightarrow> json" where
  "jentry e = JObj [(''rank'', JNum (lb_rank e)), (''address'', JStr (lb_address e)),
    (''score'', JNum (lb_score e)), (''words'', JNum (lb_words e))]"

fun state_String :: "room_state \<Rightarrow> string" where
  "state_String Lobby = ''lobby''" | "state_String Racing = ''racing''" | "state_String Over = ''done''"

fun settle_String :: "settle_status \<Rightarrow> string" where
  "settle_String Not_settled = []" | "settle_String Pending = ''pending''"
| "settle_String Settled_ok = ''settled''" | "settle_String Settle_failed = ''failed''"

definition omitempty_str :: "string \<Rightarrow> string \<Rightarrow> (string \<times> json) list" where
  "omitempty_str k v = (if v = [] then [] else [(k, JStr v)])"

definition jview :: "RoomView \<Rightarrow> json" where
  "jview v = JObj
    ([(''code'', JStr (v_code v)), (''state'', JStr (state_String (v_state v))), (''host'', JStr (v_host v)),
      (''public'', JBool (v_public v)), (''letters'', JStr (v_letters v)), (''timeLeft'', JNum (v_timeLeft v)),
      (''players'', JArr (map (\<lambda>p. JObj [(''id'', JStr (pv_id p)), (''name'', JStr (pv_name p)),
         (''score'', JNum (pv_score p)), (''words'', JNum (pv_words p))]) (v_players v))),
      (''winner'', JStr (v_winner v))] @ omitempty_str ''you'' (v_you v) @
     [(''stake'', JStr (v_stake v)), (''pot'', JStr (v_pot v))] @ omitempty_str ''roundId'' (v_roundID v) @
     (if v_stakeEndsIn v = 0 then [] else [(''stakeEndsIn'', JNum (v_stakeEndsIn v))]) @
     omitempty_str ''settleStatus'' (settle_String (v_settleStatus v)) @
     omitempty_str ''settleErr'' (v_settleErr v))"

section \<open>Solo handlers\<close>

definition handleHealth :: "('c, 'p) Server \<Rightarrow> response" where
  "handleHealth s = (200, JMap [(''status'', JStr ''ok''), (''words'', JNum (Size (sv_dict s)))])"

definition handleReferee :: "('c, 'r) env \<Rightarrow> ('c, 'p) Server \<Rightarrow> response" where
  "handleReferee V s =
    (case sv_signer s of
       None \<Rightarrow> writeErr 503 ''referee signing not configured''
     | Some sg \<Rightarrow> (200, JMap [(''referee'', JStr (Hex (e_eth V) (s_address sg)))]))"

definition handleSoloRack :: "('c, 'r) env \<Rightarrow> int \<Rightarrow> string \<Rightarrow> ('c, 'p) Server \<Rightarrow> response option" where
  "handleSoloRack V seed size_query s =
    (let sz = clampSize (intQuery size_query (SoloRackSize (sv_cfg s)))
     in case GenerateSolo (e_uc V) (e_rng V) (sv_dict s) sz seed of
          None \<Rightarrow> None
        | Some res \<Rightarrow> Some (200, JMap [(''letters'', JStr (rk_letters res)),
            (''wordCount'', JNum (int (length (rk_words res)))), (''words'', jwords (rk_words res))]))"

definition handleSoloGrid :: "('c, 'r) env \<Rightarrow> int \<Rightarrow> string \<Rightarrow> ('c, 'p) Server \<Rightarrow> response option" where
  "handleSoloGrid V seed size_query s =
    (let sz = clampGridSize (intQuery size_query (SoloGridSize (sv_cfg s)))
     in case grid_GenerateSolo (e_uc V) (e_rng V) (sv_gridTrie s) sz sz (new_source (e_rng V) seed) of
          None \<Rightarrow> None
        | Some (res, _) \<Rightarrow> Some (200, JMap [(''letters'', JStr (gr_letters res)),
            (''width'', JNum (gr_width res)), (''height'', JNum (gr_height res)),
            (''wordCount'', JNum (int (length (gr_words res)))), (''words'', jwords (gr_words res))]))"

definition handleSoloScore :: "('c, 'r) env \<Rightarrow> (string \<times> string list) option \<Rightarrow> ('c, 'p) Server \<Rightarrow> response" where
  "handleSoloScore V req s =
    (case req of
       None \<Rightarrow> bad_body
     | Some (letters, words) \<Rightarrow>
         if letters = [] then writeErr 400 ''letters required''
         else (200, jresult (Score (e_uc V) (sv_dict s) letters words)))"

section \<open>The daily round\<close>

definition gen_letters :: "('c, 'r) env \<Rightarrow> string \<Rightarrow> ('c, 'p) Server \<Rightarrow> string res" where
  "gen_letters V dateKey s =
    (case GenerateDaily (e_uc V) (e_rng V) (sv_dict s) dateKey (DailyRackSize (sv_cfg s)) of
       Some rk \<Rightarrow> Ok (rk_letters rk) | None \<Rightarrow> Panic)"

definition get_daily :: "('c, 'r) env \<Rightarrow> 'p Persister option \<Rightarrow> string \<Rightarrow> ('c, 'p) Server \<Rightarrow>
    Daily option \<times> ('c, 'p) Server" where
  "get_daily V P dateKey s =
    (case GetOrCreateDaily P dateKey (gen_letters V dateKey s) (sv_store s) of
       (Ok d, st) \<Rightarrow> (Some d, s\<lparr>sv_store := st\<rparr>)
     | (_, st) \<Rightarrow> (None, s\<lparr>sv_store := st\<rparr>))"

definition handleDaily :: "('c, 'r) env \<Rightarrow> 'p Persister option \<Rightarrow> int \<Rightarrow> ('c, 'p) Server \<Rightarrow>
    response option \<times> ('c, 'p) Server" where
  "handleDaily V P now s =
    (case get_daily V P (date_key now) s of
       (None, s) \<Rightarrow> (None, s)
     | (Some d, s) \<Rightarrow>
         (Some (200, JMap ([(''dateKey'', JStr (d_dateKey d)), (''letters'', JStr (d_letters d)),
            (''paid'', JBool (d_paid d))] @
            (if d_paid d then [(''roundId'', JStr (d_roundID d)), (''endTime'', JNum (unix_secs (d_endTime d)))]
             else []))), s))"

text \<open>
  The fund-safety gate of a paid round: the refusal, or \<open>Ok None\<close> to go on.
\<close>

definition paid_gate :: "('c, 'r) env \<Rightarrow> int \<Rightarrow> string \<Rightarrow> Daily \<Rightarrow> ('c, 'p) Server \<Rightarrow>
    response option res \<times> ('c, 'p) Server" where
  "paid_gate V now addr d s =
    (if \<not> d_paid d then (Ok None, s)
     else if d_endTime d < now then (Ok (Some (writeErr 403 (''today'' @ [CHR 0x27] @ ''s pool has closed''))), s)
     else case sv_chain s of
       None \<Rightarrow> (Ok (Some (writeErr 503 ''pool verification unavailable'')), s)
     | Some c \<Rightarrow>
         (case big_SetString (d_roundID d) of
            None \<Rightarrow> (Ok (Some (writeErr 500 ''bad round id'')), s)
          | Some roundID \<Rightarrow>
              (case HasEntered (e_eth V) c (Some roundID) (HexToAddress (e_eth V) addr) (world_of s) of
                 (Panic, w) \<Rightarrow> (Panic, set_world w s)
               | (Err _, w) \<Rightarrow> (Ok (Some (writeErr 502 ''could not verify pool entry'')), set_world w s)
               | (Ok entered, w) \<Rightarrow>
                   (Ok (if \<not> entered then Some (writeErr 403 (''enter today'' @ [CHR 0x27] @ ''s pool before submitting''))
                        else None), set_world w s))))"

definition rank_of :: "('c, 'r) env \<Rightarrow> string \<Rightarrow> LeaderboardEntry list \<Rightarrow> int" where
  "rank_of V addr es =
    (case filter (\<lambda>e. HexToAddress (e_eth V) (lb_address e) = HexToAddress (e_eth V) addr) es of
       [] \<Rightarrow> 0 | e # _ \<Rightarrow> lb_rank e)"

definition handleDailySubmit :: "('c, 'r) env \<Rightarrow> 'p Persister option \<Rightarrow> int \<Rightarrow> int \<Rightarrow> int \<Rightarrow>
    (string \<times> string list) option \<Rightarrow> ('c, 'p) Server \<Rightarrow> response option \<times> ('c, 'p) Server" where
  "handleDailySubmit V P now gate_now at req s =
    (case req of
       None \<Rightarrow> (Some bad_body, s)
     | Some (addr, words) \<Rightarrow>
         if \<not> IsHexAddress (e_eth V) addr then (Some (writeErr 400 ''valid address required''), s)
         else case get_daily V P (date_key now) s of
           (None, s) \<Rightarrow> (None, s)
         | (Some d, s) \<Rightarrow>
             (case paid_gate V gate_now addr d s of
                (Ok None, s) \<Rightarrow>
                  let result = Score (e_uc V) (sv_dict s) (d_letters d) words;
                      sub = \<lparr>sub_address = addr, sub_score = total result,
                             sub_words = int (length (accepted result)), sub_at = at\<rparr>;
                      s = s\<lparr>sv_store := store_submit P (date_key now) sub (sv_store s)\<rparr>;
                      lb = (case map_of (dailies (sv_store s)) (date_key now) of
                              Some d \<Rightarrow> Leaderboard d | None \<Rightarrow> [])
                  in (Some (200, JMap [(''dateKey'', JStr (date_key now)), (''score'', JNum (total result)),
                        (''rank'', JNum (rank_of V addr lb)), (''result'', jresult result)]), s)
              | (Ok (Some refusal), s) \<Rightarrow> (Some refusal, s)
              | (_, s) \<Rightarrow> (None, s)))"

definition handleLeaderboard :: "('c, 'r) env \<Rightarrow> 'p Persister option \<Rightarrow> int \<Rightarrow> string \<Rightarrow> ('c, 'p) Server \<Rightarrow>
    response option \<times> ('c, 'p) Server" where
  "handleLeaderboard V P now date s =
    (let dateKey = (if date = [] then date_key now else date)
     in case get_daily V P dateKey s of
          (None, s) \<Rightarrow> (None, s)
        | (Some d, s) \<Rightarrow> (Some (200, JMap [(''dateKey'', JStr (d_dateKey d)),
            (''leaderboard'', JArr (map jentry (Leaderboard d)))]), s))"

section \<open>Admin handlers\<close>

text \<open>The body of an open request: the round id, the end in seconds, the date (empty for today).\<close>

definition handleOpenDaily :: "('c, 'r) env \<Rightarrow> 'p Persister option \<Rightarrow> int \<Rightarrow> int \<Rightarrow> string \<Rightarrow>
    (string \<times> int \<times> string) option \<Rightarrow> ('c, 'p) Server \<Rightarrow> response option \<times> ('c, 'p) Server" where
  "handleOpenDaily V P now today token req s =
    (case adminOK s token of
       Some refusal \<Rightarrow> (Some refusal, s)
     | None \<Rightarrow>
         (case req of
            None \<Rightarrow> (Some bad_body, s)
          | Some (roundID, endTime, date) \<Rightarrow>
              if big_SetString roundID = None
              then (Some (writeErr 400 ''roundId must be a base-10 integer string''), s)
              else if endTime \<le> unix_secs now
              then (Some (writeErr 400 ''endTime must be in the future''), s)
              else let dateKey = (if date = [] then date_key today else date)
                in case gen_letters V dateKey s of
                     Ok letters \<Rightarrow>
                       (case OpenPaidDaily P dateKey roundID (unix_time endTime) letters (sv_store s) of
                          (d, st) \<Rightarrow>
                            (Some (200, JMap [(''dateKey'', JStr (d_dateKey d)), (''roundId'', JStr (d_roundID d)),
                               (''letters'', JStr (d_letters d)), (''endTime'', JNum (unix_secs (d_endTime d))),
                               (''paid'', JBool True)]), s\<lparr>sv_store := st\<rparr>))
                   | _ \<Rightarrow> (None, s)))"

primrec api_freshRoundID_loop :: "nat \<Rightarrow> 'c eth \<Rightarrow> Client \<Rightarrow> 'c \<Rightarrow> int res \<times> 'c" where
  "api_freshRoundID_loop 0 E reader ch = (Err ''could not find a free round id'', ch)"
| "api_freshRoundID_loop (Suc i) E reader ch =
    (case RandRead E 8 ch of
       (Panic, ch) \<Rightarrow> (Panic, ch)
     | (Err e, ch) \<Rightarrow> (Err e, ch)
     | (Ok buf, ch) \<Rightarrow>
         let n = SetBytes (read_buf 8 (Ok buf)) div 2
         in case RoundExists E reader n ch of
              (Panic, ch) \<Rightarrow> (Panic, ch)
            | (Err e, ch) \<Rightarrow> (Err e, ch)
            | (Ok exists, ch) \<Rightarrow>
                if \<not> exists then (Ok n, ch) else api_freshRoundID_loop i E reader ch)"

definition api_freshRoundID :: "'c eth \<Rightarrow> Client \<Rightarrow> 'c \<Rightarrow> int res \<times> 'c" where
  "api_freshRoundID E reader ch = api_freshRoundID_loop 5 E reader ch"

text \<open>The registration of a pool for the days of a list: the date keys, \<open>None\<close> on a panic.\<close>

fun open_days :: "('c, 'r) env \<Rightarrow> 'p Persister option \<Rightarrow> int \<Rightarrow> int \<Rightarrow> string \<Rightarrow> nat list \<Rightarrow>
    ('c, 'p) Server \<Rightarrow> string list option \<times> ('c, 'p) Server" where
  "open_days V P now endTime rid [] s = (Some [], s)"
| "open_days V P now endTime rid (i # is) s =
    (let dateKey = date_key (add_days now i)
     in case gen_letters V dateKey s of
          Ok letters \<Rightarrow>
            (case open_days V P now endTime rid is
                (s\<lparr>sv_store := snd (OpenPaidDaily P dateKey rid endTime letters (sv_store s))\<rparr>) of
               (Some ks, s) \<Rightarrow> (Some (dateKey # ks), s)
             | (None, s) \<Rightarrow> (None, s))
        | _ \<Rightarrow> (None, s))"

text \<open>The part of a pool creation that talks to the chain: the round id and the end, or a refusal.\<close>

definition create_pool_round :: "('c, 'r) env \<Rightarrow> int \<Rightarrow> int \<Rightarrow> ('c, 'p) Server \<Rightarrow>
    (response + int) res \<times> ('c, 'p) Server" where
  "create_pool_round V entryFee endTime s =
    (case (sv_writer s, sv_chain s) of
       (Some writer, Some c) \<Rightarrow>
         (case api_freshRoundID (e_eth V) c (world_of s) of
            (Panic, w) \<Rightarrow> (Panic, set_world w s)
          | (Err e, w) \<Rightarrow> (Ok (Inl (writeErr 500 (''could not prepare a round id: '' @ e))), set_world w s)
          | (Ok roundID, w) \<Rightarrow>
              (case CreateRound (e_eth V) writer roundID entryFee (word_of_int (Unix endTime)) w of
                 (Panic, w) \<Rightarrow> (Panic, set_world w s)
               | (Err e, w) \<Rightarrow> (Ok (Inl (writeErr 500 (''could not open the round on-chain: '' @ e))), set_world w s)
               | (Ok _, w) \<Rightarrow> (Ok (Inr roundID), set_world w s)))
     | _ \<Rightarrow> (Ok (Inl (writeErr 503 (''on-chain pool creation isn'' @ [CHR 0x27] @ ''t configured''))), s))"

definition fee_msg :: string where
  "fee_msg = ''entryFee must be a positive wei amount (the contract rejects a zero entry fee)''"

definition handleCreatePool :: "('c, 'r) env \<Rightarrow> 'p Persister option \<Rightarrow> int \<Rightarrow> string \<Rightarrow>
    (string \<times> int) option \<Rightarrow> ('c, 'p) Server \<Rightarrow> response option \<times> ('c, 'p) Server" where
  "handleCreatePool V P now token req s =
    (case adminOK s token of
       Some refusal \<Rightarrow> (Some refusal, s)
     | None \<Rightarrow>
         (case req of
            None \<Rightarrow> (Some bad_body, s)
          | Some (fee, days) \<Rightarrow>
              (case big_SetString fee of
                 None \<Rightarrow> (Some (writeErr 400 fee_msg), s)
               | Some entryFee \<Rightarrow>
                   if entryFee \<le> 0 then (Some (writeErr 400 fee_msg), s)
                   else if days < 1 \<or> days > 90
                   then (Some (writeErr 400 ''days must be between 1 and 90''), s)
                   else let endTime = add_days now (nat days)
                     in case create_pool_round V entryFee endTime s of
                          (Ok (Inl refusal), s) \<Rightarrow> (Some refusal, s)
                        | (Ok (Inr roundID), s) \<Rightarrow>
                            (case open_days V P now endTime (big_String roundID) [0..<nat days] s of
                               (None, s) \<Rightarrow> (None, s)
                             | (Some dateKeys, s) \<Rightarrow>
                                 (Some (200, JMap [(''roundId'', JStr (big_String roundID)),
                                    (''entryFee'', JStr (big_String entryFee)), (''endTime'', JNum (unix_secs endTime)),
                                    (''dateKeys'', JArr (map JStr dateKeys))]), s))
                        | (_, s) \<Rightarrow> (None, s))))"

definition jpool :: "PaidRoundInfo \<Rightarrow> json" where
  "jpool p = JMap [(''dateKey'', JStr (pr_dateKey p)), (''letters'', JStr (pr_letters p)),
    (''roundId'', JStr (pr_roundID p)), (''endTime'', JNum (unix_secs (pr_endTime p)))]"

definition handleListPools :: "'p Persister option \<Rightarrow> string \<Rightarrow> ('c, 'p) Server \<Rightarrow>
    response \<times> ('c, 'p) Server" where
  "handleListPools P token s =
    (case adminOK s token of
       Some refusal \<Rightarrow> (refusal, s)
     | None \<Rightarrow>
         (case ListPaidDailies P (sv_store s) of
            (pools, st) \<Rightarrow> ((200, JMap [(''pools'', JArr (map jpool pools))]), s\<lparr>sv_store := st\<rparr>)))"

text \<open>The winners and amounts of a settlement request, checked pair by pair.\<close>

fun parse_payouts :: "'c eth \<Rightarrow> (string \<times> string) list \<Rightarrow> response + (address \<times> int) list" where
  "parse_payouts E [] = Inr []"
| "parse_payouts E ((wnr, amount) # rest) =
    (if \<not> IsHexAddress E wnr then Inl (writeErr 400 (''invalid winner address: '' @ wnr))
     else case big_SetString amount of
       None \<Rightarrow> Inl (writeErr 400 (''invalid amount: '' @ amount))
     | Some amt \<Rightarrow>
         (case parse_payouts E rest of
            Inl refusal \<Rightarrow> Inl refusal
          | Inr ps \<Rightarrow> Inr ((HexToAddress E wnr, amt) # ps)))"

text \<open>The entry check of the winners: the refusal, or \<open>Ok None\<close> to go on.\<close>

fun check_winners :: "'c eth \<Rightarrow> Client \<Rightarrow> int \<Rightarrow> address list \<Rightarrow> 'c \<Rightarrow> response option res \<times> 'c" where
  "check_winners E c roundID [] ch = (Ok None, ch)"
| "check_winners E c roundID (wnr # rest) ch =
    (case HasEntered E c (Some roundID) wnr ch of
       (Panic, ch) \<Rightarrow> (Panic, ch)
     | (Err _, ch) \<Rightarrow> (Ok (Some (writeErr 502 (''could not verify winner entry: '' @ Hex E wnr))), ch)
     | (Ok entered, ch) \<Rightarrow>
         if \<not> entered then (Ok (Some (writeErr 400 (''winner never entered round: '' @ Hex E wnr))), ch)
         else check_winners E c roundID rest ch)"

definition check_entered :: "'c eth \<Rightarrow> int \<Rightarrow> address list \<Rightarrow> ('c, 'p) Server \<Rightarrow>
    response option res \<times> ('c, 'p) Server" where
  "check_entered E roundID winners s =
    (case sv_chain s of
       None \<Rightarrow> (Ok None, s)
     | Some c \<Rightarrow> (case check_winners E c roundID winners (world_of s) of (r, w) \<Rightarrow> (r, set_world w s)))"

definition sign_reply :: "('c, 'r) env \<Rightarrow> Signer \<Rightarrow> string \<Rightarrow> int \<Rightarrow> (address \<times> int) list \<Rightarrow> response option" where
  "sign_reply V sg rid roundID payouts =
    (case SignSettlement (e_eth V) (e_crypto V) sg (Some roundID) (map fst payouts) (map snd payouts) of
       Panic \<Rightarrow> None
     | Err e \<Rightarrow> Some (writeErr 500 e)
     | Ok sig \<Rightarrow> Some (200, JMap [(''roundId'', JStr rid), (''referee'', JStr (Hex (e_eth V) (s_address sg))),
         (''signature'', JStr (''0x'' @ Bytes2Hex (e_eth V) sig))]))"

definition handleSignSettlement :: "('c, 'r) env \<Rightarrow> string \<Rightarrow> (string \<times> string list \<times> string list) option \<Rightarrow>
    ('c, 'p) Server \<Rightarrow> response option \<times> ('c, 'p) Server" where
  "handleSignSettlement V token req s =
    (case adminOK s token of
       Some refusal \<Rightarrow> (Some refusal, s)
     | None \<Rightarrow>
         (case sv_signer s of
            None \<Rightarrow> (Some (writeErr 503 ''referee signing not configured''), s)
          | Some sg \<Rightarrow>
              (case req of
                 None \<Rightarrow> (Some bad_body, s)
               | Some (rid, ws, amts) \<Rightarrow>
                   (case big_SetString rid of
                      None \<Rightarrow> (Some (writeErr 400 ''roundId must be a base-10 integer string''), s)
                    | Some roundID \<Rightarrow>
                        if length ws \<noteq> length amts \<or> ws = []
                        then (Some (writeErr 400 ''winners and amounts must be non-empty and equal length''), s)
                        else case parse_payouts (e_eth V) (zip ws amts) of
                          Inl refusal \<Rightarrow> (Some refusal, s)
                        | Inr payouts \<Rightarrow>
                            (case check_entered (e_eth V) roundID (map fst payouts) s of
                               (Ok None, s) \<Rightarrow> (sign_reply V sg rid roundID payouts, s)
                             | (Ok (Some refusal), s) \<Rightarrow> (Some refusal, s)
                             | (_, s) \<Rightarrow> (None, s))))))"

section \<open>Room handlers\<close>

definition view_reply :: "RoomView res \<Rightarrow> response option" where
  "view_reply v =
    (case v of Ok v \<Rightarrow> Some (200, jview v) | Err e \<Rightarrow> Some (writeErr 400 e) | Panic \<Rightarrow> None)"

text \<open>The stake of a create request: free, an amount, or refused.\<close>

definition stake_of :: "string \<Rightarrow> int option option" where
  "stake_of stake =
    (if stake = [] \<or> stake = ''0'' then Some None
     else case big_SetString stake of
       None \<Rightarrow> None | Some amt \<Rightarrow> if amt \<le> 0 then None else Some (Some amt))"

text \<open>\<open>None\<close>: the handler does not return.\<close>

definition handleRoomCreate :: "('c, 'r) env \<Rightarrow> int \<Rightarrow> int \<Rightarrow> (string \<times> string \<times> bool \<times> string) option \<Rightarrow>
    ('c, 'p) Server \<Rightarrow> (response option \<times> ('c, 'p) Server) option" where
  "handleRoomCreate V now at req s =
    (case req of
       None \<Rightarrow> Some (Some bad_body, s)
     | Some (playerID, name, public, stake) \<Rightarrow>
         if playerID = [] then Some (Some (writeErr 400 ''playerId required''), s)
         else case stake_of stake of
           None \<Rightarrow> Some (Some (writeErr 400 ''invalid stake amount''), s)
         | Some amount \<Rightarrow>
             map_option (\<lambda>(v, m). (view_reply v, s\<lparr>sv_rooms := m\<rparr>))
               (Create V now at playerID name public amount (sv_rooms s)))"

definition handleRoomList :: "int \<Rightarrow> ('c, 'p) Server \<Rightarrow> response option" where
  "handleRoomList now s =
    (case List_rooms now (sv_rooms s) of
       Ok vs \<Rightarrow> Some (200, JMap [(''rooms'', JArr (map jview vs))]) | _ \<Rightarrow> None)"

definition handleRoomJoin :: "('c, 'r) env \<Rightarrow> int \<Rightarrow> (string \<times> string \<times> string) option \<Rightarrow>
    ('c, 'p) Server \<Rightarrow> response option \<times> ('c, 'p) Server" where
  "handleRoomJoin V now req s =
    (case req of
       None \<Rightarrow> (Some bad_body, s)
     | Some (code, playerID, name) \<Rightarrow>
         if playerID = [] \<or> code = [] then (Some (writeErr 400 ''code and playerId required''), s)
         else case Join V now code playerID name (sv_rooms s) of
           (v, m) \<Rightarrow> (view_reply v, s\<lparr>sv_rooms := m\<rparr>))"

definition handleRoomStart :: "('c, 'r) env \<Rightarrow> int \<Rightarrow> int \<Rightarrow> (string \<times> string) option \<Rightarrow>
    ('c, 'p) Server \<Rightarrow> response option \<times> ('c, 'p) Server" where
  "handleRoomStart V now seed req s =
    (case req of
       None \<Rightarrow> (Some bad_body, s)
     | Some (code, playerID) \<Rightarrow>
         (case Start V now seed code playerID (sv_rooms s) of
            (v, m) \<Rightarrow> (view_reply v, s\<lparr>sv_rooms := m\<rparr>)))"

definition jroom :: "RoomView option \<Rightarrow> json" where
  "jroom v = (case v of None \<Rightarrow> JNull | Some v \<Rightarrow> jview v)"

definition submit_json :: "submit_reply \<Rightarrow> response" where
  "submit_json rep =
    (case sr_err rep of
       Some e \<Rightarrow> writeErr 400 e
     | None \<Rightarrow> (200, JMap [(''accepted'', JBool (sr_accepted rep)), (''points'', JNum (sr_points rep)),
         (''room'', jroom (sr_view rep))]))"

definition handleRoomSubmit :: "('c, 'r) env \<Rightarrow> int \<Rightarrow> (string \<times> string \<times> string) option \<Rightarrow>
    ('c, 'p) Server \<Rightarrow> response option \<times> ('c, 'p) Server" where
  "handleRoomSubmit V now req s =
    (case req of
       None \<Rightarrow> (Some bad_body, s)
     | Some (code, playerID, wd) \<Rightarrow>
         (case Submit V now code playerID wd (sv_rooms s) of
            (Ok rep, m) \<Rightarrow> (Some (submit_json rep), s\<lparr>sv_rooms := m\<rparr>)
          | (_, m) \<Rightarrow> (None, s\<lparr>sv_rooms := m\<rparr>)))"

definition handleRoomGet :: "('c, 'r) env \<Rightarrow> int \<Rightarrow> string \<Rightarrow> string \<Rightarrow> ('c, 'p) Server \<Rightarrow>
    response option \<times> ('c, 'p) Server" where
  "handleRoomGet V now code you s =
    (case Get V now code you (sv_rooms s) of
       (None, m) \<Rightarrow> (Some (writeErr 404 ''room not found''), s\<lparr>sv_rooms := m\<rparr>)
     | (Some v, m) \<Rightarrow> (view_reply v, s\<lparr>sv_rooms := m\<rparr>))"

section \<open>Routes\<close>

text \<open>
  What the mux has matched and the handler reads of the request: for each route its inputs, a
  decoded body being an option.
\<close>

datatype request =
    Get_health | Get_referee
  | Get_solo_rack string | Get_solo_grid string | Post_solo_score "(string \<times> string list) option"
  | Get_daily | Post_daily_submit "(string \<times> string list) option" | Get_leaderboard string
  | Post_daily_open string "(string \<times> int \<times> string) option"
  | Post_pool_create string "(string \<times> int) option" | Get_pool_list string
  | Post_sign_settlement string "(string \<times> string list \<times> string list) option"
  | Post_room_create "(string \<times> string \<times> bool \<times> string) option"
  | Post_room_join "(string \<times> string \<times> string) option" | Post_room_start "(string \<times> string) option"
  | Post_room_submit "(string \<times> string \<times> string) option" | Get_room_list
  | Get_room string string

text \<open>The clock readings a handler makes, in order, and its draw of the global generator.\<close>

record reading =
  t_first :: int
  t_second :: int
  t_third :: int
  t_seed :: int

definition Routes :: "('c, 'r) env \<Rightarrow> 'p Persister option \<Rightarrow> reading \<Rightarrow> request \<Rightarrow> ('c, 'p) Server \<Rightarrow>
    (response option \<times> ('c, 'p) Server) option" where
  "Routes V P t rq s =
    (case rq of
       Get_health \<Rightarrow> Some (Some (handleHealth s), s)
     | Get_referee \<Rightarrow> Some (Some (handleReferee V s), s)
     | Get_solo_rack q \<Rightarrow> Some (handleSoloRack V (t_seed t) q s, s)
     | Get_solo_grid q \<Rightarrow> Some (handleSoloGrid V (t_seed t) q s, s)
     | Post_solo_score b \<Rightarrow> Some (Some (handleSoloScore V b s), s)
     | Get_daily \<Rightarrow> Some (handleDaily V P (t_first t) s)
     | Post_daily_submit b \<Rightarrow> Some (handleDailySubmit V P (t_first t) (t_second t) (t_third t) b s)
     | Get_leaderboard d \<Rightarrow> Some (handleLeaderboard V P (t_first t) d s)
     | Post_daily_open k b \<Rightarrow> Some (handleOpenDaily V P (t_first t) (t_second t) k b s)
     | Post_pool_create k b \<Rightarrow> Some (handleCreatePool V P (t_first t) k b s)
     | Get_pool_list k \<Rightarrow> (case handleListPools P k s of (r, s) \<Rightarrow> Some (Some r, s))
     | Post_sign_settlement k b \<Rightarrow> Some (handleSignSettlement V k b s)
     | Post_room_create b \<Rightarrow> handleRoomCreate V (t_first t) (t_second t) b s
     | Post_room_join b \<Rightarrow> Some (handleRoomJoin V (t_first t) b s)
     | Post_room_start b \<Rightarrow> Some (handleRoomStart V (t_first t) (t_seed t) b s)
     | Post_room_submit b \<Rightarrow> Some (handleRoomSubmit V (t_first t) b s)
     | Get_room_list \<Rightarrow> Some (handleRoomList (t_first t) s, s)
     | Get_room code you \<Rightarrow> Some (handleRoomGet V (t_first t) code you s))"

end
