(* ===== verification/Api_Invariant.thy ===== *)
theory Api_Invariant
  imports Api
begin

text \<open>
  What the handlers keep: every request moves the rounds and the rooms only forward and leaves
  the configuration alone (\<open>server_le\<close>), one lemma per handler, joined in \<open>le_Routes\<close>.
\<close>

section \<open>Progress of the server\<close>

definition store_le :: "'p Store \<Rightarrow> 'p Store \<Rightarrow> bool" where
  "store_le st st' \<longleftrightarrow> (\<forall>k d. map_of (dailies st) k = Some d \<longrightarrow>
    (\<exists>d'. map_of (dailies st') k = Some d' \<and> daily_le d d'))"

lemma store_le_refl [simp]: "store_le st st"
  by (simp add: store_le_def)

lemma store_le_trans: "store_le a b \<Longrightarrow> store_le b c \<Longrightarrow> store_le a c"
  unfolding store_le_def by (metis daily_le_trans)

lemma store_le_run_op: "store_le st (run_op P op st)"
  unfolding store_le_def using run_op_grows by blast

lemma store_le_pstate [simp]: "store_le st (st\<lparr>pstate := p\<rparr>)"
  by (simp add: store_le_def)

lemma store_le_Open: "store_le st (snd (OpenPaidDaily P k rid et l st))"
  using store_le_run_op [of st P "Open_Paid k rid et l"] by simp

lemma store_le_List: "store_le st (snd (ListPaidDailies P st))"
  by (simp add: ListPaidDailies_def split: option.split prod.split)

definition server_le :: "('c, 'r) env \<Rightarrow> ('c, 'p) Server \<Rightarrow> ('c, 'p) Server \<Rightarrow> bool" where
  "server_le V s s' \<longleftrightarrow> store_le (sv_store s) (sv_store s') \<and> room_reach V (sv_rooms s) (sv_rooms s') \<and>
    sv_dict s' = sv_dict s \<and> sv_gridTrie s' = sv_gridTrie s \<and> sv_signer s' = sv_signer s \<and>
    sv_chain s' = sv_chain s \<and> sv_writer s' = sv_writer s \<and> sv_cfg s' = sv_cfg s"

lemma server_le_refl [simp]: "server_le V s s"
  by (simp add: server_le_def start_state)

lemma server_le_trans: "server_le V a b \<Longrightarrow> server_le V b c \<Longrightarrow> server_le V a c"
  unfolding server_le_def using store_le_trans room_reach_trans by metis

lemma server_le_store: "store_le (sv_store s) st \<Longrightarrow> server_le V s (s\<lparr>sv_store := st\<rparr>)"
  by (simp add: server_le_def start_state)

lemma server_le_world [simp]: "server_le V s (set_world w s)"
  by (simp add: server_le_def set_world_def room_reach_step world)

lemma server_le_rooms: "room_reach V (sv_rooms s) m \<Longrightarrow> server_le V s (s\<lparr>sv_rooms := m\<rparr>)"
  by (simp add: server_le_def)

section \<open>What each handler does to the state\<close>

lemma snd_get_daily: "snd (get_daily V P k s) =
    s\<lparr>sv_store := run_op P (Get_Or_Create k (gen_letters V k s)) (sv_store s)\<rparr>"
  by (simp add: get_daily_def split: prod.split res.split)

lemma le_get_daily: "server_le V s (snd (get_daily V P k s))"
  by (simp only: snd_get_daily server_le_store store_le_run_op)

lemma le_paid_gate: "server_le V s (snd (paid_gate V now addr d s))"
  by (simp add: paid_gate_def split: option.split prod.split res.split)

lemma le_handleDaily: "server_le V s (snd (handleDaily V P now s))"
  using le_get_daily [of V s P "date_key now"] by (auto simp: handleDaily_def split: prod.split option.split)

lemma le_handleLeaderboard: "server_le V s (snd (handleLeaderboard V P now date s))"
  using le_get_daily [of V s P] by (auto simp: handleLeaderboard_def Let_def split: prod.split option.split)
    (metis snd_conv)+

text \<open>The state after a submission, by the outcome of the gate.\<close>

lemma handleDailySubmit_cases:
  assumes "IsHexAddress (e_eth V) addr" "get_daily V P (date_key now) s = (Some d, s1)"
    "paid_gate V gate addr d s1 = (g, s2)"
  shows "snd (handleDailySubmit V P now gate at (Some (addr, words)) s) =
    (if g = Ok None then s2\<lparr>sv_store := store_submit P (date_key now)
       \<lparr>sub_address = addr, sub_score = total (Score (e_uc V) (sv_dict s2) (d_letters d) words),
        sub_words = int (length (accepted (Score (e_uc V) (sv_dict s2) (d_letters d) words))),
        sub_at = at\<rparr> (sv_store s2)\<rparr> else s2)"
  using assms by (auto simp: handleDailySubmit_def Let_def split: res.split option.split)

lemma le_handleDailySubmit: "server_le V s (snd (handleDailySubmit V P now gate at req s))"
proof (cases req)
  case (Some r)
  obtain addr words where r: "req = Some (addr, words)" using Some by (cases r) auto
  obtain od s1 where g: "get_daily V P (date_key now) s = (od, s1)" by fastforce
  have s1: "server_le V s s1" using le_get_daily [of V s P "date_key now"] by (simp add: g)
  show ?thesis
  proof (cases od)
    case (Some d)
    obtain x s2 where x: "paid_gate V gate addr d s1 = (x, s2)" by fastforce
    have "server_le V s1 s2" using le_paid_gate [of V s1 gate addr d] by (simp add: x)
    then have s2: "server_le V s s2" by (rule server_le_trans [OF s1])
    have "server_le V s2 (s2\<lparr>sv_store := store_submit P k sub (sv_store s2)\<rparr>)" for k sub
      using server_le_store [OF store_le_run_op [of "sv_store s2" P "Submit_To k sub"]] by simp
    then have sub: "server_le V s (s2\<lparr>sv_store := store_submit P k sub (sv_store s2)\<rparr>)" for k sub
      by (rule server_le_trans [OF s2])
    show ?thesis
    proof (cases "IsHexAddress (e_eth V) addr")
      case True
      then show ?thesis
        using s2 sub handleDailySubmit_cases [OF True g [unfolded Some] x] by (simp add: r)
    qed (simp add: handleDailySubmit_def r)
  qed (use g s1 r in \<open>auto simp: handleDailySubmit_def\<close>)
qed (simp add: handleDailySubmit_def)

lemma le_handleOpenDaily: "server_le V s (snd (handleOpenDaily V P now today token req s))"
  by (auto simp: handleOpenDaily_def Let_def split: option.split res.split prod.split
      intro!: server_le_store) (metis store_le_Open snd_conv)+

lemma le_open_days: "server_le V s (snd (open_days V P now endTime rid is s))"
proof (induction "is" arbitrary: s)
  case (Cons i "is")
  have "server_le V s (snd (open_days V P now endTime rid is
      (s\<lparr>sv_store := snd (OpenPaidDaily P k rid endTime l (sv_store s))\<rparr>)))" for k l
    by (rule server_le_trans [OF server_le_store [OF store_le_Open] Cons.IH])
  then show ?case
    by (auto simp: Let_def split: res.split prod.split option.split) (metis snd_conv)+
qed simp

lemma le_create_pool_round: "server_le V s (snd (create_pool_round V fee et s))"
  by (simp add: create_pool_round_def split: option.split prod.split res.split)

lemma le_handleCreatePool: "server_le V s (snd (handleCreatePool V P now token req s))"
proof -
  obtain fee days where fd: "\<And>r. req = Some r \<Longrightarrow> r = (fee, days)" by (cases req) auto
  let ?et = "add_days now (nat days)"
  have "server_le V s (snd (case create_pool_round V f ?et s of
          (Ok (Inl refusal), s) \<Rightarrow> (Some refusal, s)
        | (Ok (Inr roundID), s) \<Rightarrow>
            (case open_days V P now ?et (big_String roundID) [0..<nat days] s of
               (None, s) \<Rightarrow> (None, s)
             | (Some dateKeys, s) \<Rightarrow> (Some (body dateKeys roundID), s))
        | (_, s) \<Rightarrow> (None, s)))" for f and body :: "string list \<Rightarrow> int \<Rightarrow> response"
  proof -
    obtain x s1 where x: "create_pool_round V f ?et s = (x, s1)" by fastforce
    have s1: "server_le V s s1" using le_create_pool_round [of V s f ?et] by (simp add: x)
    have "server_le V s (snd (open_days V P now ?et (big_String rid) [0..<nat days] s1))" for rid
      by (rule server_le_trans [OF s1 le_open_days])
    then show ?thesis
      using s1 by (auto simp: x split: res.split sum.split option.split prod.split) (metis snd_conv)+
  qed
  then show ?thesis
    unfolding handleCreatePool_def Let_def using fd
    by (auto split: option.split)
qed

lemma le_handleListPools: "server_le V s (snd (handleListPools P token s))"
  by (auto simp: handleListPools_def split: option.split prod.split intro!: server_le_store)
    (metis store_le_List snd_conv)

lemma le_check_entered: "server_le V s (snd (check_entered E rid ws s))"
  by (simp add: check_entered_def split: option.split prod.split)

lemma le_handleSignSettlement: "server_le V s (snd (handleSignSettlement V token req s))"
  using le_check_entered [of V s "e_eth V"]
  by (auto simp: handleSignSettlement_def split: option.split prod.split sum.split res.split)
    (metis snd_conv)+

lemma le_handleRoomCreate:
  assumes "handleRoomCreate V now at req s = Some (resp, s')"
  shows "server_le V s s'"
  using assms unfolding handleRoomCreate_def
  by (auto simp: Create_reach server_le_rooms split: option.splits if_splits)

text \<open>Looking a room up needs its reference to be live, as it is in every consistent manager.\<close>

lemma le_rooms:
  assumes "mgr_ok (e_uc V) (sv_rooms s)"
  shows "server_le V s (snd (handleRoomJoin V now j s))" "server_le V s (snd (handleRoomStart V now seed st s))"
    "server_le V s (snd (handleRoomSubmit V now sb s))" "server_le V s (snd (handleRoomGet V now code you s))"
proof -
  note reach = Join_reach [OF assms, of V] Start_reach [OF assms, of V] Submit_reach [OF assms, of V]
    Get_reach [OF assms, of V]
  show "server_le V s (snd (handleRoomJoin V now j s))"
    using reach(1) by (auto simp: handleRoomJoin_def split: option.split prod.split intro!: server_le_rooms) (metis snd_conv)
  show "server_le V s (snd (handleRoomStart V now seed st s))"
    using reach(2) by (auto simp: handleRoomStart_def split: option.split prod.split intro!: server_le_rooms) (metis snd_conv)
  show "server_le V s (snd (handleRoomSubmit V now sb s))"
    using reach(3)
    by (auto simp: handleRoomSubmit_def split: option.split prod.split res.split intro!: server_le_rooms) (metis snd_conv)+
  show "server_le V s (snd (handleRoomGet V now code you s))"
    using reach(4)
    by (auto simp: handleRoomGet_def split: option.split prod.split intro!: server_le_rooms) (metis snd_conv)+
qed

section \<open>All requests\<close>

lemma le_Routes:
  assumes "mgr_ok (e_uc V) (sv_rooms s)" "Routes V P t rq s = Some (resp, s')"
  shows "server_le V s s'"
proof (cases rq)
  case (Post_room_create b)
  then show ?thesis using assms(2) le_handleRoomCreate by (auto simp: Routes_def)
next
  case (Get_pool_list k)
  then show ?thesis using assms(2) le_handleListPools [of V s P k] by (auto simp: Routes_def split: prod.splits)
next
  case (Get_room code you)
  then show ?thesis using assms(2) le_rooms(4) [OF assms(1), of "t_first t" code you]
    by (simp add: Routes_def)
next
  case Get_daily
  then show ?thesis using assms(2) le_handleDaily [of V s P "t_first t"] by (simp add: Routes_def)
next
  case (Post_daily_submit b)
  then show ?thesis
    using assms(2) le_handleDailySubmit [of V s P "t_first t" "t_second t" "t_third t" b]
    by (simp add: Routes_def)
next
  case (Get_leaderboard d)
  then show ?thesis using assms(2) le_handleLeaderboard [of V s P "t_first t" d] by (simp add: Routes_def)
next
  case (Post_daily_open k b)
  then show ?thesis using assms(2) le_handleOpenDaily [of V s P "t_first t" "t_second t" k b]
    by (simp add: Routes_def)
next
  case (Post_pool_create k b)
  then show ?thesis using assms(2) le_handleCreatePool [of V s P "t_first t" k b] by (simp add: Routes_def)
next
  case (Post_sign_settlement k b)
  then show ?thesis using assms(2) le_handleSignSettlement [of V s k b] by (simp add: Routes_def)
next
  case (Post_room_join b)
  then show ?thesis using assms(2) le_rooms(1) [OF assms(1), of "t_first t" b] by (simp add: Routes_def)
next
  case (Post_room_start b)
  then show ?thesis using assms(2) le_rooms(2) [OF assms(1), of "t_first t" "t_seed t" b]
    by (simp add: Routes_def)
next
  case (Post_room_submit b)
  then show ?thesis using assms(2) le_rooms(3) [OF assms(1), of "t_first t" b] by (simp add: Routes_def)
qed (use assms(2) in \<open>simp_all add: Routes_def\<close>)

end
