(* ===== verification/Api_Total.thy ===== *)
theory Api_Total
  imports Api_Invariant
begin

text \<open>
  What panics: when the code outside does what it documents, no handler does, in any state
  requests can produce, but one: joining a staked room whose round is not opened yet passes a nil round id.
  A lemma per operation of the rooms and per handler, joined in \<open>np_Routes\<close>.
\<close>

section \<open>No panics\<close>

text \<open>
  What is assumed of the code outside: the generator keeps its bounds, signatures have their form,
  the upper-case table is one; go-ethereum panics when it packs a nil integer, and only then; a contract call that
  succeeds returns values.
\<close>

definition externals_ok :: "('c, 'r) env \<Rightarrow> bool" where
  "externals_ok V \<longleftrightarrow> rng_ok (e_rng V) \<and> case_table (e_uc V) \<and> sign_ok (e_crypto V) \<and>
    (\<forall>td n part. HashStruct (e_crypto V) td n part \<noteq> Panic) \<and>
    (\<forall>c f args ch. (fst (Call (e_eth V) c f args ch) = Panic \<longleftrightarrow> ANilBig \<in> set args) \<and>
      fst (Call (e_eth V) c f args ch) \<noteq> Ok []) \<and>
    (\<forall>w f args ch. ANilBig \<notin> set args \<longrightarrow> fst (Transact (e_eth V) w f args ch) \<noteq> Panic) \<and>
    (\<forall>w tx ch. fst (WaitMined (e_eth V) w tx ch) \<noteq> Panic) \<and>
    (\<forall>n ch. fst (RandRead (e_eth V) n ch) \<noteq> Panic)"

lemma no_panic_calls:
  assumes "externals_ok V"
  shows "ANilBig \<notin> set args \<Longrightarrow> Call (e_eth V) c f args ch \<noteq> (Panic, ch')" "Call (e_eth V) c f args ch \<noteq> (Ok [], ch')"
    "ANilBig \<notin> set args \<Longrightarrow> Transact (e_eth V) w f args ch \<noteq> (Panic, ch')" "WaitMined (e_eth V) w tx ch \<noteq> (Panic, ch')"
    "RandRead (e_eth V) n ch \<noteq> (Panic, ch')"
  using assms unfolding externals_ok_def by (metis fst_conv)+

lemma big_arg_Some [simp]: "big_arg (Some n) = ABig n"
  by (simp add: big_arg_def)

lemma no_panic_chain:
  assumes "externals_ok V"
  shows "HasEntered (e_eth V) c (Some rid) a ch \<noteq> (Panic, ch')" "RoundExists (e_eth V) c n ch \<noteq> (Panic, ch')"
    "CreateRound (e_eth V) w n fee et ch \<noteq> (Panic, ch')"
  by (auto simp: HasEntered_def entered_of_def RoundExists_def exists_of_def CreateRound_def send_def
      no_panic_calls [OF assms] split: prod.splits res.splits list.splits abi_val.splits)

text \<open>A nil round id never lets anybody in.\<close>

lemma nil_round_panics:
  assumes "externals_ok V"
  shows "fst (HasEntered (e_eth V) c None a ch) = Panic"
proof -
  have "fst (Call (e_eth V) c ''hasEntered'' [ANilBig, AAddress a] ch) = Panic"
    using assms unfolding externals_ok_def by (metis list.set_intros(1))
  then show ?thesis by (auto simp: HasEntered_def entered_of_def big_arg_def split: prod.split)
qed

text \<open>So a join that comes while the \<open>Create\<close> of the room still waits for the chain panics.\<close>

lemma early_join_panics:
  assumes "externals_ok V" "r = m_heap m ! a" "r_stake r \<noteq> None" "r_roundID r = None" "r_state r = Lobby"
    "length (r_players r) < MaxPlayers" "map_of (r_players r) pid = None" "IsHexAddress (e_eth V) pid"
    "m_reader m = Some reader"
  shows "fst (Join_at V now a pid name m) = Panic"
proof -
  obtain w where "HasEntered (e_eth V) reader None (HexToAddress (e_eth V) pid) (m_world m) = (Panic, w)"
    using nil_round_panics [OF assms(1)] by (metis prod.collapse)
  then show ?thesis using assms(2-9) by (auto simp: Join_at_def verify_stake_def Let_def)
qed

lemma no_panic_freshRoundID:
  assumes "externals_ok V"
  shows "freshRoundID (e_eth V) c ch \<noteq> (Panic, ch')"
proof -
  have "freshRoundID_loop n (e_eth V) c ch \<noteq> (Panic, ch')" for n ch
    by (induction n arbitrary: ch)
      (auto simp: Let_def no_panic_calls [OF assms] no_panic_chain [OF assms]
        split: prod.splits res.splits if_splits)
  then show ?thesis by (simp add: freshRoundID_def)
qed

lemma api_freshRoundID_eq: "api_freshRoundID E c ch = freshRoundID E c ch"
proof -
  have "api_freshRoundID_loop n E c ch = freshRoundID_loop n E c ch" for n
    by (induction n arbitrary: ch) (simp_all add: Let_def split: prod.split res.split)
  then show ?thesis by (simp add: api_freshRoundID_def freshRoundID_def)
qed

text \<open>Views panic only on a room whose join order names somebody without an entry.\<close>

lemma no_nil_maybeFinish [simp]: "no_nil_player (maybeFinishLocked now r) = no_nil_player r"
  by (simp add: no_nil_player_def)

lemma no_nil_addPlayer: "no_nil_player r \<Longrightarrow> no_nil_player (addPlayer i name r)"
  by (auto simp: no_nil_player_def addPlayer_def Let_def list_all_iff update_conv')

lemma no_panic_snapshot:
  "no_nil_player (m_heap m ! a) \<Longrightarrow> snapshot now viewer a m \<noteq> (Panic, m')"
  by (simp add: snapshot_def snapshotLocked_def Let_def)

lemma view_reply_None [simp]: "view_reply v = None \<longleftrightarrow> v = Panic"
  "(\<exists>a b. view_reply v = Some (a, b)) \<longleftrightarrow> v \<noteq> Panic"
  by (cases v; simp add: view_reply_def writeErr_def)+

section \<open>The room operations\<close>

lemma no_panic_verify_stake: "externals_ok V \<Longrightarrow> r_roundID r \<noteq> None \<Longrightarrow> verify_stake V pid r m \<noteq> (Panic, m')"
  by (auto simp: verify_stake_def no_panic_chain split: option.splits prod.splits res.splits if_splits)

lemma no_panic_Join_at:
  assumes "externals_ok V" "mgr_ok uc m" "a < length (m_heap m)" "Join_at V now a pid name m = (Panic, m')"
  shows "r_stake (m_heap m ! a) \<noteq> None \<and> r_roundID (m_heap m ! a) = None"
proof -
  have n: "no_nil_player (m_heap m ! a)" using room_ok_no_nil mgr_ok_heap assms(2,3) by blast
  obtain x m1 where v: "verify_stake V pid (m_heap m ! a) m = (x, m1)" by fastforce
  then have h: "m_heap m1 = m_heap m"
    using verify_stake_world [of V pid "m_heap m ! a" m] by auto
  have "snapshot now pid a (set_room a (addPlayer pid name (m_heap m ! a)) m1) \<noteq> (Panic, m')"
    by (rule no_panic_snapshot) (simp add: assms(3) h no_nil_addPlayer [OF n])
  then have "x = Panic"
    using assms(4) v no_panic_snapshot [OF n, of now pid m'] by (auto simp: Join_at_def Let_def split: if_splits res.splits)
  then have v': "verify_stake V pid (m_heap m ! a) m = (Panic, m1)" using v by simp
  then have "r_stake (m_heap m ! a) \<noteq> None" by (cases "r_stake (m_heap m ! a)") (simp_all add: verify_stake_def)
  then show ?thesis using v' no_panic_verify_stake [OF assms(1)] by blast
qed

lemma no_panic_Start_at:
  assumes "externals_ok V" "mgr_ok uc m" "a < length (m_heap m)"
  shows "Start_at V now seed a pid m \<noteq> (Panic, m')"
proof -
  have ok: "dict_ok (m_dict m)" "rng_ok (e_rng V)" "2 \<le> rackSize"
    using assms by (simp_all add: externals_ok_def mgr_ok_def rackSize_def)
  obtain rk where rk: "GenerateSolo (e_uc V) (e_rng V) (m_dict m) rackSize seed = Some rk"
    using GenerateSolo_total [OF ok] by blast
  define r where "r = (m_heap m ! a)\<lparr>r_letters := rk_letters rk, r_state := Racing,
    r_endsAt := now + wrap64 (r_raceSeconds (m_heap m ! a) * second)\<rparr>"
  have "no_nil_player r"
    using room_ok_no_nil [OF mgr_ok_heap [OF assms(2,3)]] by (simp add: r_def no_nil_player_def)
  then have "snapshot now pid a (set_room a r m) \<noteq> (Panic, m'')" for m''
    by (intro no_panic_snapshot) (simp add: assms(3))
  then show ?thesis
    using rk by (auto simp: Start_at_def Let_def r_def)
qed

lemma no_panic_Submit_at:
  assumes "case_table uc" "mgr_ok uc m" "e_uc V = uc" "a < length (m_heap m)"
  shows "\<exists>rep. fst (Submit_at V now a pid wd m) = Ok rep"
  by (cases rule: Submit_at_cases [OF assms(2,4,1,3), where now = now and pid = pid and word = wd,
        case_names refused scored]) auto

lemma no_panic_create_open:
  assumes "externals_ok V" "stakingEnabled m"
  shows "create_open V now amount m \<noteq> (Panic, m')"
  using assms(2) by (auto simp: create_open_def stakingEnabled_def Let_def no_panic_freshRoundID [OF assms(1)]
      no_panic_chain [OF assms(1)] split: option.splits prod.splits res.splits)

section \<open>The handlers\<close>

definition server_ok :: "('c, 'r) env \<Rightarrow> ('c, 'p) Server \<Rightarrow> bool" where
  "server_ok V s \<longleftrightarrow> mgr_ok (e_uc V) (sv_rooms s) \<and> dict_ok (sv_dict s) \<and>
    (\<exists>ws. sv_gridTrie s = NewTrie ws) \<and> 2 \<le> DailyRackSize (sv_cfg s)"

lemma server_ok_le:
  assumes "server_ok V s" "server_le V s s'" "case_table (e_uc V)"
  shows "server_ok V s'"
proof -
  have "good (e_uc V) (sv_rooms s) (sv_rooms s')"
    using assms by (intro good_reach [of V]) (simp_all add: server_ok_def server_le_def)
  then show ?thesis using assms(1,2) by (simp add: server_ok_def server_le_def good_def)
qed

lemma server_ok_letters:
  assumes "externals_ok V" "server_ok V s"
  shows "\<exists>l. gen_letters V k s = Ok l"
proof -
  have ok: "dict_ok (sv_dict s)" "rng_ok (e_rng V)" "2 \<le> DailyRackSize (sv_cfg s)"
    using assms by (simp_all add: externals_ok_def server_ok_def)
  obtain res r' where "generate (e_uc V) (e_rng V) (sv_dict s) (DailyRackSize (sv_cfg s))
      (new_source (e_rng V) (date_seed k)) = Some (res, r')"
    by (rule generate_cases [OF ok])
  then show ?thesis by (simp add: gen_letters_def GenerateDaily_def)
qed

lemma GetOrCreate_Ok: "\<exists>d st'. GetOrCreateDaily P k (Ok l) st = (Ok d, st')"
  by (auto simp: GetOrCreateDaily_def Let_def split: option.split prod.split)

lemma server_ok_daily:
  assumes "externals_ok V" "server_ok V s"
  obtains d s1 where "get_daily V P k s = (Some d, s1)" "server_ok V s1"
proof -
  obtain l where "gen_letters V k s = Ok l" using server_ok_letters [OF assms] by blast
  then obtain d s1 where g: "get_daily V P k s = (Some d, s1)"
    using GetOrCreate_Ok [of P k l "sv_store s"] by (auto simp: get_daily_def)
  moreover have "server_ok V s1"
    using server_ok_le [OF assms(2) le_get_daily [of V s P k]] assms(1) by (simp add: g externals_ok_def)
  ultimately show thesis by (rule that)
qed

lemma np_handleDaily:
  assumes "externals_ok V" "server_ok V s"
  shows "fst (handleDaily V P now s) \<noteq> None" "fst (handleLeaderboard V P now date s) \<noteq> None"
proof -
  obtain d s1 where "get_daily V P (date_key now) s = (Some d, s1)" by (rule server_ok_daily [OF assms])
  then show "fst (handleDaily V P now s) \<noteq> None" by (simp add: handleDaily_def)
  obtain d s1 where "get_daily V P (if date = [] then date_key now else date) s = (Some d, s1)"
    by (rule server_ok_daily [OF assms])
  then show "fst (handleLeaderboard V P now date s) \<noteq> None" by (simp add: handleLeaderboard_def)
qed

lemma np_paid_gate: "externals_ok V \<Longrightarrow> paid_gate V now addr d s = (x, s') \<Longrightarrow> \<exists>y. x = Ok y"
  by (auto simp: paid_gate_def no_panic_chain split: if_splits option.splits prod.splits res.splits)

lemma np_handleDailySubmit:
  assumes "externals_ok V" "server_ok V s"
  shows "fst (handleDailySubmit V P now gate at req s) \<noteq> None"
proof -
  obtain d s1 where g: "get_daily V P (date_key now) s = (Some d, s1)" by (rule server_ok_daily [OF assms])
  show ?thesis
  proof (cases req)
    case (Some r)
    obtain addr words where r: "r = (addr, words)" by fastforce
    obtain y s2 where x: "paid_gate V gate addr d s1 = (Ok y, s2)"
      using np_paid_gate [OF assms(1)] by (metis surj_pair)
    show ?thesis
      by (cases y) (simp_all add: handleDailySubmit_def Some r g x Let_def)
  qed (simp add: handleDailySubmit_def)
qed

lemma np_handleOpenDaily:
  assumes "externals_ok V" "server_ok V s"
  shows "fst (handleOpenDaily V P now today token req s) \<noteq> None"
proof -
  obtain l where "gen_letters V k s = Ok (l k)" for k using server_ok_letters [OF assms] by metis
  then show ?thesis by (auto simp: handleOpenDaily_def Let_def split: option.split prod.split)
qed

lemma np_open_days:
  assumes "externals_ok V"
  shows "server_ok V s \<Longrightarrow> fst (open_days V P now et rid is s) \<noteq> None"
proof (induction "is" arbitrary: s)
  case (Cons i "is")
  obtain l where l: "gen_letters V (date_key (add_days now i)) s = Ok l"
    using server_ok_letters [OF assms Cons.prems] by blast
  let ?s = "s\<lparr>sv_store := snd (OpenPaidDaily P (date_key (add_days now i)) rid et l (sv_store s))\<rparr>"
  have "server_ok V ?s"
    using assms by (intro server_ok_le [OF Cons.prems server_le_store [OF store_le_Open]])
      (simp add: externals_ok_def)
  from Cons.IH [OF this] show ?case
    by (auto simp: l Let_def split: prod.split option.split)
qed simp

lemma np_create_pool_round: "externals_ok V \<Longrightarrow> create_pool_round V fee et s = (x, s') \<Longrightarrow> \<exists>y. x = Ok y"
  by (auto simp: create_pool_round_def api_freshRoundID_eq no_panic_freshRoundID no_panic_chain
      split: option.splits prod.splits res.splits)

lemma np_handleCreatePool:
  assumes "externals_ok V" "server_ok V s"
  shows "fst (handleCreatePool V P now token req s) \<noteq> None"
proof -
  have "fst (case create_pool_round V f et s of
          (Ok (Inl refusal), s) \<Rightarrow> (Some refusal, s)
        | (Ok (Inr roundID), s) \<Rightarrow>
            (case open_days V P now et (big_String roundID) is s of
               (None, s) \<Rightarrow> (None, s)
             | (Some dateKeys, s) \<Rightarrow> (Some (body dateKeys roundID), s))
        | (_, s) \<Rightarrow> (None, s)) \<noteq> None" for f et "is" and body :: "string list \<Rightarrow> int \<Rightarrow> response"
  proof -
    obtain y s1 where y: "create_pool_round V f et s = (Ok y, s1)"
      using np_create_pool_round [OF assms(1)] by (metis surj_pair)
    then have s1: "server_ok V s1"
      using server_ok_le [OF assms(2) le_create_pool_round [of V s f et]] assms(1)
      by (simp add: externals_ok_def)
    show ?thesis
    proof (cases y)
      case (Inr rid)
      obtain ks s2 where "open_days V P now et (big_String rid) is s1 = (Some ks, s2)"
        using np_open_days [OF assms(1) s1, of P now et "big_String rid" "is"]
        by (cases "open_days V P now et (big_String rid) is s1") auto
      then show ?thesis by (simp add: y Inr)
    qed (simp add: y)
  qed
  then show ?thesis
    unfolding handleCreatePool_def Let_def by (auto split: option.split)
qed

lemma np_handleSignSettlement:
  assumes "externals_ok V"
  shows "fst (handleSignSettlement V token req s) \<noteq> None"
proof -
  have cw: "check_winners (e_eth V) c rid ws ch \<noteq> (Panic, ch')" for c rid ws ch ch'
    by (induction ws arbitrary: ch)
      (auto simp: no_panic_chain [OF assms] split: prod.splits res.splits if_splits)
  have ce: "check_entered (e_eth V) rid ws s \<noteq> (Panic, s')" for rid ws s'
    using cw by (auto simp: check_entered_def split: option.splits prod.splits)
  have "check_winners (e_eth V) c rid ws ch \<noteq> (Err e, ch')" for c rid ws ch ch' e
    by (induction ws arbitrary: ch) (auto split: prod.splits res.splits if_splits)
  then have ce': "check_entered (e_eth V) rid ws s \<noteq> (Err e, s')" for rid ws s' e
    by (auto simp: check_entered_def split: option.splits prod.splits)
  have "SignSettlement (e_eth V) (e_crypto V) sg r ws am \<noteq> Panic" for sg r ws am
    using assms by (intro SignSettlement_no_panic) (simp_all add: externals_ok_def)
  then have "sign_reply V sg r rid ps \<noteq> None" for sg r rid ps
    by (simp add: sign_reply_def split: res.split)
  then show ?thesis
    using ce ce' by (auto simp: handleSignSettlement_def split: option.split prod.split sum.split res.split)
qed

lemma clampSize_range: "4 \<le> clampSize n \<and> clampSize n \<le> 8" "4 \<le> clampGridSize n \<and> clampGridSize n \<le> 6"
  by (simp_all add: clampSize_def clampGridSize_def)

lemma np_handleSoloRack:
  assumes "externals_ok V" "server_ok V s"
  shows "handleSoloRack V seed q s \<noteq> None"
proof -
  have "dict_ok (sv_dict s)" "rng_ok (e_rng V)" "2 \<le> clampSize n" for n
    using assms clampSize_range(1) [of n] by (simp_all add: externals_ok_def server_ok_def)
  then show ?thesis
    using GenerateSolo_total [of "sv_dict s" "e_rng V" "clampSize (intQuery q (SoloRackSize (sv_cfg s)))" "e_uc V" seed]
    by (auto simp: handleSoloRack_def Let_def)
qed

lemma np_handleSoloGrid:
  assumes "externals_ok V" "server_ok V s"
  shows "handleSoloGrid V seed q s \<noteq> None"
proof -
  let ?n = "clampGridSize (intQuery q (SoloGridSize (sv_cfg s)))"
  obtain ws where ws: "sv_gridTrie s = NewTrie ws" using assms(2) by (auto simp: server_ok_def)
  have n: "4 \<le> ?n" "?n \<le> 6" using clampSize_range(2) by blast+
  have sq: "3 \<le> ?n * ?n" "?n * ?n \<le> 64"
    using mult_mono [of 4 ?n 4 ?n] mult_mono [of ?n 6 ?n 6] n by linarith+
  have "rng_ok (e_rng V)" "0 < ?n" using assms(1) n by (simp_all add: externals_ok_def)
  from grid_generate_cases [OF this sq]
  obtain res r' where "grid_generate (e_uc V) (e_rng V) (NewTrie ws) ?n ?n (new_source (e_rng V) seed) = Some (res, r')"
    by metis
  then show ?thesis by (simp add: handleSoloGrid_def Let_def grid_GenerateSolo_def ws)
qed

text \<open>The requests that go to the rooms; their sections are looked at one by one.\<close>

fun on_rooms :: "request \<Rightarrow> bool" where
  "on_rooms (Post_room_create b) = True" | "on_rooms (Post_room_join b) = True"
| "on_rooms (Post_room_start b) = True" | "on_rooms (Post_room_submit b) = True"
| "on_rooms Get_room_list = True" | "on_rooms (Get_room code you) = True"
| "on_rooms _ = False"

lemma np_Routes:
  assumes "externals_ok V" "server_ok V s" "Routes V P t rq s = Some (resp, s')" "\<not> on_rooms rq"
  shows "resp \<noteq> None"
proof -
  have fst_reply: "x = (resp, s') \<Longrightarrow> fst x \<noteq> None \<Longrightarrow> resp \<noteq> None" for x by simp
  show ?thesis
  proof (cases rq)
    case (Get_pool_list k)
    then show ?thesis using assms(3) by (auto simp: Routes_def split: prod.splits)
  next
    case (Get_solo_rack q)
    then show ?thesis using assms(3) np_handleSoloRack [OF assms(1,2)] by (auto simp: Routes_def)
  next
    case (Get_solo_grid q)
    then show ?thesis using assms(3) np_handleSoloGrid [OF assms(1,2)] by (auto simp: Routes_def)
  next
    case Get_daily
    then show ?thesis
      using assms(3) by (intro fst_reply [OF _ np_handleDaily(1) [OF assms(1,2)]]) (simp add: Routes_def)
  next
    case (Post_daily_submit b)
    then show ?thesis
      using assms(3) by (intro fst_reply [OF _ np_handleDailySubmit [OF assms(1,2)]]) (simp add: Routes_def)
  next
    case (Get_leaderboard d)
    then show ?thesis
      using assms(3) by (intro fst_reply [OF _ np_handleDaily(2) [OF assms(1,2)]]) (simp add: Routes_def)
  next
    case (Post_daily_open k b)
    then show ?thesis
      using assms(3) by (intro fst_reply [OF _ np_handleOpenDaily [OF assms(1,2)]]) (simp add: Routes_def)
  next
    case (Post_pool_create k b)
    then show ?thesis
      using assms(3) by (intro fst_reply [OF _ np_handleCreatePool [OF assms(1,2)]]) (simp add: Routes_def)
  next
    case (Post_sign_settlement k b)
    then show ?thesis
      using assms(3) by (intro fst_reply [OF _ np_handleSignSettlement [OF assms(1)]]) (simp add: Routes_def)
  qed (use assms(3,4) in \<open>auto simp: Routes_def\<close>)
qed

end
