(* ===== verification/Api_Properties.thy ===== *)
theory Api_Properties
  imports Api_Total
begin

text \<open>
  What the handlers promise: the fund-safety gates of the daily submission and of the settlement
  signature, the registration of a pool for its days, progress, and an answer to every request.
\<close>

section \<open>Helpers\<close>

lemma keep_best_changed:
  "keep_best sub m \<noteq> m \<Longrightarrow> map_of (keep_best sub m) (lower (sub_address sub)) = Some sub"
  by (auto simp: keep_best_def split: option.splits if_splits)

lemma paid_gate_state:
  "paid_gate V now addr d s = (g, s') \<Longrightarrow> sv_store s' = sv_store s \<and> sv_dict s' = sv_dict s"
  by (auto simp: paid_gate_def set_world_def split: if_splits option.splits prod.splits res.splits)

lemma paid_gate_pass:
  assumes "paid_gate V now addr d s = (Ok None, s')" "d_paid d"
  shows "now \<le> d_endTime d \<and> (\<exists>c rid. sv_chain s = Some c \<and> big_SetString (d_roundID d) = Some rid \<and>
    fst (HasEntered (e_eth V) c (Some rid) (HexToAddress (e_eth V) addr) (world_of s)) = Ok True)"
  using assms by (auto simp: paid_gate_def split: if_splits option.splits prod.splits res.splits)

lemma store_submit_daily:
  assumes "map_of (dailies st) k = Some d"
  shows "map_of (dailies (store_submit P k sub st)) k =
    Some (d\<lparr>d_submissions := keep_best sub (d_submissions d)\<rparr>)"
  using assms Daily_Submit_fst [of P sub d "pstate st"]
  by (auto simp: store_submit_def split: prod.split)

lemma open_days_registers:
  "open_days V P now et rid is s = (Some ks, s') \<Longrightarrow>
    ks = map (\<lambda>i. date_key (add_days now i)) is \<and>
    (\<forall>k. if k \<in> set ks then \<exists>d. map_of (dailies (sv_store s')) k = Some d \<and> d_paid d \<and>
        d_roundID d = rid \<and> d_endTime d = et
      else map_of (dailies (sv_store s')) k = map_of (dailies (sv_store s)) k)"
proof (induction "is" arbitrary: s ks)
  case (Cons i "is")
  let ?k = "date_key (add_days now i)"
  obtain l where l: "gen_letters V ?k s = Ok l"
    using Cons.prems by (auto simp: Let_def split: res.splits)
  let ?s = "s\<lparr>sv_store := snd (OpenPaidDaily P ?k rid et l (sv_store s))\<rparr>"
  obtain ks' where ks: "open_days V P now et rid is ?s = (Some ks', s')" "ks = ?k # ks'"
    using Cons.prems l by (auto simp: Let_def split: prod.splits option.splits)
  have k: "\<exists>d. map_of (dailies (sv_store ?s)) ?k = Some d \<and> d_paid d \<and> d_roundID d = rid \<and> d_endTime d = et"
    "k \<noteq> ?k \<Longrightarrow> map_of (dailies (sv_store ?s)) k = map_of (dailies (sv_store s)) k" for k
    by (simp_all add: OpenPaidDaily_def Let_def)
  note IH = Cons.IH [OF ks(1)]
  show ?case
  proof (intro conjI allI)
    show "ks = map (\<lambda>i. date_key (add_days now i)) (i # is)" using IH ks(2) by simp
    fix k
    show "if k \<in> set ks then \<exists>d. map_of (dailies (sv_store s')) k = Some d \<and> d_paid d \<and>
        d_roundID d = rid \<and> d_endTime d = et
      else map_of (dailies (sv_store s')) k = map_of (dailies (sv_store s)) k"
    proof (cases "k \<in> set ks'")
      case True
      then show ?thesis using IH ks(2) by simp
    next
      case False
      then have "map_of (dailies (sv_store s')) k = map_of (dailies (sv_store ?s)) k" using IH by simp
      then show ?thesis using k False ks(2) by (cases "k = ?k") simp_all
    qed
  qed
qed simp

lemma create_pool_round_ok:
  assumes "create_pool_round V fee et s = (Ok (Inr rid), s')"
  shows "sv_store s' = sv_store s \<and> (\<exists>writer c w. sv_writer s = Some writer \<and> sv_chain s = Some c \<and>
    api_freshRoundID (e_eth V) c (world_of s) = (Ok rid, w) \<and>
    fst (CreateRound (e_eth V) writer rid fee (word_of_int (Unix et)) w) = Ok ())"
  using assms by (auto simp: create_pool_round_def set_world_def split: option.splits prod.splits res.splits)

text \<open>The addresses entered a round, asked one after the other.\<close>

fun entered_all :: "'c eth \<Rightarrow> Client \<Rightarrow> int \<Rightarrow> address list \<Rightarrow> 'c \<Rightarrow> bool" where
  "entered_all E c rid [] ch = True"
| "entered_all E c rid (a # as) ch = (fst (HasEntered E c (Some rid) a ch) = Ok True \<and>
    entered_all E c rid as (snd (HasEntered E c (Some rid) a ch)))"

lemma check_winners_pass: "check_winners E c rid ws ch = (Ok None, ch') \<Longrightarrow> entered_all E c rid ws ch"
  by (induction ws arbitrary: ch) (auto split: prod.splits res.splits if_splits)

lemma parse_payouts_ok:
  "length ws = length amts \<Longrightarrow> parse_payouts E (zip ws amts) = Inr ps \<Longrightarrow>
    map fst ps = map (HexToAddress E) ws \<and> map (Some \<circ> snd) ps = map big_SetString amts \<and>
    (\<forall>w \<in> set ws. IsHexAddress E w)"
  by (induction ws amts arbitrary: ps rule: list_induct2)
    (auto split: if_splits option.splits sum.splits)

text \<open>No refusal has the status 200.\<close>

lemma refusals_not_200:
  "check_winners E c rid ws ch \<noteq> (Ok (Some (200, b)), ch')"
  "parse_payouts E ps \<noteq> Inl (200, b)"
  "create_pool_round V fee et s \<noteq> (Ok (Inl (200, b)), s')"
proof -
  show "check_winners E c rid ws ch \<noteq> (Ok (Some (200, b)), ch')"
    by (induction ws arbitrary: ch) (auto simp: writeErr_def split: prod.splits res.splits if_splits)
  show "parse_payouts E ps \<noteq> Inl (200, b)"
    by (induction ps) (auto simp: writeErr_def split: if_splits option.splits sum.splits)
  show "create_pool_round V fee et s \<noteq> (Ok (Inl (200, b)), s')"
    by (auto simp: create_pool_round_def writeErr_def split: option.splits prod.splits res.splits)
qed

section \<open>Properties\<close>

text \<open>
  C1: on a day opened as paid, a request changes the leaderboard only by a submission before the
  round's end of an address that the chain says entered the round, and what it adds is the score
  of the submitted words on the server's letters.
\<close>

theorem paid_submit_gated:
  assumes "map_of (dailies (sv_store s)) (date_key now) = Some d" "d_paid d"
    "handleDailySubmit V P now gate at (Some (addr, words)) s = (resp, s')"
    "map_of (dailies (sv_store s')) (date_key now) = Some d'" "d_submissions d' \<noteq> d_submissions d"
  shows "IsHexAddress (e_eth V) addr \<and> gate \<le> d_endTime d \<and>
    (\<exists>c rid. sv_chain s = Some c \<and> big_SetString (d_roundID d) = Some rid \<and>
      fst (HasEntered (e_eth V) c (Some rid) (HexToAddress (e_eth V) addr) (world_of s)) = Ok True) \<and>
    map_of (d_submissions d') (lower addr) = Some
      \<lparr>sub_address = addr, sub_score = total (Score (e_uc V) (sv_dict s) (d_letters d) words),
       sub_words = int (length (accepted (Score (e_uc V) (sv_dict s) (d_letters d) words))), sub_at = at\<rparr>"
proof -
  have hex: "IsHexAddress (e_eth V) addr"
    using assms(1,3-5) by (auto simp: handleDailySubmit_def split: if_splits)
  have g: "get_daily V P (date_key now) s = (Some d, s)"
    by (simp add: get_daily_def GetOrCreate_existing [OF assms(1)])
  obtain x s2 where x: "paid_gate V gate addr d s = (x, s2)" by fastforce
  define sub where "sub = \<lparr>sub_address = addr, sub_score = total (Score (e_uc V) (sv_dict s) (d_letters d) words),
       sub_words = int (length (accepted (Score (e_uc V) (sv_dict s) (d_letters d) words))), sub_at = at\<rparr>"
  have st: "sv_store s2 = sv_store s" "sv_dict s2 = sv_dict s" using paid_gate_state [OF x] by simp_all
  have s': "s' = (if x = Ok None then s2\<lparr>sv_store := store_submit P (date_key now) sub (sv_store s)\<rparr> else s2)"
    using handleDailySubmit_cases [OF hex g x, of at words] assms(3) by (simp add: st sub_def)
  have pass: "x = Ok None"
    using assms(1,4,5) s' st by (auto split: if_splits)
  then have d': "d_submissions d' = keep_best sub (d_submissions d)"
    using assms(4) s' store_submit_daily [OF assms(1), of P sub] by auto
  then have "map_of (d_submissions d') (lower addr) = Some sub"
    using keep_best_changed [of sub "d_submissions d"] assms(5) by (simp add: sub_def)
  then show ?thesis
    using hex paid_gate_pass [OF x [unfolded pass] assms(2)] by (simp add: sub_def)
qed

text \<open>
  C16: a pool is reported as created only after the chain confirmed a fresh round of it, and then
  exactly the \<open>days\<close> different dates from today on are paid rounds with its id, which reads back
  as the number on chain, and its end; every other date is left alone.
\<close>

theorem create_pool_registers:
  assumes "handleCreatePool V P now token (Some (fee, days)) s = (Some (200, body), s')" "0 \<le> now"
  shows "adminOK s token = None \<and> 1 \<le> days \<and> days \<le> 90 \<and>
    (\<exists>amount writer c rid w. big_SetString fee = Some amount \<and> 0 < amount \<and>
      sv_writer s = Some writer \<and> sv_chain s = Some c \<and>
      api_freshRoundID (e_eth V) c (world_of s) = (Ok rid, w) \<and>
      fst (CreateRound (e_eth V) writer rid amount (word_of_int (Unix (add_days now (nat days)))) w) = Ok () \<and>
      distinct (map (\<lambda>i. date_key (add_days now i)) [0..<nat days]) \<and>
      (\<forall>k. if k \<in> set (map (\<lambda>i. date_key (add_days now i)) [0..<nat days])
        then \<exists>d. map_of (dailies (sv_store s')) k = Some d \<and> d_paid d \<and>
          big_SetString (d_roundID d) = Some rid \<and> d_endTime d = add_days now (nat days)
        else map_of (dailies (sv_store s')) k = map_of (dailies (sv_store s)) k))"
proof -
  let ?et = "add_days now (nat days)"
  have ok: "adminOK s token = None"
    using assms(1) by (auto simp: handleCreatePool_def adminOK_def writeErr_def split: if_splits)
  obtain amount where amount: "big_SetString fee = Some amount" "0 < amount" "1 \<le> days" "days \<le> 90"
    using assms(1) ok by (auto simp: handleCreatePool_def writeErr_def split: option.splits if_splits)
  obtain y s1 where y: "create_pool_round V amount ?et s = (y, s1)" by fastforce
  obtain rid where rid: "y = Ok (Inr rid)"
    using assms(1) ok amount y
    by (auto simp: handleCreatePool_def Let_def refusals_not_200 split: res.splits sum.splits)
  obtain ks where ks: "open_days V P now ?et (big_String rid) [0..<nat days] s1 = (Some ks, s')"
    using assms(1) ok amount y rid by (auto simp: handleCreatePool_def Let_def split: prod.splits option.splits)
  note reg = open_days_registers [OF ks]
  have "inj_on (\<lambda>i. date_key (add_days now i)) (set [0..<nat days])"
    by (rule inj_onI) (simp add: date_key_days_inj [OF assms(2)])
  then have dist: "distinct (map (\<lambda>i. date_key (add_days now i)) [0..<nat days])"
    by (simp add: distinct_map)
  have days: "\<forall>k. if k \<in> set (map (\<lambda>i. date_key (add_days now i)) [0..<nat days])
        then \<exists>d. map_of (dailies (sv_store s')) k = Some d \<and> d_paid d \<and>
          big_SetString (d_roundID d) = Some rid \<and> d_endTime d = ?et
        else map_of (dailies (sv_store s')) k = map_of (dailies (sv_store s)) k"
  proof
    fix k
    have "sv_store s1 = sv_store s" using create_pool_round_ok [OF y [unfolded rid]] by simp
    moreover have "ks = map (\<lambda>i. date_key (add_days now i)) [0..<nat days]" using reg by blast
    ultimately show "if k \<in> set (map (\<lambda>i. date_key (add_days now i)) [0..<nat days])
        then \<exists>d. map_of (dailies (sv_store s')) k = Some d \<and> d_paid d \<and>
          big_SetString (d_roundID d) = Some rid \<and> d_endTime d = ?et
        else map_of (dailies (sv_store s')) k = map_of (dailies (sv_store s)) k"
      using reg SetString_String [of rid] by (metis (no_types, lifting))
  qed
  show ?thesis
    using ok amount create_pool_round_ok [OF y [unfolded rid]] dist days by blast
qed

text \<open>
  C3: a settlement is signed only on an admin's request with a referee key, for as many winners
  as amounts and at least one, all of them addresses; with a chain client each winner entered the
  round; the reply carries the referee's signature of exactly these winners and amounts.
\<close>

theorem sign_settlement_gated:
  assumes "handleSignSettlement V token (Some (rid, ws, amts)) s = (Some (200, body), s')"
  shows "adminOK s token = None \<and> ws \<noteq> [] \<and> length ws = length amts \<and>
    (\<forall>w \<in> set ws. IsHexAddress (e_eth V) w) \<and>
    (\<exists>sg roundID amounts sig. sv_signer s = Some sg \<and> big_SetString rid = Some roundID \<and>
      map big_SetString amts = map Some amounts \<and>
      (\<forall>c. sv_chain s = Some c \<longrightarrow>
        entered_all (e_eth V) c roundID (map (HexToAddress (e_eth V)) ws) (world_of s)) \<and>
      SignSettlement (e_eth V) (e_crypto V) sg (Some roundID) (map (HexToAddress (e_eth V)) ws) amounts = Ok sig \<and>
      body = JMap [(''roundId'', JStr rid), (''referee'', JStr (Hex (e_eth V) (s_address sg))),
        (''signature'', JStr (''0x'' @ Bytes2Hex (e_eth V) sig))])"
proof -
  have ok: "adminOK s token = None"
    using assms by (auto simp: handleSignSettlement_def adminOK_def writeErr_def split: if_splits)
  obtain sg where sg: "sv_signer s = Some sg"
    using assms ok by (auto simp: handleSignSettlement_def writeErr_def split: option.splits)
  obtain roundID where r: "big_SetString rid = Some roundID"
    using assms ok sg by (auto simp: handleSignSettlement_def writeErr_def split: option.splits)
  have len: "length ws = length amts" "ws \<noteq> []"
    using assms ok sg r by (auto simp: handleSignSettlement_def writeErr_def split: if_splits)
  obtain ps where ps: "parse_payouts (e_eth V) (zip ws amts) = Inr ps"
    using assms ok sg r len by (auto simp: handleSignSettlement_def refusals_not_200 split: sum.splits)
  note pp = parse_payouts_ok [OF len(1) ps]
  obtain x s1 where x: "check_entered (e_eth V) roundID (map fst ps) s = (x, s1)" by fastforce
  have x': "x = Ok None" and rep: "sign_reply V sg rid roundID ps = Some (200, body)"
    using assms ok sg r len ps x
    by (auto simp: handleSignSettlement_def check_entered_def refusals_not_200 split: res.splits option.splits prod.splits)
  obtain sig where sig: "SignSettlement (e_eth V) (e_crypto V) sg (Some roundID) (map fst ps) (map snd ps) = Ok sig"
    "body = JMap [(''roundId'', JStr rid), (''referee'', JStr (Hex (e_eth V) (s_address sg))),
        (''signature'', JStr (''0x'' @ Bytes2Hex (e_eth V) sig))]"
    using rep by (auto simp: sign_reply_def writeErr_def split: res.splits)
  have "entered_all (e_eth V) c roundID (map fst ps) (world_of s)" if "sv_chain s = Some c" for c
    using x x' that check_winners_pass by (auto simp: check_entered_def split: prod.splits)
  then have ent: "\<forall>c. sv_chain s = Some c \<longrightarrow>
      entered_all (e_eth V) c roundID (map (HexToAddress (e_eth V)) ws) (world_of s)"
    using pp by metis
  have am: "map big_SetString amts = map Some (map snd ps)" using pp by (simp add: comp_def)
  show ?thesis
    using ok sg r len pp ent sig am by metis
qed

section \<open>Witnesses\<close>

text \<open>A server with today's round open until time 100, and a chain where everybody entered.\<close>

definition toy_cfg :: Config where
  "toy_cfg = \<lparr>SoloRackSize = 6, SoloGridSize = 4, DailyRackSize = 0, AdminToken = ''tok''\<rparr>"

definition toy_daily :: Daily where
  "toy_daily = \<lparr>d_dateKey = ''0001-01-01'', d_letters = ''CATS'', d_paid = True, d_roundID = ''9'',
    d_endTime = 100, d_submissions = []\<rparr>"

definition toy_server :: "(unit, unit) Server" where
  "toy_server = EnableRoomStaking (Some toy_writer) (Some toy_client) (Some toy_signer)
    (api_New [] (NewFromWords (\<lambda>r. r) [''cat'']) (NewTrie []) \<lparr>dailies = [(''0001-01-01'', toy_daily)], pstate = ()\<rparr>
      (Some toy_signer) (Some toy_client) toy_cfg ())"

lemma today_0: "date_key 0 = ''0001-01-01''"
  by code_simp

lemma toy_round: "map_of (dailies (sv_store toy_server)) (date_key 0) = Some toy_daily"
  by (simp add: today_0 toy_server_def api_New_def EnableRoomStaking_def)

lemma toy_server_simps [simp]: "sv_signer toy_server = Some toy_signer" "sv_chain toy_server = Some toy_client"
  "sv_writer toy_server = Some toy_writer" "world_of toy_server = ()" "AdminToken (sv_cfg toy_server) = ''tok''"
  by (simp_all add: toy_server_def EnableRoomStaking_def api_New_def toy_cfg_def)

lemma toy_hex [simp]: "IsHexAddress toy_eth a \<longleftrightarrow> a \<noteq> []"
  by (simp add: toy_eth_def)

lemma toy_admin: "adminOK toy_server ''tok'' = None"
  by (simp add: adminOK_def)

lemma toy_numbers: "big_SetString ''9'' = Some 9" "big_SetString ''100'' = Some 100" "big_SetString ''5'' = Some 5"
  by code_simp+

lemma toy_submits:
  assumes "handleDailySubmit toy_env None 0 50 60 (Some (''p2'', words)) toy_server = (resp, s')"
  shows "\<exists>d'. map_of (dailies (sv_store s')) (date_key 0) = Some d' \<and> d_submissions d' \<noteq> []"
proof -
  have h: "IsHexAddress (e_eth toy_env) ''p2''" by (simp add: toy_eth_def)
  have g: "get_daily toy_env None (date_key 0) toy_server = (Some toy_daily, toy_server)"
    by (simp add: get_daily_def GetOrCreate_existing [OF toy_round])
  have "paid_gate toy_env 50 ''p2'' toy_daily toy_server = (Ok None, set_world () toy_server)"
    by (simp add: paid_gate_def toy_daily_def toy_entered toy_numbers)
  from handleDailySubmit_cases [OF h g this, of 60 words] assms
  obtain sub where "sv_store s' = store_submit None (date_key 0) sub (sv_store toy_server)"
    by (auto simp: set_world_def)
  then show ?thesis
    using store_submit_daily [OF toy_round, of None sub] by (simp add: keep_best_def toy_daily_def)
qed

theorem paid_submit_gated_witness:
  "IsHexAddress toy_eth ''p2'' \<and> (50::int) \<le> d_endTime toy_daily"
proof -
  obtain resp s' where r: "handleDailySubmit toy_env None 0 50 60 (Some (''p2'', [''cat''])) toy_server = (resp, s')"
    by fastforce
  obtain d' where d': "map_of (dailies (sv_store s')) (date_key 0) = Some d'" "d_submissions d' \<noteq> []"
    using toy_submits [OF r] by blast
  have "d_paid toy_daily" "d_submissions d' \<noteq> d_submissions toy_daily"
    using d'(2) by (simp_all add: toy_daily_def)
  from paid_submit_gated [OF toy_round this(1) r d'(1) this(2)] show ?thesis by simp
qed

text \<open>A chain on which no round exists yet.\<close>

definition open_env :: "(unit, unit) env" where
  "open_env = toy_env\<lparr>e_eth := toy_eth\<lparr>Call := (\<lambda>c f args w. (if ANilBig \<in> set args then Panic
    else Ok [ABool (f = ''hasEntered'')], w))\<rparr>\<rparr>"

lemma externals_ok_toy: "externals_ok toy_env" "externals_ok open_env"
proof -
  have toy: "\<And>c f args ch. fst (Call toy_eth c f args ch) = Panic \<longleftrightarrow> ANilBig \<in> set args"
    "\<And>c f args ch. fst (Call toy_eth c f args ch) \<noteq> Ok []"
    "\<And>w f args ch. fst (Transact toy_eth w f args ch) \<noteq> Panic"
    "\<And>w tx ch. fst (WaitMined toy_eth w tx ch) \<noteq> Panic" "\<And>n ch. fst (RandRead toy_eth n ch) \<noteq> Panic"
    "\<And>td n part. HashStruct toy_crypto td n part \<noteq> Panic"
    by (simp_all add: toy_eth_def toy_crypto_def encode_round_def)
  show "externals_ok toy_env" "externals_ok open_env"
    using case_table_toy sign_ok_toy toy rng_ok_first
    by (simp_all add: externals_ok_def open_env_def toy_env_def)
qed

lemma server_ok_toy: "server_ok open_env toy_server"
proof -
  have "mgr_ok (e_uc open_env) (sv_rooms toy_server)"
    unfolding toy_server_def EnableRoomStaking_def api_New_def
    by (simp add: mgr_ok_New [OF dict_ok_NewFromWords])
  then show ?thesis
    by (auto simp: server_ok_def toy_server_def EnableRoomStaking_def api_New_def default_size_def
        toy_cfg_def dict_ok_NewFromWords)
qed

lemma toy_pool: "fst (create_pool_round open_env 5 (2 * day_ns) toy_server) = Ok (Inr 0)"
proof -
  have "api_freshRoundID (e_eth open_env) toy_client () = (Ok 0, ())"
    by (simp add: api_freshRoundID_def numeral_eq_Suc read_buf_def SetBytes_def RoundExists_def
        exists_of_def open_env_def toy_eth_def)
  then show ?thesis
    by (simp add: create_pool_round_def CreateRound_def send_def) (simp add: open_env_def toy_eth_def)
qed

theorem create_pool_registers_witness:
  "\<exists>body s'. handleCreatePool open_env None 0 ''tok'' (Some (''5'', 2)) toy_server = (Some (200, body), s') \<and>
    (\<exists>d. map_of (dailies (sv_store s')) ''0001-01-01'' = Some d \<and> d_paid d \<and> d_endTime d = 2 * day_ns)"
proof -
  obtain s1 where s1: "create_pool_round open_env 5 (2 * day_ns) toy_server = (Ok (Inr 0), s1)"
    using toy_pool by (metis prod.collapse)
  have "server_ok open_env s1"
    using server_ok_le [OF server_ok_toy le_create_pool_round [of open_env toy_server 5 "2 * day_ns"]]
      externals_ok_toy(2) by (simp add: s1 externals_ok_def)
  from np_open_days [OF externals_ok_toy(2) this]
  obtain ks s2 where s2: "open_days open_env None 0 (2 * day_ns) (big_String 0) [0..<2] s1 = (Some ks, s2)"
    by (metis option.exhaust prod.collapse)
  have e: "add_days 0 (nat 2) = 2 * day_ns" "add_days 0 2 = 2 * day_ns" "nat 2 = 2"
    by (simp_all add: add_days_def)
  obtain body where h: "handleCreatePool open_env None 0 ''tok'' (Some (''5'', 2)) toy_server = (Some (200, body), s2)"
    using s1 s2 by (simp add: handleCreatePool_def toy_admin toy_numbers e Let_def)
  have "date_key 0 = date_key (add_days 0 0)" by (simp add: add_days_def)
  then have "''0001-01-01'' \<in> set (map (\<lambda>i. date_key (add_days 0 i)) [0..<nat 2])"
    by (auto simp: today_0 [symmetric] intro!: image_eqI [of _ _ 0])
  moreover obtain rid where "\<forall>k. if k \<in> set (map (\<lambda>i. date_key (add_days 0 i)) [0..<nat 2])
        then \<exists>d. map_of (dailies (sv_store s2)) k = Some d \<and> d_paid d \<and>
          big_SetString (d_roundID d) = Some rid \<and> d_endTime d = add_days 0 (nat 2)
        else map_of (dailies (sv_store s2)) k = map_of (dailies (sv_store toy_server)) k"
    using create_pool_registers [OF h order_refl] by blast
  ultimately obtain d where "map_of (dailies (sv_store s2)) ''0001-01-01'' = Some d" "d_paid d"
    "d_endTime d = add_days 0 (nat 2)" by metis
  then show ?thesis using h e(1) by auto
qed

lemma toy_signs: "map_option fst (fst (handleSignSettlement toy_env ''tok''
    (Some (''9'', [''p2''], [''100''])) toy_server)) = Some 200"
proof -
  have p: "parse_payouts toy_eth [(''p2'', ''100'')] = Inr [(HexToAddress toy_eth ''p2'', 100)]"
    by (simp add: toy_numbers)
  have c: "check_entered toy_eth 9 ws toy_server = (Ok None, set_world () toy_server)" for ws
  proof -
    have "check_winners toy_eth toy_client 9 ws () = (Ok None, ())"
      by (induction ws) (simp_all add: toy_entered)
    then show ?thesis by (simp add: check_entered_def)
  qed
  have "map_option fst (sign_reply toy_env toy_signer rid 9 [(w, 100)]) = Some 200" for rid w
    by (simp add: sign_reply_def SignSettlement_def Digest_def Let_def toy_env_def toy_crypto_def)
  then show ?thesis
    by (simp add: handleSignSettlement_def toy_admin toy_numbers p c)
qed

theorem sign_settlement_gated_witness:
  "\<exists>sig. SignSettlement toy_eth toy_crypto toy_signer (Some 9) [HexToAddress toy_eth ''p2''] [100] = Ok sig"
proof -
  obtain b s' where h: "handleSignSettlement toy_env ''tok'' (Some (''9'', [''p2''], [''100''])) toy_server =
      (Some (200, b), s')"
    using toy_signs by (cases "handleSignSettlement toy_env ''tok'' (Some (''9'', [''p2''], [''100''])) toy_server")
      auto
  show ?thesis
    using sign_settlement_gated [OF h] by (auto simp: toy_numbers toy_env_def)
qed

definition toy_time :: reading where
  "toy_time = \<lparr>t_first = 0, t_second = 50, t_third = 60, t_seed = 7\<rparr>"

end
