(* ===== verification/Settlement.thy ===== *)
theory Settlement
  imports Api_Properties
begin

text \<open>
  A staked race comes to its settlement: when the timer \<open>Start\<close> arms fires after the race has
  ended, \<open>settleRoom\<close> pays the winner, or records which step of the payment was refused.
\<close>

section \<open>What never changes\<close>

text \<open>The on-chain pieces are installed once, before the first room.\<close>

definition chain_of :: "'c Manager \<Rightarrow> Writer option \<times> Client option \<times> Signer option" where
  "chain_of m = (m_writer m, m_reader m, m_signer m)"

lemma chain_of_update [simp]:
  "chain_of (m\<lparr>m_world := x\<rparr>) = chain_of m" "chain_of (m\<lparr>m_rooms := y\<rparr>) = chain_of m"
  "chain_of (m\<lparr>m_heap := h\<rparr>) = chain_of m" "chain_of (m\<lparr>m_timers := ts\<rparr>) = chain_of m"
  "chain_of (set_room a r m) = chain_of m"
  by (simp_all add: chain_of_def)

lemma chain_of_snapshot [simp]: "chain_of (snd (snapshot now viewer a m)) = chain_of m"
  by (simp add: snd_snapshot)

lemma chain_of_publish:
  "create_publish V pid public stake m = Some (a, code, m') \<Longrightarrow> chain_of m' = chain_of m"
  by (auto simp: create_publish_def Let_def chain_of_def split: option.splits prod.splits)

lemma chain_of_Join_at: "chain_of (snd (Join_at V now a pid name m)) = chain_of m"
proof -
  have "chain_of m' = chain_of m" if "verify_stake V pid r m = (x, m')" for r x m'
    using that verify_stake_world [of V pid r m] by auto
  then show ?thesis by (auto simp: Join_at_def Let_def split: prod.split res.split)
qed

lemma chain_of_Start_at: "chain_of (snd (Start_at V now seed a pid m)) = chain_of m"
  by (simp add: Start_at_def Let_def split: option.split)

lemma chain_of_Submit_at: "chain_of (snd (Submit_at V now a pid word m)) = chain_of m"
  by (simp add: Submit_at_def Let_def snd_submit_done split: option.split list.split)

lemma chain_of_step: "room_step V m m' \<Longrightarrow> chain_of m' = chain_of m"
  by (induction rule: room_step.induct)
    (simp_all add: chain_of_publish chain_of_Join_at chain_of_Start_at chain_of_Submit_at create_host_def
      set_round_def drop_room_def scheduleSettle_def settle_begin_def settle_end_def Let_def)

lemma chain_of_reach: "room_reach V m m' \<Longrightarrow> chain_of m' = chain_of m"
  by (induction rule: room_reach.induct) (simp_all add: chain_of_step)

lemma reachable_chain:
  assumes "room_reach V (room_initial V rs text w rd sg c) m"
  shows "m_writer m = w" "m_reader m = rd" "m_signer m = sg"
  using chain_of_reach [OF assms]
  by (simp_all add: chain_of_def room_initial_def EnableStaking_def NewManager_def)

text \<open>Nobody is in a staked room before its round is opened: a join then panics on the nil round id.\<close>

definition funded :: "'c Manager \<Rightarrow> bool" where
  "funded m \<longleftrightarrow> (\<forall>a < length (m_heap m). r_stake (m_heap m ! a) \<noteq> None \<and> r_roundID (m_heap m ! a) = None \<longrightarrow>
    r_order (m_heap m ! a) = [])"

lemma funded_quiet: "quiet m m' \<Longrightarrow> funded m \<Longrightarrow> funded m'"
  unfolding funded_def by (metis quietD quiet_length)

lemma verify_stake_funded:
  assumes "externals_ok V" "verify_stake V pid r m = (Ok (), m1)" "r_stake r \<noteq> None"
  shows "r_roundID r \<noteq> None"
proof
  assume n: "r_roundID r = None"
  obtain reader where "fst (HasEntered (e_eth V) reader None (HexToAddress (e_eth V) pid) (m_world m)) = Ok True"
    using assms(2,3) unfolding verify_stake_def n
    by (auto split: if_splits option.splits prod.splits res.splits dest: arg_cong [where f = fst])
  then show False using nil_round_panics [OF assms(1)] by simp
qed

lemma funded_join:
  assumes "externals_ok V" "mgr_ok uc m" "funded m" "a < length (m_heap m)"
  shows "funded (snd (Join_at V now a pid name m))" (is "funded ?m")
  unfolding funded_def
proof (intro allI impI)
  fix b assume b: "b < length (m_heap ?m)" "r_stake (m_heap ?m ! b) \<noteq> None \<and> r_roundID (m_heap ?m ! b) = None"
  then have len: "b < length (m_heap m)" by (simp add: Join_at_other(1))
  have old: "r_order (m_heap m ! b) = []" if "r_stake (m_heap m ! b) \<noteq> None" "r_roundID (m_heap m ! b) = None"
    using assms(3) len that by (simp add: funded_def)
  show "r_order (m_heap ?m ! b) = []"
  proof (cases "b = a")
    case False
    then show ?thesis using b(2) old by (simp add: Join_at_other(2))
  next
    case True
    show ?thesis
    proof (cases rule: Join_at_room [OF assms(2,4) refl refl, of V now pid name, case_names same added])
      case same
      then show ?thesis using b(2) old True by (auto simp: quiet_room_def)
    next
      case added
      obtain m1 where "verify_stake V pid (m_heap m ! a) m = (Ok (), m1)" using added(8) by blast
      from verify_stake_funded [OF assms(1) this] show ?thesis using b(2) True added(3,4) by simp
    qed
  qed
qed

lemma funded_step:
  assumes "room_step V m m'" "externals_ok V" "mgr_ok uc m" "funded m"
  shows "funded m'"
  using assms(1)
proof cases
  case (publish pid public stake a code)
  show ?thesis using assms(4) publish_simps(4) [OF publish] by (auto simp: funded_def nth_append)
next
  case (hosted a name)
  then show ?thesis using assms(4)
    by (auto simp: funded_def create_host_def set_room_def nth_list_update addPlayer_simps)
next
  case (join a now pid name)
  then show ?thesis using funded_join [OF assms(2,3,4)] by simp
qed (use assms(4) in \<open>auto intro: funded_quiet [rotated]\<close>)

lemma reachable_funded:
  assumes "room_reach V (room_initial V rs text w rd sg c) m" "externals_ok V"
  shows "funded m"
  using assms(1)
proof induction
  case start_state
  show ?case by (simp add: funded_def room_initial_def EnableStaking_def NewManager_def)
next
  case (next_state m' m'')
  have "case_table (e_uc V)" using assms(2) by (simp add: externals_ok_def)
  from funded_step [OF next_state.hyps(2) assms(2) reachable_ok(1) [OF this next_state.hyps(1)] next_state.IH]
  show ?case .
qed

section \<open>The payment\<close>

text \<open>
  Why a settlement is recorded as failed: no winner with an address, the round could not be read,
  the key did not sign, or the transaction was refused.
\<close>

definition settle_blocked :: "('c, 'r) env \<Rightarrow> Client \<Rightarrow> Signer \<Rightarrow> Writer \<Rightarrow> string \<Rightarrow> int option \<Rightarrow> 'c \<Rightarrow>
    string \<Rightarrow> bool" where
  "settle_blocked V rd sg w i roundID ch err \<longleftrightarrow>
    (if i = [] \<or> \<not> IsHexAddress (e_eth V) i then err = ''no eligible winner''
     else case GetRound (e_eth V) rd roundID ch of
       (Ok rnd, ch) \<Rightarrow>
         let ws = [HexToAddress (e_eth V) i]; xs = [payoutAfterRake (Pot rnd) (RakeBps rnd)]
         in (case SignSettlement (e_eth V) (e_crypto V) sg roundID ws xs of
               Ok sig \<Rightarrow> fst (Settle (e_eth V) w roundID ws xs sig ch) = Err err
             | Err e \<Rightarrow> err = e
             | Panic \<Rightarrow> False)
     | (Err e, ch) \<Rightarrow> err = ''could not read round state: '' @ e
     | (Panic, ch) \<Rightarrow> False)"

lemma no_panic_GetRound:
  assumes "externals_ok V"
  shows "GetRound (e_eth V) c (Some rid) ch \<noteq> (Panic, ch')"
proof -
  have "decode_round out \<noteq> Panic" for out
    by (auto simp: decode_round_def expect_def split: option.split)
  then show ?thesis
    by (auto simp: GetRound_def no_panic_calls [OF assms] split: prod.splits res.splits)
qed

lemma no_panic_Settle: "externals_ok V \<Longrightarrow> Settle (e_eth V) w (Some rid) ws xs sig ch \<noteq> (Panic, ch')"
  by (auto simp: Settle_def send_def no_panic_calls split: prod.splits res.splits)

lemma settle_pay_ends:
  assumes "externals_ok V" "m_reader m = Some rd" "m_signer m = Some sg" "m_writer m = Some w"
    "i \<noteq> [] \<Longrightarrow> rid \<noteq> None"
  shows "\<exists>st err m'. settle_pay V i rid m = (Ok (st, err), m') \<and>
    (st = Settled_ok \<or> st = Settle_failed \<and> settle_blocked V rd sg w i rid (m_world m) err)"
proof (cases "i = [] \<or> \<not> IsHexAddress (e_eth V) i")
  case True
  then show ?thesis by (simp add: settle_pay_def settle_blocked_def)
next
  case False
  then obtain n where n: "rid = Some n" using assms(5) by blast
  have sign: "SignSettlement (e_eth V) (e_crypto V) sg rid ws xs \<noteq> Panic" for ws xs
    using assms(1) by (intro SignSettlement_no_panic) (simp_all add: externals_ok_def)
  obtain x ch where g: "GetRound (e_eth V) rd rid (m_world m) = (x, ch)" by fastforce
  show ?thesis
  proof (cases x)
    case (Ok rnd)
    have st: "\<exists>y ch'. Settle (e_eth V) w rid ws xs sig ch = (y, ch') \<and> y \<noteq> Panic" for ws xs sig
      using no_panic_Settle [OF assms(1)] unfolding n by (metis surj_pair)
    show ?thesis
    proof (cases "SignSettlement (e_eth V) (e_crypto V) sg rid [HexToAddress (e_eth V) i]
        [payoutAfterRake (Pot rnd) (RakeBps rnd)]")
      case (Ok sig)
      then show ?thesis using False g \<open>x = Ok rnd\<close> assms(2-4)
          st [of "[HexToAddress (e_eth V) i]" "[payoutAfterRake (Pot rnd) (RakeBps rnd)]" sig]
        by (auto simp: settle_pay_def settle_blocked_def split: res.split)
    qed (use False g \<open>x = Ok rnd\<close> sign assms(2-4) in
        \<open>simp_all add: settle_pay_def settle_blocked_def\<close>)
  qed (use False g assms(2) no_panic_GetRound [OF assms(1)] n in
      \<open>auto simp: settle_pay_def settle_blocked_def\<close>)
qed

text \<open>A finished race that nobody settled is settled, or recorded as failed, by the next timer.\<close>

lemma settleRoom_ends:
  assumes "externals_ok V" "room_ok (e_uc V) d r" "a < length (m_heap m)"
    "r = maybeFinishLocked now (m_heap m ! a)" "r_state r = Over" "r_settleStatus r = Not_settled"
    "m_reader m = Some rd" "m_signer m = Some sg" "m_writer m = Some w"
    "r_stake r \<noteq> None" "r_roundID r = None \<Longrightarrow> r_order r = []"
  obtains st m' i where "settleRoom V now a m = (Ok (), m')" "leaderLocked r = Ok i"
    "i \<noteq> [] \<Longrightarrow> best_player r i" "r_state (m_heap m' ! a) = Over" "r_settleStatus (m_heap m' ! a) = st"
    "st = Settled_ok \<or> st = Settle_failed \<and>
      settle_blocked V rd sg w i (r_roundID r) (m_world m) (r_settleErr (m_heap m' ! a))"
proof -
  define m1 where "m1 = set_room a (r\<lparr>r_settleStatus := Pending\<rparr>) m"
  obtain i where i: "leaderLocked r = Ok i" "i \<noteq> [] \<Longrightarrow> best_player r i"
    using leaderLocked_best [OF assms(2,10)] by blast
  have b: "settle_begin now a m = (Some (Ok i), m1)"
    using assms(5,6) i(1) by (simp add: settle_begin_def Let_def assms(4) [symmetric] m1_def)
  have m1: "m_heap m1 ! a = r\<lparr>r_settleStatus := Pending\<rparr>" "a < length (m_heap m1)"
    "m_reader m1 = Some rd" "m_signer m1 = Some sg" "m_writer m1 = Some w" "m_world m1 = m_world m"
    using assms(3,7-9) by (simp_all add: m1_def set_room_def)
  have rid: "r_roundID r \<noteq> None" if "i \<noteq> []"
  proof
    assume "r_roundID r = None"
    from assms(11) [OF this] i(2) [OF that] show False by (auto simp: best_player_def)
  qed
  obtain st err m2 where p: "settle_pay V i (r_roundID r) m1 = (Ok (st, err), m2)"
    "st = Settled_ok \<or> st = Settle_failed \<and> settle_blocked V rd sg w i (r_roundID r) (m_world m) err"
    using settle_pay_ends [OF assms(1) m1(3-5) rid] unfolding m1(6) by blast
  have "m_heap m2 = m_heap m1" using settle_pay_heap [of V i "r_roundID r" m1] by (simp add: p)
  then show thesis
    using that [of "settle_end a st err m2" i st] b p m1(1,2) i assms(5)
    by (auto simp: settleRoom_def settle_end_def Let_def)
qed

text \<open>Finishing a race changes neither its ranking nor its leader.\<close>

lemma maybeFinish_leader [simp]:
  "leaderLocked (maybeFinishLocked now r) = leaderLocked r"
  "best_player (maybeFinishLocked now r) i = best_player r i"
proof -
  have sc: "score_of (maybeFinishLocked now r) = score_of r" by (simp add: score_of_def fun_eq_iff)
  moreover have "ranks_above (maybeFinishLocked now r) = ranks_above r"
    by (simp add: ranks_above_def sc pos_of_def fun_eq_iff)
  ultimately show "leaderLocked (maybeFinishLocked now r) = leaderLocked r"
    "best_player (maybeFinishLocked now r) i = best_player r i"
    by (simp_all add: leaderLocked_def rankedIDsLocked_def best_player_def)
qed

text \<open>The timer of a race that has ended, however the rooms got where they are.\<close>

lemma ended_race_settled:
  assumes "externals_ok V" "room_reach V (room_initial V rs text (Some w) (Some rd) (Some sg) c) m1"
    "a < length (m_heap m1)" "r_state (m_heap m1 ! a) \<noteq> Lobby" "r_endsAt (m_heap m1 ! a) \<le> t'"
    "room_reach V m1 m2" "r_settleStatus (m_heap m2 ! a) = Not_settled"
    "r_stake (m_heap m1 ! a) \<noteq> None"
  shows "\<exists>m3 i. settleRoom V t' a m2 = (Ok (), m3) \<and> r_state (m_heap m3 ! a) = Over \<and>
    leaderLocked (m_heap m2 ! a) = Ok i \<and> (i \<noteq> [] \<longrightarrow> best_player (m_heap m2 ! a) i) \<and>
    (r_settleStatus (m_heap m3 ! a) = Settled_ok \<or> r_settleStatus (m_heap m3 ! a) = Settle_failed \<and>
      settle_blocked V rd sg w i (r_roundID (m_heap m2 ! a)) (m_world m2) (r_settleErr (m_heap m3 ! a)))"
proof -
  have ext: "case_table (e_uc V)" using assms(1) by (simp add: externals_ok_def)
  let ?r = "m_heap m2 ! a"
  note g = good_reach [OF assms(6) reachable_ok(1) [OF ext assms(2)] ext refl]
  have le: "room_le (m_heap m1 ! a) ?r" "a < length (m_heap m2)"
    using g assms(3) by (auto simp: good_def mgr_le_def)
  have over: "r_state (maybeFinishLocked t' ?r) = Over"
    using le(1) assms(4,5) by (cases "r_state ?r") (auto simp: room_le_def maybeFinishLocked_def)
  have rok: "room_ok (e_uc V) (m_dict m2) (maybeFinishLocked t' ?r)"
    using g le(2) by (intro room_ok_maybeFinish mgr_ok_heap) (simp_all add: good_def)
  have ch: "m_reader m2 = Some rd" "m_signer m2 = Some sg" "m_writer m2 = Some w"
    using chain_of_reach [OF assms(6)] reachable_chain [OF assms(2)] by (simp_all add: chain_of_def)
  have st: "r_stake (maybeFinishLocked t' ?r) \<noteq> None" using le(1) assms(8) by (simp add: room_le_def)
  have "funded m2" by (rule reachable_funded [OF room_reach_trans [OF assms(6,2)] assms(1)])
  then have "r_order (maybeFinishLocked t' ?r) = []" if "r_roundID (maybeFinishLocked t' ?r) = None"
    using that st le(2) by (simp add: funded_def)
  note fund = st this
  have "r_settleStatus (maybeFinishLocked t' ?r) = Not_settled" using assms(7) by simp
  from settleRoom_ends [OF assms(1) rok le(2) refl over this ch fund]
  obtain st m3 i where e: "settleRoom V t' a m2 = (Ok (), m3)"
    "leaderLocked (maybeFinishLocked t' ?r) = Ok i" "i \<noteq> [] \<Longrightarrow> best_player (maybeFinishLocked t' ?r) i"
    "r_state (m_heap m3 ! a) = Over" "r_settleStatus (m_heap m3 ! a) = st"
    "st = Settled_ok \<or> st = Settle_failed \<and> settle_blocked V rd sg w i
      (r_roundID (maybeFinishLocked t' ?r)) (m_world m2) (r_settleErr (m_heap m3 ! a))"
    by blast
  show ?thesis by (rule exI [of _ m3], rule exI [of _ i]) (use e in \<open>simp add: e(5)\<close>)
qed

section \<open>Properties\<close>

text \<open>
  C7: a staked race that ends before the stake window and its two seconds does come to its
  settlement: \<open>Start\<close> arms a timer for that moment, and when it fires, whatever happened to the
  rooms since, either another timer has settled the room already or the room is settled now or
  records which step of the payment to the best player was refused, and why.
\<close>

theorem race_in_time_settled:
  assumes "externals_ok V"
    "room_reach V (room_initial V rs text (Some w) (Some rd) (Some sg) c) m"
    "room_addr V code m = Some a" "r = m_heap m ! a" "r_host r = pid" "r_state r = Lobby"
    "r_stake r \<noteq> None" "0 < r_raceSeconds r" "r_raceSeconds r * second < 2 ^ 63"
    "now + r_raceSeconds r * second \<le> r_stakeEndsAt r + 2 * second"
    "\<bar>r_stakeEndsAt r - now\<bar> < 2 ^ 62"
  shows "\<exists>t m1. snd (Start V now seed code pid m) = m1 \<and> m_timers m1 = m_timers m @ [(t, a)] \<and>
    t = r_stakeEndsAt r + 2 * second \<and> r_settleStatus (m_heap m1 ! a) = Not_settled \<and>
    (\<forall>m2 t'. room_reach V m1 m2 \<and> t \<le> t' \<and> r_settleStatus (m_heap m2 ! a) = Not_settled \<longrightarrow>
      (\<exists>m3 i. settleRoom V t' a m2 = (Ok (), m3) \<and> r_state (m_heap m3 ! a) = Over \<and>
        leaderLocked (m_heap m2 ! a) = Ok i \<and> (i \<noteq> [] \<longrightarrow> best_player (m_heap m2 ! a) i) \<and>
        (r_settleStatus (m_heap m3 ! a) = Settled_ok \<or> r_settleStatus (m_heap m3 ! a) = Settle_failed \<and>
          settle_blocked V rd sg w i (r_roundID (m_heap m2 ! a)) (m_world m2)
            (r_settleErr (m_heap m3 ! a)))))"
proof -
  have ext: "case_table (e_uc V)" "rng_ok (e_rng V)" using assms(1) by (simp_all add: externals_ok_def)
  note ok = reachable_ok [OF ext(1) assms(2)]
  have a: "a < length (m_heap m)" by (rule room_addr_ok [OF ok(1) assms(3)])
  have "dict_ok (m_dict m)" "2 \<le> rackSize" using ok(2) by (simp_all add: rackSize_def)
  then obtain rk where rk: "GenerateSolo (e_uc V) (e_rng V) (m_dict m) rackSize seed = Some rk"
    using GenerateSolo_total [OF _ ext(2)] by blast
  define len where "len = r_raceSeconds r * second"
  have len: "wrap64 (r_raceSeconds r * second) = len" "0 < len"
    using assms(8,9) by (simp_all add: wrap64_id len_def second_def)
  define r1 where "r1 = r\<lparr>r_letters := rk_letters rk, r_state := Racing, r_endsAt := now + len\<rparr>"
  define t where "t = r_stakeEndsAt r + 2 * second"
  have t: "max now t = t" "now + len \<le> t" using assms(10) len(2) by (simp_all add: t_def len_def)
  define m1 where "m1 = (set_room a r1 m)\<lparr>m_timers := m_timers m @ [(t, a)]\<rparr>"
  have "maybeFinishLocked now r1 = r1" using len(2) by (simp add: maybeFinishLocked_def r1_def)
  then have st: "snd (Start V now seed code pid m) = m1"
    using Start_deals [OF ok(1) assms(3,4,5,6) rk r1_def [folded len(1)]]
      scheduleSettle_at [of "set_room a r1 m" a now] assms(7,11) a t(1)
    by (simp add: m1_def t_def r1_def)
  have r1: "m_heap m1 ! a = r1" using a by (simp add: m1_def)
  have reach1: "room_reach V (room_initial V rs text (Some w) (Some rd) (Some sg) c) m1"
    unfolding st [symmetric] by (rule room_reach_trans [OF Start_reach [OF ok(1)] assms(2)])
  have "\<exists>m3 i. settleRoom V t' a m2 = (Ok (), m3) \<and> r_state (m_heap m3 ! a) = Over \<and>
      leaderLocked (m_heap m2 ! a) = Ok i \<and> (i \<noteq> [] \<longrightarrow> best_player (m_heap m2 ! a) i) \<and>
      (r_settleStatus (m_heap m3 ! a) = Settled_ok \<or> r_settleStatus (m_heap m3 ! a) = Settle_failed \<and>
        settle_blocked V rd sg w i (r_roundID (m_heap m2 ! a)) (m_world m2) (r_settleErr (m_heap m3 ! a)))"
    if "room_reach V m1 m2 \<and> t \<le> t' \<and> r_settleStatus (m_heap m2 ! a) = Not_settled" for m2 t'
    by (rule ended_race_settled [OF assms(1) reach1]) (use that a t(2) assms(7) in \<open>simp_all add: r1 r1_def, simp add: m1_def\<close>)
  moreover have ti: "m_timers m1 = m_timers m @ [(t, a)]" by (simp add: m1_def)
  moreover have "r_settleStatus r1 = Not_settled"
    using mgr_ok_heap [OF ok(1) a] assms(4,6) by (auto simp: room_ok_def r1_def)
  ultimately show ?thesis
    by (intro exI [of _ t] exI [of _ m1]) (simp add: st r1 ti t_def [symmetric])
qed

section \<open>Witnesses\<close>

text \<open>The race of a joined staked room, started at time 0, and its timer.\<close>

theorem race_in_time_settled_witness:
  "\<exists>m1 m3. snd (Start toy_env 0 7 ''AAAA'' ''p1'' (with_room toy_joined)) = m1 \<and>
    m_timers m1 = [(182 * second, 0)] \<and> settleRoom toy_env (182 * second) 0 m1 = (Ok (), m3) \<and>
    r_settleStatus (m_heap m3 ! 0) \<noteq> Not_settled"
proof -
  define r where "r = m_heap (with_room toy_joined) ! 0"
  have r: "r = m_heap (with_room toy_joined) ! 0" "r = toy_joined" by (simp_all add: r_def)
  have h: "room_addr toy_env ''AAAA'' (with_room toy_joined) = Some 0" by simp
  have "r_host r = ''p1''" "r_state r = Lobby" "r_stake r \<noteq> None" "0 < r_raceSeconds r"
    "r_raceSeconds r * second < 2 ^ 63"
    "0 + r_raceSeconds r * second \<le> r_stakeEndsAt r + 2 * second" "\<bar>r_stakeEndsAt r - 0\<bar> < 2 ^ 62"
    by (simp_all add: r(2) second_def)
  note * = race_in_time_settled [OF externals_ok_toy(1) reach_joined [unfolded toy_m0_def] h r(1) this]
  have t: "r_stakeEndsAt r + 2 * second = 182 * second" by (simp add: r(2) second_def)
  show ?thesis using * [of 7] start_state unfolding t by fastforce
qed

end
