(* ===== verification/Server.thy ===== *)
theory Server
  imports Api_Total
begin

text \<open>
  \<open>cmd/server/main.go\<close>: the start-up of the process from its environment. \<open>getenv\<close> gives the value of
  a variable, empty when unset; \<open>connect\<close> is what \<open>db.New\<close> returns for a connection string;
  \<open>Err\<close> is a \<open>log.Fatal\<close> with its message. The property says what a process that started has
  configured, and that all its on-chain pieces are bound to the same contract.
\<close>

section \<open>Environment variables\<close>

definition env_or :: "(string \<Rightarrow> string) \<Rightarrow> string \<Rightarrow> string \<Rightarrow> string" where
  "env_or getenv key def = (let v = getenv key in if v \<noteq> [] then v else def)"

definition envInt :: "(string \<Rightarrow> string) \<Rightarrow> string \<Rightarrow> int \<Rightarrow> int" where
  "envInt getenv key def =
    (let v = getenv key in if v \<noteq> [] then (case Atoi v of Some n \<Rightarrow> n | None \<Rightarrow> def) else def)"

text \<open>\<open>ParseInt(v, 10, 64)\<close> reads what \<open>Atoi\<close> reads.\<close>

definition envInt64 :: "(string \<Rightarrow> string) \<Rightarrow> string \<Rightarrow> int \<Rightarrow> int" where
  "envInt64 getenv key def =
    (let v = getenv key in if v \<noteq> [] then (case Atoi v of Some n \<Rightarrow> n | None \<Rightarrow> def) else def)"

section \<open>The parts\<close>

fun fatal :: "string \<Rightarrow> 'a res \<Rightarrow> 'a res" where
  "fatal msg (Err e) = Err (msg @ e)"
| "fatal msg r = r"

definition start_signer :: "'c eth \<Rightarrow> (string \<Rightarrow> string) \<Rightarrow> Signer option res" where
  "start_signer E getenv =
    (let pk = getenv ''REFEREE_PRIVATE_KEY''; contract = getenv ''POOLS_CONTRACT''
     in if pk = [] then Ok None
        else if contract = [] then Err ''REFEREE_PRIVATE_KEY set but POOLS_CONTRACT missing''
        else bind_res (fatal ''referee signer: '' (signer_New E pk (envInt64 getenv ''CHAIN_ID'' 42220) contract))
               (\<lambda>s. Ok (Some s)))"

definition start_chain :: "'c eth \<Rightarrow> (string \<Rightarrow> string) \<Rightarrow> Client option res" where
  "start_chain E getenv =
    (let rpc = getenv ''CHAIN_RPC_URL''; contract = getenv ''POOLS_CONTRACT''
     in if rpc = [] then Ok None
        else if contract = [] then Err ''CHAIN_RPC_URL set but POOLS_CONTRACT missing''
        else bind_res (fatal ''chain client: '' (chain_New E rpc contract)) (\<lambda>c. Ok (Some c)))"

text \<open>Without a database the store has no persister; the state beside it is then never used.\<close>

definition start_store :: "(int \<Rightarrow> int) \<Rightarrow> (string \<Rightarrow> DB res) \<Rightarrow> (string \<Rightarrow> string) \<Rightarrow>
    (DB Persister option \<times> DB Store) res" where
  "start_store ts connect getenv =
    (let dsn = getenv ''DATABASE_URL''
     in if dsn = [] then Ok (None, store_New (empty_db (\<lambda>_. Failed)))
        else bind_res (fatal ''database: '' (connect dsn)) (\<lambda>db. Ok (Some (db_persister ts), store_New db)))"

definition start_writer :: "'c eth \<Rightarrow> (string \<Rightarrow> string) \<Rightarrow> Signer option \<Rightarrow> Client option \<Rightarrow> Writer option res" where
  "start_writer E getenv sg chainCli =
    (let pk = getenv ''OPERATOR_PRIVATE_KEY''
     in if pk \<noteq> [] \<and> sg \<noteq> None \<and> chainCli \<noteq> None
        then bind_res (fatal ''room staking operator: ''
               (NewWriter E (getenv ''CHAIN_RPC_URL'') (getenv ''POOLS_CONTRACT'') pk (envInt64 getenv ''CHAIN_ID'' 42220)))
               (\<lambda>w. Ok (Some w))
        else Ok None)"

section \<open>The process\<close>

record 'c process =
  proc_addr :: string
  proc_server :: "('c, DB) Server"
  proc_persist :: "DB Persister option"
  proc_readHeaderTimeout :: int
  proc_readTimeout :: int
  proc_writeTimeout :: int

definition start_config :: "(string \<Rightarrow> string) \<Rightarrow> Config" where
  "start_config getenv =
    \<lparr>SoloRackSize = envInt getenv ''SOLO_RACK_SIZE'' 6, SoloGridSize = envInt getenv ''SOLO_GRID_SIZE'' 4,
     DailyRackSize = envInt getenv ''DAILY_RACK_SIZE'' 6, AdminToken = getenv ''ADMIN_TOKEN''\<rparr>"

definition server_main :: "('c, 'r) env \<Rightarrow> (int \<Rightarrow> int) \<Rightarrow> (string \<Rightarrow> DB res) \<Rightarrow> (string \<Rightarrow> string) \<Rightarrow> string \<Rightarrow> 'c \<Rightarrow>
    'c process res" where
  "server_main V ts connect getenv text ch =
    (let port = env_or getenv ''PORT'' ''8080''; dict = New (e_uc V) text; gridTrie = NewTrie (AllWords dict)
     in bind_res (start_signer (e_eth V) getenv) (\<lambda>sg.
        bind_res (start_chain (e_eth V) getenv) (\<lambda>chainCli.
        bind_res (start_store ts connect getenv) (\<lambda>(P, gameStore).
        let srv = api_New (getenv ''RACE_SECONDS'') dict gridTrie gameStore sg chainCli (start_config getenv) ch
        in bind_res (start_writer (e_eth V) getenv sg chainCli) (\<lambda>w.
           Ok \<lparr>proc_addr = '':'' @ port,
             proc_server = (case w of None \<Rightarrow> srv | Some _ \<Rightarrow> EnableRoomStaking w chainCli sg srv),
             proc_persist = P, proc_readHeaderTimeout = 5 * second, proc_readTimeout = 15 * second,
             proc_writeTimeout = 15 * second\<rparr>)))))"

section \<open>What a started process has\<close>

lemma fatal_Ok [simp]: "fatal msg r = Ok x \<longleftrightarrow> r = Ok x"
  by (cases r) simp_all

lemma start_signer_Ok:
  assumes "start_signer E getenv = Ok sg"
  shows "(sg = None \<longleftrightarrow> getenv ''REFEREE_PRIVATE_KEY'' = []) \<and>
    (\<forall>s. sg = Some s \<longrightarrow> s_contract s = HexToAddress E (getenv ''POOLS_CONTRACT'') \<and>
      IsHexAddress E (getenv ''POOLS_CONTRACT'') \<and> s_chainID s = envInt64 getenv ''CHAIN_ID'' 42220)"
  using assms by (auto simp: start_signer_def Let_def bind_res_Ok signer_New_def split: if_splits res.splits)

lemma start_chain_Ok:
  assumes "start_chain E getenv = Ok c"
  shows "(c = None \<longleftrightarrow> getenv ''CHAIN_RPC_URL'' = []) \<and>
    (\<forall>x. c = Some x \<longrightarrow> c_contract x = HexToAddress E (getenv ''POOLS_CONTRACT'') \<and>
      c_rpc x = getenv ''CHAIN_RPC_URL'' \<and> IsHexAddress E (getenv ''POOLS_CONTRACT''))"
  using assms by (auto simp: start_chain_def Let_def bind_res_Ok chain_New_def split: if_splits res.splits)

lemma start_writer_Ok:
  assumes "start_writer E getenv sg c = Ok w"
  shows "(w \<noteq> None \<longleftrightarrow> getenv ''OPERATOR_PRIVATE_KEY'' \<noteq> [] \<and> sg \<noteq> None \<and> c \<noteq> None) \<and>
    (\<forall>x. w = Some x \<longrightarrow> w_contract x = HexToAddress E (getenv ''POOLS_CONTRACT'') \<and>
      w_rpc x = getenv ''CHAIN_RPC_URL'' \<and> w_chainID x = envInt64 getenv ''CHAIN_ID'' 42220)"
  using assms by (auto simp: start_writer_def Let_def bind_res_Ok NewWriter_def split: if_splits res.splits)

lemma start_store_Ok:
  "start_store ts connect getenv = Ok (P, st) \<Longrightarrow> (P = None \<longleftrightarrow> getenv ''DATABASE_URL'' = []) \<and> dailies st = []"
  by (auto simp: start_store_def Let_def bind_res_Ok store_New_def split: if_splits)

text \<open>The parts of a process that started.\<close>

lemma server_main_Ok:
  assumes "server_main V ts connect getenv text ch = Ok p"
  obtains sg c P st w where "start_signer (e_eth V) getenv = Ok sg" "start_chain (e_eth V) getenv = Ok c"
    "start_store ts connect getenv = Ok (P, st)" "start_writer (e_eth V) getenv sg c = Ok w"
    "proc_persist p = P"
    "proc_server p = EnableRoomStaking w (if w = None then None else c) (if w = None then None else sg)
      (api_New (getenv ''RACE_SECONDS'') (New (e_uc V) text) (NewTrie (AllWords (New (e_uc V) text))) st sg c
        (start_config getenv) ch)"
proof -
  have no_staking: "EnableRoomStaking None None None (api_New rs d t st sg c cfg ch) = api_New rs d t st sg c cfg ch"
    for rs d t sg c cfg and st :: "DB Store"
    by (simp add: EnableRoomStaking_def EnableStaking_def api_New_def NewManager_def)
  from assms show thesis
    by (auto simp: server_main_def Let_def bind_res_Ok no_staking split: option.splits intro!: that)
qed

lemma server_main_ok:
  assumes "server_main V ts connect getenv text ch = Ok p"
    "envInt getenv ''DAILY_RACK_SIZE'' 6 = 0 \<or> 2 \<le> envInt getenv ''DAILY_RACK_SIZE'' 6"
  shows "server_ok V (proc_server p)"
proof -
  from assms(1) obtain sg c P st w sg' c' where
    p: "proc_server p = EnableRoomStaking w c' sg'
      (api_New (getenv ''RACE_SECONDS'') (New (e_uc V) text) (NewTrie (AllWords (New (e_uc V) text))) st sg c
        (start_config getenv) ch)"
    by (rule server_main_Ok) blast
  have "mgr_ok (e_uc V) (sv_rooms (proc_server p))"
    unfolding p EnableRoomStaking_def api_New_def by (simp add: mgr_ok_New [OF dict_ok_New])
  then show ?thesis
    using assms(2) by (auto simp: server_ok_def p EnableRoomStaking_def api_New_def default_size_def
        start_config_def dict_ok_New)
qed

text \<open>
  C31: a process that starts signs exactly when it has a referee key, reads the chain exactly when
  it has an RPC URL, persists exactly when it has a database URL, and stakes rooms exactly when it
  has all three keys; its signer, reader and operator are bound to the same contract and chain;
  its rounds start empty.
\<close>

theorem started_process:
  assumes "server_main V ts connect getenv text ch = Ok p" "s = proc_server p"
  shows "(sv_signer s \<noteq> None \<longleftrightarrow> getenv ''REFEREE_PRIVATE_KEY'' \<noteq> []) \<and>
    (sv_chain s \<noteq> None \<longleftrightarrow> getenv ''CHAIN_RPC_URL'' \<noteq> []) \<and>
    (proc_persist p \<noteq> None \<longleftrightarrow> getenv ''DATABASE_URL'' \<noteq> []) \<and>
    (stakingEnabled (sv_rooms s) \<longleftrightarrow> getenv ''OPERATOR_PRIVATE_KEY'' \<noteq> [] \<and>
      getenv ''REFEREE_PRIVATE_KEY'' \<noteq> [] \<and> getenv ''CHAIN_RPC_URL'' \<noteq> []) \<and>
    dailies (sv_store s) = [] \<and> sv_writer s = m_writer (sv_rooms s) \<and>
    (\<forall>sg. sv_signer s = Some sg \<longrightarrow> s_contract sg = HexToAddress (e_eth V) (getenv ''POOLS_CONTRACT'')) \<and>
    (\<forall>c. sv_chain s = Some c \<longrightarrow> c_contract c = HexToAddress (e_eth V) (getenv ''POOLS_CONTRACT'')) \<and>
    (\<forall>w sg c. m_writer (sv_rooms s) = Some w \<and> m_signer (sv_rooms s) = Some sg \<and> m_reader (sv_rooms s) = Some c \<longrightarrow>
      w_contract w = s_contract sg \<and> c_contract c = s_contract sg \<and> w_chainID w = s_chainID sg \<and> w_rpc w = c_rpc c)"
proof -
  from assms(1) obtain sg c P st w where parts: "start_signer (e_eth V) getenv = Ok sg"
    "start_chain (e_eth V) getenv = Ok c" "start_store ts connect getenv = Ok (P, st)"
    "start_writer (e_eth V) getenv sg c = Ok w" "proc_persist p = P"
    and p: "proc_server p = EnableRoomStaking w (if w = None then None else c) (if w = None then None else sg)
      (api_New (getenv ''RACE_SECONDS'') (New (e_uc V) text) (NewTrie (AllWords (New (e_uc V) text))) st sg c
        (start_config getenv) ch)"
    by (rule server_main_Ok)
  have s: "sv_signer s = sg" "sv_chain s = c" "sv_writer s = w" "sv_store s = st"
    "m_writer (sv_rooms s) = w" "m_reader (sv_rooms s) = (if w = None then None else c)"
    "m_signer (sv_rooms s) = (if w = None then None else sg)"
    by (simp_all add: assms(2) p EnableRoomStaking_def EnableStaking_def api_New_def)
  note ok = start_signer_Ok [OF parts(1)] start_chain_Ok [OF parts(2)] start_store_Ok [OF parts(3)]
    start_writer_Ok [OF parts(4)]
  show ?thesis
    using ok parts(5) unfolding stakingEnabled_def s by (auto split: if_splits)
qed

text \<open>A process with every key set.\<close>

theorem started_process_witness:
  "\<exists>p. server_main toy_env (\<lambda>t. t) (\<lambda>_. Ok (empty_db (\<lambda>_. Done))) (\<lambda>k. ''1'') [] () = Ok p \<and>
    stakingEnabled (sv_rooms (proc_server p)) \<and> proc_persist p \<noteq> None"
proof -
  have "\<exists>p. server_main toy_env (\<lambda>t. t) (\<lambda>_. Ok (empty_db (\<lambda>_. Done))) (\<lambda>k. ''1'') [] () = Ok p"
    by (simp add: server_main_def start_signer_def signer_New_def start_chain_def chain_New_def start_store_def
        start_writer_def NewWriter_def Let_def bind_res_Ok toy_env_def toy_eth_def)
  then obtain p where p: "server_main toy_env (\<lambda>t. t) (\<lambda>_. Ok (empty_db (\<lambda>_. Done))) (\<lambda>k. ''1'') [] () = Ok p"
    by blast
  show ?thesis using started_process [OF p refl] p by simp
qed

end
