(* ===== verification/Http.thy ===== *)
theory Http
  imports Bodies Server
begin

text \<open>
  From an HTTP request to its response, as \<open>Routes\<close>, \<open>withCORS\<close> and \<open>writeJSON\<close> of
  \<open>internal/api/api.go\<close> set it up: the table of patterns with its dispatch by \<open>http.ServeMux\<close>
  (methods, literal and wildcard segments, the replies to what no pattern matches), the query and body
  parameters each handler reads, and the bytes of the reply. What \<open>net/http\<close> answers to a path with
  empty or dot segments without calling a handler is the argument \<open>unclean\<close>.
\<close>

section \<open>Requests\<close>

text \<open>The path is \<open>URL.EscapedPath()\<close>, the query \<open>URL.RawQuery\<close>, the token the header \<open>X-Admin-Token\<close>.\<close>

record http_request =
  rq_method :: string
  rq_path :: string
  rq_query :: string
  rq_token :: string
  rq_body :: string

record http_response =
  rs_status :: nat
  rs_headers :: "(string \<times> string) list"
  rs_body :: string

fun split_on :: "char \<Rightarrow> string \<Rightarrow> string list" where
  "split_on d [] = [[]]"
| "split_on d (c # cs) =
    (if c = d then [] # split_on d cs
     else case split_on d cs of [] \<Rightarrow> [[c]] | s # ss \<Rightarrow> (c # s) # ss)"

text \<open>Percent decoding of a path segment or, with \<open>+\<close> for a blank, of a query component.\<close>

function pct_decode :: "bool \<Rightarrow> string \<Rightarrow> string option" where
  "pct_decode query [] = Some []"
| "pct_decode query (c # cs) =
    (if c = CHR ''%'' then
       (case map hex_val (take 2 cs) of
          [Some a, Some b] \<Rightarrow> map_option ((#) (char_of (16 * a + b))) (pct_decode query (drop 2 cs))
        | _ \<Rightarrow> None)
     else map_option ((#) (if query \<and> c = CHR ''+'' then CHR '' '' else c)) (pct_decode query cs))"
  by pat_completeness auto
termination by (relation "measure (\<lambda>(q, s). length s)") auto

text \<open>\<open>r.URL.Query().Get(key)\<close>: the first value of the key, empty without one.\<close>

definition query_pair :: "string \<Rightarrow> (string \<times> string) option" where
  "query_pair part =
    (if part = [] \<or> CHR '';'' \<in> set part then None
     else case (pct_decode True (takeWhile ((\<noteq>) (CHR ''='')) part),
                pct_decode True (drop 1 (dropWhile ((\<noteq>) (CHR ''='')) part))) of
            (Some k, Some v) \<Rightarrow> Some (k, v) | _ \<Rightarrow> None)"

definition query_get :: "string \<Rightarrow> http_request \<Rightarrow> string" where
  "query_get key rq =
    (case filter (\<lambda>p. fst p = key) (List.map_filter query_pair (split_on (CHR ''&'') (rq_query rq))) of
       [] \<Rightarrow> [] | (_, v) # _ \<Rightarrow> v)"

section \<open>The table of routes\<close>

datatype segment = Lit string | Wild

text \<open>A pattern, and what its handler reads of the request and of the wildcard.\<close>

type_synonym route = "string \<times> segment list \<times> (http_request \<Rightarrow> string list \<Rightarrow> request)"

definition routes :: "route list" where
  "routes =
    [(''GET'', [Lit ''health''], \<lambda>rq _. Get_health),
     (''GET'', [Lit ''api'', Lit ''referee''], \<lambda>rq _. Get_referee),
     (''GET'', [Lit ''api'', Lit ''solo'', Lit ''rack''], \<lambda>rq _. Get_solo_rack (query_get ''size'' rq)),
     (''GET'', [Lit ''api'', Lit ''solo'', Lit ''grid''], \<lambda>rq _. Get_solo_grid (query_get ''size'' rq)),
     (''POST'', [Lit ''api'', Lit ''solo'', Lit ''score''], \<lambda>rq _. Post_solo_score (decode_score (rq_body rq))),
     (''GET'', [Lit ''api'', Lit ''daily''], \<lambda>rq _. Get_daily),
     (''POST'', [Lit ''api'', Lit ''daily'', Lit ''submit''], \<lambda>rq _. Post_daily_submit (decode_daily (rq_body rq))),
     (''GET'', [Lit ''api'', Lit ''daily'', Lit ''leaderboard''], \<lambda>rq _. Get_leaderboard (query_get ''date'' rq)),
     (''POST'', [Lit ''api'', Lit ''admin'', Lit ''daily'', Lit ''open''],
        \<lambda>rq _. Post_daily_open (rq_token rq) (decode_open (rq_body rq))),
     (''POST'', [Lit ''api'', Lit ''admin'', Lit ''pool'', Lit ''create''],
        \<lambda>rq _. Post_pool_create (rq_token rq) (decode_pool (rq_body rq))),
     (''GET'', [Lit ''api'', Lit ''admin'', Lit ''pool'', Lit ''list''], \<lambda>rq _. Get_pool_list (rq_token rq)),
     (''POST'', [Lit ''api'', Lit ''admin'', Lit ''sign-settlement''],
        \<lambda>rq _. Post_sign_settlement (rq_token rq) (decode_settlement (rq_body rq))),
     (''POST'', [Lit ''api'', Lit ''room'', Lit ''create''], \<lambda>rq _. Post_room_create (decode_create (rq_body rq))),
     (''POST'', [Lit ''api'', Lit ''room'', Lit ''join''], \<lambda>rq _. Post_room_join (decode_join (rq_body rq))),
     (''POST'', [Lit ''api'', Lit ''room'', Lit ''start''], \<lambda>rq _. Post_room_start (decode_start (rq_body rq))),
     (''POST'', [Lit ''api'', Lit ''room'', Lit ''submit''], \<lambda>rq _. Post_room_submit (decode_submit (rq_body rq))),
     (''GET'', [Lit ''api'', Lit ''room'', Lit ''list''], \<lambda>rq _. Get_room_list),
     (''GET'', [Lit ''api'', Lit ''room'', Wild], \<lambda>rq ms. Get_room (hd ms) (query_get ''you'' rq))]"

section \<open>The mux\<close>

text \<open>A path that \<open>cleanPath\<close> leaves alone.\<close>

definition is_clean :: "string \<Rightarrow> bool" where
  "is_clean p \<longleftrightarrow>
    (case p of
       [] \<Rightarrow> False
     | c # q \<Rightarrow> c = CHR ''/'' \<and>
         (let ss = split_on (CHR ''/'') q
          in list_all (\<lambda>s. s \<notin> {[], ''.'', ''..''}) (butlast ss) \<and> last ss \<notin> {''.'', ''..''}))"

text \<open>The segments that are matched, decoded where that is possible; a slash at the end is one of its own.\<close>

definition path_segments :: "string \<Rightarrow> string list" where
  "path_segments p =
    map (\<lambda>s. if s = [] then ''/'' else case pct_decode False s of Some t \<Rightarrow> t | None \<Rightarrow> s)
      (split_on (CHR ''/'') (drop 1 p))"

fun match_segments :: "segment list \<Rightarrow> string list \<Rightarrow> string list option" where
  "match_segments [] [] = Some []"
| "match_segments (Lit l # ps) (s # ss) = (if s = l then match_segments ps ss else None)"
| "match_segments (Wild # ps) (s # ss) = (if s = ''/'' then None else map_option ((#) s) (match_segments ps ss))"
| "match_segments _ _ = None"

definition route_matches :: "string list \<Rightarrow> route \<Rightarrow> bool" where
  "route_matches segs r = (case r of (m, ps, f) \<Rightarrow> match_segments ps segs \<noteq> None)"

text \<open>Of the patterns of a method that match, one without a wildcard comes first.\<close>

definition find_route :: "string \<Rightarrow> string list \<Rightarrow> route option" where
  "find_route m segs =
    (let rs = filter (\<lambda>r. fst r = m \<and> route_matches segs r) routes
     in case filter (\<lambda>(_, ps, _). Wild \<notin> set ps) rs @ rs of [] \<Rightarrow> None | r # _ \<Rightarrow> Some r)"

text \<open>\<open>HEAD\<close> is also served by the patterns of \<open>GET\<close>.\<close>

definition find_handler :: "http_request \<Rightarrow> request option" where
  "find_handler rq =
    (let segs = path_segments (rq_path rq)
     in case (case find_route (rq_method rq) segs of
                None \<Rightarrow> if rq_method rq = ''HEAD'' then find_route ''GET'' segs else None
              | Some r \<Rightarrow> Some r) of
          None \<Rightarrow> None
        | Some (m, ps, f) \<Rightarrow> map_option (f rq) (match_segments ps segs))"

definition allowed_methods :: "string list \<Rightarrow> string list" where
  "allowed_methods segs =
    (if find_route ''GET'' segs \<noteq> None then [''GET'', ''HEAD''] else []) @
    (if find_route ''POST'' segs \<noteq> None then [''POST''] else [])"

section \<open>Responses\<close>

text \<open>\<open>writeJSON\<close>.\<close>

definition json_response :: "response \<Rightarrow> http_response" where
  "json_response r =
    \<lparr>rs_status = fst r, rs_headers = [(''Content-Type'', ''application/json'')],
     rs_body = json_encode (snd r) @ [CHR 0x0A]\<rparr>"

definition plain_error :: "nat \<Rightarrow> (string \<times> string) list \<Rightarrow> string \<Rightarrow> http_response" where
  "plain_error code hs msg =
    \<lparr>rs_status = code,
     rs_headers = hs @ [(''Content-Type'', ''text/plain; charset=utf-8''), (''X-Content-Type-Options'', ''nosniff'')],
     rs_body = msg @ [CHR 0x0A]\<rparr>"

definition not_found_response :: http_response where
  "not_found_response = plain_error 404 [] ''404 page not found''"

definition not_allowed_response :: "string list \<Rightarrow> http_response" where
  "not_allowed_response ms =
    plain_error 405 [(''Allow'', concat (case ms of [] \<Rightarrow> [] | m # ms \<Rightarrow> m # map (\<lambda>m. '', '' @ m) ms))]
      ''Method Not Allowed''"

text \<open>A response of \<open>None\<close> is a connection dropped after a panic, a result of \<open>None\<close> no return at all.\<close>

type_synonym ('c, 'p) http_result = "(http_response option \<times> ('c, 'p) Server) option"

definition mux :: "('c, 'r) env \<Rightarrow> 'p Persister option \<Rightarrow> (http_request \<Rightarrow> http_response) \<Rightarrow> reading \<Rightarrow>
    http_request \<Rightarrow> ('c, 'p) Server \<Rightarrow> ('c, 'p) http_result" where
  "mux V P unclean t rq s =
    (if rq_method rq \<noteq> ''CONNECT'' \<and> \<not> is_clean (rq_path rq) then Some (Some (unclean rq), s)
     else case find_handler rq of
       Some req \<Rightarrow> map_option (\<lambda>(resp, s). (map_option json_response resp, s)) (Routes V P t req s)
     | None \<Rightarrow>
         (case allowed_methods (path_segments (rq_path rq)) of
            [] \<Rightarrow> Some (Some not_found_response, s)
          | ms \<Rightarrow> Some (Some (not_allowed_response ms), s)))"

definition cors_headers :: "(string \<times> string) list" where
  "cors_headers =
    [(''Access-Control-Allow-Origin'', ''*''), (''Access-Control-Allow-Methods'', ''GET, POST, OPTIONS''),
     (''Access-Control-Allow-Headers'', ''Content-Type, X-Admin-Token'')]"

definition with_cors :: "http_response \<Rightarrow> http_response" where
  "with_cors r = r\<lparr>rs_headers := cors_headers @ rs_headers r\<rparr>"

definition withCORS :: "(http_request \<Rightarrow> ('c, 'p) Server \<Rightarrow> ('c, 'p) http_result) \<Rightarrow>
    http_request \<Rightarrow> ('c, 'p) Server \<Rightarrow> ('c, 'p) http_result" where
  "withCORS handler rq s =
    (if rq_method rq = ''OPTIONS''
     then Some (Some \<lparr>rs_status = 204, rs_headers = cors_headers, rs_body = []\<rparr>, s)
     else map_option (\<lambda>(resp, s). (map_option with_cors resp, s)) (handler rq s))"

text \<open>What the server sends: no body for \<open>HEAD\<close>.\<close>

definition to_client :: "http_request \<Rightarrow> http_response \<Rightarrow> http_response" where
  "to_client rq r = (if rq_method rq = ''HEAD'' then r\<lparr>rs_body := []\<rparr> else r)"

text \<open>What \<open>net/http\<close> itself answers to \<open>OPTIONS *\<close>, before any handler of the program.\<close>

definition general_options :: http_response where
  "general_options = \<lparr>rs_status = 200, rs_headers = [(''Content-Length'', ''0'')], rs_body = []\<rparr>"

definition serve :: "('c, 'r) env \<Rightarrow> 'p Persister option \<Rightarrow> (http_request \<Rightarrow> http_response) \<Rightarrow> reading \<Rightarrow>
    http_request \<Rightarrow> ('c, 'p) Server \<Rightarrow> ('c, 'p) http_result" where
  "serve V P unclean t rq s =
    (if rq_method rq = ''OPTIONS'' \<and> rq_path rq = ''*'' then Some (Some general_options, s)
     else map_option (\<lambda>(resp, s). (map_option (to_client rq) resp, s)) (withCORS (mux V P unclean t) rq s))"

lemma serve_routed:
  assumes "find_handler rq = Some req" "is_clean (rq_path rq)" "rq_method rq \<in> {''GET'', ''POST''}"
  shows "serve V P unclean t rq s =
    map_option (\<lambda>(resp, s'). (map_option (\<lambda>r. with_cors (json_response r)) resp, s')) (Routes V P t req s)"
  using assms
  by (auto simp: serve_def withCORS_def mux_def to_client_def option.map_comp comp_def case_prod_unfold
      intro!: option.map_cong)

end
