(* ===== verification/Http_Client.thy ===== *)
theory Http_Client
  imports Http Api_Properties
begin

text \<open>
  The other end of the routes: the HTTP request a client sends for each of the handlers' inputs, with
  parameters percent-encoded and bodies as JSON. The lemmas show that the mux finds the handler and
  the handler reads back what was sent; the property joins them.
\<close>

section \<open>What a client sends\<close>

definition pct_encode :: "string \<Rightarrow> string" where
  "pct_encode s = concat (map (\<lambda>c. [CHR ''%'', hex_digit (byte c div 16), hex_digit (byte c mod 16)]) s)"

definition put_body :: "(string \<times> slot) list option \<Rightarrow> string" where
  "put_body b = (case b of None \<Rightarrow> [] | Some kvs \<Rightarrow> json_encode (JObj (map (\<lambda>(k, y). (k, slot_json y)) kvs)))"

definition get_rq :: "string \<Rightarrow> string \<Rightarrow> string \<Rightarrow> http_request" where
  "get_rq path query token =
    \<lparr>rq_method = ''GET'', rq_path = path, rq_query = query, rq_token = token, rq_body = []\<rparr>"

definition post_rq :: "string \<Rightarrow> string \<Rightarrow> (string \<times> slot) list option \<Rightarrow> http_request" where
  "post_rq path token b =
    \<lparr>rq_method = ''POST'', rq_path = path, rq_query = [], rq_token = token, rq_body = put_body b\<rparr>"

fun client :: "request \<Rightarrow> http_request" where
  "client Get_health = get_rq ''/health'' [] []"
| "client Get_referee = get_rq ''/api/referee'' [] []"
| "client (Get_solo_rack q) = get_rq ''/api/solo/rack'' (''size='' @ pct_encode q) []"
| "client (Get_solo_grid q) = get_rq ''/api/solo/grid'' (''size='' @ pct_encode q) []"
| "client (Post_solo_score b) = post_rq ''/api/solo/score'' []
    (map_option (\<lambda>(l, ws). [(''letters'', F_str l), (''words'', F_strs ws 0)]) b)"
| "client Get_daily = get_rq ''/api/daily'' [] []"
| "client (Post_daily_submit b) = post_rq ''/api/daily/submit'' []
    (map_option (\<lambda>(a, ws). [(''address'', F_str a), (''words'', F_strs ws 0)]) b)"
| "client (Get_leaderboard d) = get_rq ''/api/daily/leaderboard'' (''date='' @ pct_encode d) []"
| "client (Post_daily_open k b) = post_rq ''/api/admin/daily/open'' k
    (map_option (\<lambda>(r, e, d). [(''roundId'', F_str r), (''endTime'', F_int e), (''dateKey'', F_str d)]) b)"
| "client (Post_pool_create k b) = post_rq ''/api/admin/pool/create'' k
    (map_option (\<lambda>(f, d). [(''entryFee'', F_str f), (''days'', F_int d)]) b)"
| "client (Get_pool_list k) = get_rq ''/api/admin/pool/list'' [] k"
| "client (Post_sign_settlement k b) = post_rq ''/api/admin/sign-settlement'' k
    (map_option (\<lambda>(r, ws, as). [(''roundId'', F_str r), (''winners'', F_strs ws 0), (''amounts'', F_strs as 0)]) b)"
| "client (Post_room_create b) = post_rq ''/api/room/create'' []
    (map_option (\<lambda>(p, n, u, s). [(''playerId'', F_str p), (''name'', F_str n), (''public'', F_bool u),
       (''stake'', F_str s)]) b)"
| "client (Post_room_join b) = post_rq ''/api/room/join'' []
    (map_option (\<lambda>(c, p, n). [(''code'', F_str c), (''playerId'', F_str p), (''name'', F_str n)]) b)"
| "client (Post_room_start b) = post_rq ''/api/room/start'' []
    (map_option (\<lambda>(c, p). [(''code'', F_str c), (''playerId'', F_str p)]) b)"
| "client (Post_room_submit b) = post_rq ''/api/room/submit'' []
    (map_option (\<lambda>(c, p, w). [(''code'', F_str c), (''playerId'', F_str p), (''word'', F_str w)]) b)"
| "client Get_room_list = get_rq ''/api/room/list'' [] []"
| "client (Get_room code you) = get_rq (''/api/room/'' @ pct_encode code) (''you='' @ pct_encode you) []"

text \<open>What can be sent as meant: valid UTF-8 in bodies of at most a megabyte, 64-bit numbers, and room codes
  that are one path segment and not the name of the list.\<close>

definition utf8 :: "string \<Rightarrow> bool" where
  "utf8 s \<longleftrightarrow> to_valid s = s"

fun slot_ok :: "slot \<Rightarrow> bool" where
  "slot_ok (F_str s) \<longleftrightarrow> utf8 s"
| "slot_ok (F_bool b) \<longleftrightarrow> True"
| "slot_ok (F_int n) \<longleftrightarrow> - (2 ^ 63) \<le> n \<and> n < 2 ^ 63"
| "slot_ok (F_strs ws n) \<longleftrightarrow> list_all utf8 ws"

fun sendable :: "request \<Rightarrow> bool" where
  "sendable (Post_solo_score (Some (l, ws))) \<longleftrightarrow> list_all utf8 (l # ws)"
| "sendable (Post_daily_submit (Some (a, ws))) \<longleftrightarrow> list_all utf8 (a # ws)"
| "sendable (Post_daily_open k (Some (r, e, d))) \<longleftrightarrow> list_all utf8 [r, d] \<and> - (2 ^ 63) \<le> e \<and> e < 2 ^ 63"
| "sendable (Post_pool_create k (Some (f, d))) \<longleftrightarrow> utf8 f \<and> - (2 ^ 63) \<le> d \<and> d < 2 ^ 63"
| "sendable (Post_sign_settlement k (Some (r, ws, as))) \<longleftrightarrow> list_all utf8 (r # ws @ as)"
| "sendable (Post_room_create (Some (p, n, u, s))) \<longleftrightarrow> list_all utf8 [p, n, s]"
| "sendable (Post_room_join (Some (c, p, n))) \<longleftrightarrow> list_all utf8 [c, p, n]"
| "sendable (Post_room_start (Some (c, p))) \<longleftrightarrow> list_all utf8 [c, p]"
| "sendable (Post_room_submit (Some (c, p, w))) \<longleftrightarrow> list_all utf8 [c, p, w]"
| "sendable (Get_room code you) \<longleftrightarrow> code \<notin> {[], ''/'', ''list''}"
| "sendable _ \<longleftrightarrow> True"

section \<open>Parameters\<close>

lemma byte_div16: "byte c div 16 < 16"
  using of_char_mod_256 [of c, where ?'a = nat]
  by (metis less_mult_imp_div_less mod_less_divisor numeral_times_numeral semiring_norm(12,13) zero_less_numeral)

lemma pct_decode_encode [simp]: "pct_decode q (pct_encode s) = Some s"
proof (induction s)
  case (Cons c s)
  have "char_of (16 * (byte c div 16) + byte c mod 16) = c" by simp
  then show ?case using Cons byte_div16 [of c] by (simp add: pct_encode_def)
qed (simp add: pct_encode_def)

lemma pct_encode_Nil [simp]: "pct_encode s = [] \<longleftrightarrow> s = []"
  by (cases s) (simp_all add: pct_encode_def)

lemma hex_digit_set: "n < 16 \<Longrightarrow> hex_digit n \<in> set ''0123456789abcdef''"
  unfolding hex_digit_def by (rule nth_mem) simp

lemma pct_encode_set:
  assumes "c \<in> set (pct_encode s)"
  shows "c = CHR ''%'' \<or> c \<in> set ''0123456789abcdef''"
proof -
  obtain x where "c = CHR ''%'' \<or> c = hex_digit (byte x div 16) \<or> c = hex_digit (byte x mod 16)"
    using assms by (auto simp: pct_encode_def split: if_splits)
  moreover have "hex_digit (byte x div 16) \<in> set ''0123456789abcdef''" by (rule hex_digit_set [OF byte_div16])
  moreover have "hex_digit (byte x mod 16) \<in> set ''0123456789abcdef''" by (rule hex_digit_set) simp
  ultimately show ?thesis by blast
qed

lemma split_on_other: "d \<notin> set s \<Longrightarrow> split_on d s = [s]"
  by (induction s) auto

lemma plain_pct [simp]:
  "CHR ''&'' \<notin> set (pct_encode s)" "CHR '';'' \<notin> set (pct_encode s)" "CHR ''/'' \<notin> set (pct_encode s)"
  using pct_encode_set [of _ s] by fastforce+

lemma query_get_client:
  "rq_query rq = key @ ''='' @ pct_encode v \<Longrightarrow> key \<in> {''size'', ''date'', ''you''} \<Longrightarrow> query_get key rq = v"
  by (auto simp: query_get_def split_on_other query_pair_def map_filter_def)

lemma path_segments_code:
  "code \<noteq> [] \<Longrightarrow> path_segments (''/api/room/'' @ pct_encode code) = [''api'', ''room'', code]"
  by (simp add: path_segments_def split_on_other)

section \<open>Bodies\<close>

lemma to_valid_ascii: "list_all (\<lambda>c. byte c < 128) s \<Longrightarrow> to_valid s = s"
proof -
  assume a: "list_all (\<lambda>c. byte c < 128) s"
  then have "runes s = map byte s"
    unfolding runes_def list_all_iff by (intro byte_runes_ascii) auto
  moreover have "concat (map (\<lambda>c. encode_rune (byte c)) s) = s"
    using a by (induction s) (auto simp: encode_rune_def encode_bytes_def)
  ultimately show "to_valid s = s" by (simp add: to_valid_def comp_def)
qed

lemma utf8_ascii: "list_all (\<lambda>c. byte c < 128) s \<Longrightarrow> utf8 s"
  by (simp add: utf8_def to_valid_ascii)

lemma utf8_id: "utf8 s \<Longrightarrow> to_valid s = s"
  by (simp add: utf8_def)

text \<open>A body with all fields of a struct fills them in their order.\<close>

fun zero :: "slot \<Rightarrow> slot" where
  "zero (F_str s) = F_str []" | "zero (F_bool b) = F_bool False" | "zero (F_int n) = F_int 0"
| "zero (F_strs ws n) = F_strs [] 0"

lemma entries_of_map: "distinct (map fst xs) \<Longrightarrow> map (\<lambda>k. (k, the (map_of xs k))) (map fst xs) = xs"
  by (auto intro!: map_idI)

lemma decode_client:
  assumes "fs = map (\<lambda>(k, y). (k, zero y)) kvs" "distinct (map fst kvs)"
    "list_all (\<lambda>(k, y). utf8 k \<and> slot_ok y) kvs" "length (put_body (Some kvs)) \<le> bodyLimit"
  shows "decode fs (put_body (Some kvs)) = Some (map (\<lambda>(k, y). (k, stored y)) kvs)"
proof -
  have zero: "same_kind y (zero y)" if "slot_ok y" for y using that by (cases y) auto
  have keys: "map fst fs = map fst kvs" by (simp add: assms(1) comp_def case_prod_unfold)
  have at: "map_of fs k = map_option zero (map_of kvs k)" for k
    unfolding assms(1) by (induction kvs) auto
  have "fits kvs fs"
    using assms(2,3) zero at by (auto simp: fits_def list_all_iff split_beta utf8_def) force?
  from decode_fits [OF this, of "[]"] assms(4) obtain fs' where fs':
    "decode fs (put_body (Some kvs)) = Some fs'" "map fst fs' = map fst fs"
    "map_of fs' = map_of fs ++ (map_option stored \<circ> map_of kvs)" by (auto simp: put_body_def)
  let ?new = "map (\<lambda>(k, y). (k, stored y)) kvs"
  have m: "map_of fs' = map_of ?new"
    unfolding fs'(3) by (auto simp: fun_eq_iff map_add_def at map_of_map split: option.split)
  have k: "map fst fs' = map fst ?new" "distinct (map fst ?new)"
    using fs'(2) keys assms(2) by (simp_all add: comp_def case_prod_unfold)
  have "fs' = map (\<lambda>k. (k, the (map_of fs' k))) (map fst fs')"
    using entries_of_map [of fs'] k by simp
  also have "\<dots> = ?new" unfolding k(1) m by (rule entries_of_map [OF k(2)])
  finally have "fs' = ?new" .
  then show ?thesis using fs'(1) by simp
qed

lemma decode_empty: "decode fs [] = None"
  by (simp add: decode_def body_value_def json_parse_def)

lemma map_utf8: "list_all utf8 ws \<Longrightarrow> map to_valid ws = ws"
  by (induction ws) (simp_all add: utf8_id)

lemmas field_simps = str_field_def strs_field_def int_field_def bool_field_def utf8_ascii utf8_id map_utf8
  decode_client decode_empty

section \<open>Dispatch\<close>

lemma client_segments:
  "path_segments ''/api/solo/score'' = [''api'', ''solo'', ''score'']"
  "path_segments ''/api/daily/submit'' = [''api'', ''daily'', ''submit'']"
  "path_segments ''/api/admin/daily/open'' = [''api'', ''admin'', ''daily'', ''open'']"
  "path_segments ''/api/admin/pool/create'' = [''api'', ''admin'', ''pool'', ''create'']"
  "path_segments ''/api/admin/sign-settlement'' = [''api'', ''admin'', ''sign-settlement'']"
  "path_segments ''/api/room/create'' = [''api'', ''room'', ''create'']"
  "path_segments ''/api/room/join'' = [''api'', ''room'', ''join'']"
  "path_segments ''/api/room/start'' = [''api'', ''room'', ''start'']"
  "path_segments ''/api/room/submit'' = [''api'', ''room'', ''submit'']"
  "path_segments ''/health'' = [''health'']"
  "path_segments ''/api/referee'' = [''api'', ''referee'']"
  "path_segments ''/api/solo/rack'' = [''api'', ''solo'', ''rack'']"
  "path_segments ''/api/solo/grid'' = [''api'', ''solo'', ''grid'']"
  "path_segments ''/api/daily'' = [''api'', ''daily'']"
  "path_segments ''/api/daily/leaderboard'' = [''api'', ''daily'', ''leaderboard'']"
  "path_segments ''/api/admin/pool/list'' = [''api'', ''admin'', ''pool'', ''list'']"
  "path_segments ''/api/room/list'' = [''api'', ''room'', ''list'']"
  by (simp_all add: path_segments_def)

text \<open>A path of literals that is in the table is found; the wildcard takes any other room code.\<close>

lemma found_literals:
  "find_route ''POST'' [''api'', ''solo'', ''score''] =
    Some (''POST'', [Lit ''api'', Lit ''solo'', Lit ''score''], \<lambda>rq _. Post_solo_score (decode_score (rq_body rq)))"
  "find_route ''POST'' [''api'', ''daily'', ''submit''] =
    Some (''POST'', [Lit ''api'', Lit ''daily'', Lit ''submit''], \<lambda>rq _. Post_daily_submit (decode_daily (rq_body rq)))"
  "find_route ''POST'' [''api'', ''admin'', ''daily'', ''open''] =
    Some (''POST'', [Lit ''api'', Lit ''admin'', Lit ''daily'', Lit ''open''], \<lambda>rq _. Post_daily_open (rq_token rq) (decode_open (rq_body rq)))"
  "find_route ''POST'' [''api'', ''admin'', ''pool'', ''create''] =
    Some (''POST'', [Lit ''api'', Lit ''admin'', Lit ''pool'', Lit ''create''], \<lambda>rq _. Post_pool_create (rq_token rq) (decode_pool (rq_body rq)))"
  "find_route ''POST'' [''api'', ''admin'', ''sign-settlement''] =
    Some (''POST'', [Lit ''api'', Lit ''admin'', Lit ''sign-settlement''], \<lambda>rq _. Post_sign_settlement (rq_token rq) (decode_settlement (rq_body rq)))"
  "find_route ''POST'' [''api'', ''room'', ''create''] =
    Some (''POST'', [Lit ''api'', Lit ''room'', Lit ''create''], \<lambda>rq _. Post_room_create (decode_create (rq_body rq)))"
  "find_route ''POST'' [''api'', ''room'', ''join''] =
    Some (''POST'', [Lit ''api'', Lit ''room'', Lit ''join''], \<lambda>rq _. Post_room_join (decode_join (rq_body rq)))"
  "find_route ''POST'' [''api'', ''room'', ''start''] =
    Some (''POST'', [Lit ''api'', Lit ''room'', Lit ''start''], \<lambda>rq _. Post_room_start (decode_start (rq_body rq)))"
  "find_route ''POST'' [''api'', ''room'', ''submit''] =
    Some (''POST'', [Lit ''api'', Lit ''room'', Lit ''submit''], \<lambda>rq _. Post_room_submit (decode_submit (rq_body rq)))"
  "find_route ''GET'' [''health''] =
    Some (''GET'', [Lit ''health''], \<lambda>rq _. Get_health)"
  "find_route ''GET'' [''api'', ''referee''] =
    Some (''GET'', [Lit ''api'', Lit ''referee''], \<lambda>rq _. Get_referee)"
  "find_route ''GET'' [''api'', ''solo'', ''rack''] =
    Some (''GET'', [Lit ''api'', Lit ''solo'', Lit ''rack''], \<lambda>rq _. Get_solo_rack (query_get ''size'' rq))"
  "find_route ''GET'' [''api'', ''solo'', ''grid''] =
    Some (''GET'', [Lit ''api'', Lit ''solo'', Lit ''grid''], \<lambda>rq _. Get_solo_grid (query_get ''size'' rq))"
  "find_route ''GET'' [''api'', ''daily''] =
    Some (''GET'', [Lit ''api'', Lit ''daily''], \<lambda>rq _. Get_daily)"
  "find_route ''GET'' [''api'', ''daily'', ''leaderboard''] =
    Some (''GET'', [Lit ''api'', Lit ''daily'', Lit ''leaderboard''], \<lambda>rq _. Get_leaderboard (query_get ''date'' rq))"
  "find_route ''GET'' [''api'', ''admin'', ''pool'', ''list''] =
    Some (''GET'', [Lit ''api'', Lit ''admin'', Lit ''pool'', Lit ''list''], \<lambda>rq _. Get_pool_list (rq_token rq))"
  "find_route ''GET'' [''api'', ''room'', ''list''] =
    Some (''GET'', [Lit ''api'', Lit ''room'', Lit ''list''], \<lambda>rq _. Get_room_list)"
  by (simp_all add: find_route_def routes_def route_matches_def)

lemma found_code:
  "code \<noteq> ''/'' \<Longrightarrow> code \<noteq> ''list'' \<Longrightarrow> find_route ''GET'' [''api'', ''room'', code] =
    Some (''GET'', [Lit ''api'', Lit ''room'', Wild], \<lambda>rq ms. Get_room (hd ms) (query_get ''you'' rq))"
  by (simp add: find_route_def routes_def route_matches_def)

lemma find_handler_client:
  "find_handler (post_rq path k b) = (case find_route ''POST'' (path_segments path) of None \<Rightarrow> None
    | Some (m, ps, f) \<Rightarrow> map_option (f (post_rq path k b)) (match_segments ps (path_segments path)))"
  "find_handler (get_rq path q k) = (case find_route ''GET'' (path_segments path) of None \<Rightarrow> None
    | Some (m, ps, f) \<Rightarrow> map_option (f (get_rq path q k)) (match_segments ps (path_segments path)))"
  by (simp_all add: find_handler_def post_rq_def get_rq_def Let_def split: option.split)

lemma client_simps [simp]: "rq_path (post_rq path k b) = path" "rq_path (get_rq path q k) = path"
  "rq_body (post_rq path k b) = put_body b" "rq_token (post_rq path k b) = k" "rq_token (get_rq path q k) = k"
  "put_body None = []"
  by (simp_all add: post_rq_def get_rq_def put_body_def)

lemma query_client [simp]: "key \<in> {''size'', ''date'', ''you''} \<Longrightarrow>
    query_get key (get_rq path (key @ ''='' @ pct_encode v) k) = v"
  by (rule query_get_client) (simp_all add: get_rq_def)

lemmas decode_defs = decode_score_def decode_daily_def decode_open_def decode_pool_def decode_settlement_def
  decode_create_def decode_join_def decode_start_def decode_submit_def

lemma dot_free: "pct_encode s \<notin> {''.'', ''..''}"
  using pct_encode_set [of "CHR ''.''" s] by auto

lemma client_clean: "sendable req \<Longrightarrow> is_clean (rq_path (client req))"
  using dot_free by (cases req) (simp_all add: is_clean_def split_on_other)

lemmas find_client = find_handler_client client_segments found_literals decode_defs field_simps

lemma client_found:
  assumes "sendable req" "length (rq_body (client req)) \<le> bodyLimit"
  shows "find_handler (client req) = Some req"
proof (cases req rule: sendable.cases)
  case (10 code you)
  then show ?thesis
    using assms(1) path_segments_code [of code] query_client [of "''you''" "''/api/room/'' @ pct_encode code" you]
    by (simp add: find_handler_client found_code)
qed (use assms query_client [of "''size''" "''/api/solo/rack''"] query_client [of "''size''" "''/api/solo/grid''"]
    query_client [of "''date''" "''/api/daily/leaderboard''"] in \<open>simp_all add: find_client\<close>)

section \<open>Property\<close>

text \<open>
  C15: sending a request over HTTP is calling its handler: for every input of every handler the client's
  request, with its parameters percent-encoded and its body as JSON, is dispatched to that handler
  with exactly that input, and the reply is sent back.
\<close>

theorem client_reaches_handler:
  assumes "sendable req" "length (rq_body (client req)) \<le> bodyLimit"
  shows "serve V P unclean t (client req) s =
    map_option (\<lambda>(resp, s'). (map_option (\<lambda>r. with_cors (json_response r)) resp, s')) (Routes V P t req s)"
proof -
  have "rq_method (client req) \<in> {''GET'', ''POST''}"
    by (cases req) (simp_all add: get_rq_def post_rq_def)
  then show ?thesis using client_found [OF assms] client_clean [OF assms(1)] by (intro serve_routed)
qed

text \<open>A player joins room \<open>AAAA\<close>.\<close>

definition toy_join_request :: request where
  "toy_join_request = Post_room_join (Some (''AAAA'', ''p2'', ''bob''))"

lemma toy_join_body: "length (rq_body (client toy_join_request)) = 44"
  by code_simp

text \<open>What it gets for an unclean path here is a redirect.\<close>

definition toy_unclean :: "http_request \<Rightarrow> http_response" where
  "toy_unclean rq = \<lparr>rs_status = 301, rs_headers = [], rs_body = []\<rparr>"

theorem client_reaches_handler_witness:
  "\<exists>r. serve toy_env None toy_unclean toy_time (client toy_join_request) toy_server = Some (Some r, toy_server) \<and>
    rs_status r = 400 \<and> rs_body r = json_encode (JMap [(''error'', JStr not_found)]) @ [CHR 0x0A]"
proof -
  have "sendable toy_join_request" by (simp add: toy_join_request_def utf8_ascii)
  moreover have "length (rq_body (client toy_join_request)) \<le> bodyLimit"
    by (simp only: toy_join_body) (simp add: bodyLimit_def)
  moreover have "m_rooms (sv_rooms toy_server) = []"
    by (simp add: toy_server_def EnableRoomStaking_def EnableStaking_def api_New_def NewManager_def)
  then have "Routes toy_env None toy_time toy_join_request toy_server =
      Some (Some (writeErr 400 not_found), toy_server)"
    by (simp add: toy_join_request_def Routes_def handleRoomJoin_def Join_def room_addr_def view_reply_def)
  ultimately show ?thesis
    using client_reaches_handler [of toy_join_request toy_env None toy_unclean toy_time toy_server]
    by (simp add: with_cors_def json_response_def writeErr_def)
qed

end
