(* ===== verification/Http_Properties.thy ===== *)
theory Http_Properties
  imports Http_Client Api_Properties
begin

text \<open>
  A request as its client sees it. The properties say what a request without a handler gets, that reads change
  nothing that matters, and that every reply of a handler is JSON which reads back.
\<close>

section \<open>Replies\<close>

text \<open>No reply is nested deeper than five levels.\<close>

definition shallow :: "response option \<Rightarrow> bool" where
  "shallow r \<longleftrightarrow> (case r of None \<Rightarrow> True | Some (st, j) \<Rightarrow> json_depth j \<le> 5)"

lemma shallow_simps [simp]: "shallow None" "shallow (Some (st, j)) \<longleftrightarrow> json_depth j \<le> 5"
  by (simp_all add: shallow_def)

lemma shallow_err [simp]: "shallow (Some (writeErr code msg))" "shallow (Some bad_body)"
  by (simp_all add: writeErr_def bad_body_def)

lemma depth_jwords [simp]: "1 \<le> n \<Longrightarrow> json_depth (jwords ws) \<le> n"
  by (auto simp: jwords_def)

lemma depth_jview [simp]: "3 \<le> n \<Longrightarrow> json_depth (jview v) \<le> n"
  by (auto simp: jview_def omitempty_str_def)

lemma depth_jresult [simp]: "3 \<le> n \<Longrightarrow> json_depth (jresult r) \<le> n"
  by (auto simp: jresult_def)

lemma shallow_view: "shallow (view_reply v)"
  by (cases v) (simp_all add: view_reply_def)

lemma shallow_paid_gate: "paid_gate V now addr d s = (Ok (Some r), s') \<Longrightarrow> shallow (Some r)"
  by (auto simp: paid_gate_def split: if_splits option.splits prod.splits res.splits)

lemma shallow_adminOK: "adminOK s token = Some r \<Longrightarrow> shallow (Some r)"
  by (auto simp: adminOK_def split: if_splits)

lemma shallow_solo:
  "shallow (Some (handleHealth s))" "shallow (Some (handleReferee V s))" "shallow (handleSoloRack V seed q s)"
  "shallow (handleSoloGrid V seed q s)" "shallow (Some (handleSoloScore V b s))"
  by (auto simp: handleHealth_def handleReferee_def handleSoloRack_def handleSoloGrid_def handleSoloScore_def
      Let_def split: option.split)

lemma shallow_daily:
  "shallow (fst (handleDaily V P now s))" "shallow (fst (handleLeaderboard V P now date s))"
  "shallow (fst (handleDailySubmit V P now now2 at b s))"
proof -
  show "shallow (fst (handleDaily V P now s))" "shallow (fst (handleLeaderboard V P now date s))"
    by (auto simp: handleDaily_def handleLeaderboard_def Let_def jentry_def split: prod.split option.split)
  show "shallow (fst (handleDailySubmit V P now now2 at b s))"
    by (auto simp: handleDailySubmit_def Let_def simp del: shallow_simps(2)
        split: prod.split option.split res.split dest: shallow_paid_gate) auto
qed

lemma shallow_create_pool_round:
  "create_pool_round V fee et s = (Ok (Inl r), s') \<Longrightarrow> shallow (Some r)"
  by (auto simp: create_pool_round_def split: option.splits prod.splits res.splits)

lemma shallow_parse_payouts: "parse_payouts E ps = Inl r \<Longrightarrow> shallow (Some r)"
  by (induction E ps rule: parse_payouts.induct) (auto split: if_splits option.splits sum.splits)

lemma shallow_check_winners: "check_winners E c rid ws ch = (Ok (Some r), ch') \<Longrightarrow> shallow (Some r)"
  by (induction E c rid ws ch rule: check_winners.induct) (auto split: if_splits prod.splits res.splits)

lemma shallow_check_entered: "check_entered E rid ws s = (Ok (Some r), s') \<Longrightarrow> shallow (Some r)"
  by (auto simp: check_entered_def simp del: shallow_simps split: option.splits prod.splits
      dest: shallow_check_winners)

lemma shallow_sign_reply: "shallow (sign_reply V sg rid roundID ps)"
  by (auto simp: sign_reply_def split: res.split)

lemma shallow_admin:
  "shallow (fst (handleOpenDaily V P now today k b s))" "shallow (fst (handleCreatePool V P now k c s))"
  "shallow (Some (fst (handleListPools P k s)))" "shallow (fst (handleSignSettlement V k e s))"
proof -
  show "shallow (fst (handleOpenDaily V P now today k b s))"
    by (cases "adminOK s k")
      (auto simp: handleOpenDaily_def Let_def shallow_adminOK split: option.split prod.split res.split)
  show "shallow (fst (handleCreatePool V P now k c s))"
    by (cases "adminOK s k")
      (auto simp: handleCreatePool_def Let_def shallow_adminOK shallow_create_pool_round
        split: option.split prod.split res.split sum.split)
  show "shallow (Some (fst (handleListPools P k s)))"
    by (cases "adminOK s k") (auto simp: handleListPools_def shallow_adminOK jpool_def split: prod.split)
  show "shallow (fst (handleSignSettlement V k e s))"
    by (cases "adminOK s k")
      (auto simp: handleSignSettlement_def shallow_adminOK shallow_parse_payouts shallow_check_entered
        shallow_sign_reply split: option.split prod.split res.split sum.split)
qed

lemma shallow_rooms:
  "handleRoomCreate V now at b s = Some (resp, s') \<Longrightarrow> shallow resp" "shallow (fst (handleRoomJoin V now c s))"
  "shallow (fst (handleRoomStart V now seed d s))" "shallow (fst (handleRoomSubmit V now c s))"
  "shallow (handleRoomList now s)" "shallow (fst (handleRoomGet V now code you s))"
proof -
  show "handleRoomCreate V now at b s = Some (resp, s') \<Longrightarrow> shallow resp"
    by (auto simp: handleRoomCreate_def shallow_view split: option.splits if_splits)
  show "shallow (fst (handleRoomJoin V now c s))" "shallow (fst (handleRoomStart V now seed d s))"
    "shallow (fst (handleRoomGet V now code you s))"
    by (auto simp: handleRoomJoin_def handleRoomStart_def handleRoomGet_def shallow_view split: option.split prod.split)
  have "shallow (Some (submit_json rep))" for rep
    by (auto simp: submit_json_def jroom_def split: option.split)
  then show "shallow (fst (handleRoomSubmit V now c s))"
    by (auto simp: handleRoomSubmit_def split: option.split prod.split res.split)
  show "shallow (handleRoomList now s)" by (auto simp: handleRoomList_def split: res.split)
qed

lemma shallow_Routes:
  assumes "Routes V P t rq s = Some (resp, s')"
  shows "shallow resp"
proof -
  have f: "x = (r, y) \<Longrightarrow> shallow (fst x) \<Longrightarrow> shallow r" for x r y by simp
  have g: "x = (r, y) \<Longrightarrow> shallow (Some (fst x)) \<Longrightarrow> shallow (Some r)" for x r y by simp
  note sh = shallow_solo shallow_daily shallow_admin shallow_rooms
  note fs = f [OF _ sh(6)] f [OF _ sh(7)] f [OF _ sh(8)] f [OF _ sh(9)] f [OF _ sh(10)] f [OF _ sh(12)]
    f [OF _ sh(14)] f [OF _ sh(15)] f [OF _ sh(16)] f [OF _ sh(18)] g [OF _ sh(11)]
  show ?thesis
    using assms by (cases rq) (auto simp: Routes_def sh simp del: shallow_simps split: prod.splits dest: sh(13) fs)
qed

text \<open>What a request comes to: a preflight, a route, or a reply of the mux.\<close>

lemma serve_cases:
  assumes "serve V P unclean t rq s = Some (resp, s')"
  obtains (preflight) "rq_method rq = ''OPTIONS''" "s' = s"
      "resp = Some (if rq_path rq = ''*'' then general_options
         else \<lparr>rs_status = 204, rs_headers = cors_headers, rs_body = []\<rparr>)"
  | (routed) req reply where "rq_method rq \<noteq> ''OPTIONS''" "find_handler rq = Some req"
      "Routes V P t req s = Some (reply, s')"
      "resp = map_option (\<lambda>r. to_client rq (with_cors (json_response r))) reply"
  | (unrouted) r where "rq_method rq \<noteq> ''OPTIONS''" "s' = s" "resp = Some (to_client rq (with_cors r))"
      "if rq_method rq \<noteq> ''CONNECT'' \<and> \<not> is_clean (rq_path rq) then r = unclean rq
       else find_handler rq = None \<and> r = (case allowed_methods (path_segments (rq_path rq)) of
         [] \<Rightarrow> not_found_response | ms \<Rightarrow> not_allowed_response ms)"
proof (cases "rq_method rq = ''OPTIONS''")
  case True
  then show thesis using assms preflight by (auto simp: serve_def withCORS_def to_client_def split: if_splits)
next
  case False
  then obtain resp0 where m: "mux V P unclean t rq s = Some (resp0, s')"
    "resp = map_option (\<lambda>r. to_client rq (with_cors r)) resp0"
    using assms by (auto simp: serve_def withCORS_def option.map_comp comp_def)
  show thesis
  proof (cases "rq_method rq \<noteq> ''CONNECT'' \<and> \<not> is_clean (rq_path rq)")
    case True
    then show thesis using m by (intro unrouted [of "unclean rq"]) (auto simp: False mux_def)
  next
    case clean: False
    show thesis
    proof (cases "find_handler rq")
      case None
      let ?r = "case allowed_methods (path_segments (rq_path rq)) of
         [] \<Rightarrow> not_found_response | ms \<Rightarrow> not_allowed_response ms"
      have "mux V P unclean t rq s = Some (Some ?r, s)"
        using None clean by (auto simp: mux_def split: list.split)
      then show thesis using m None clean by (intro unrouted [of ?r]) (auto simp: False)
    next
      case (Some req)
      then obtain reply where "Routes V P t req s = Some (reply, s')" "resp0 = map_option json_response reply"
        using m(1) clean by (auto simp: mux_def)
      then show thesis using m(2) Some
        by (intro routed [of req reply]) (simp_all add: False option.map_comp comp_def)
    qed
  qed
qed

lemma mgr_ok_le:
  "server_le V s s' \<Longrightarrow> mgr_ok (e_uc V) (sv_rooms s) \<Longrightarrow> case_table (e_uc V) \<Longrightarrow> mgr_ok (e_uc V) (sv_rooms s')"
  using good_reach [of V "sv_rooms s" "sv_rooms s'" "e_uc V"] by (simp add: server_le_def good_def)

section \<open>Reads\<close>

text \<open>What a read may change: rounds may be added, races may be found to be over.\<close>

definition read_le :: "int \<Rightarrow> ('c, 'p) Server \<Rightarrow> ('c, 'p) Server \<Rightarrow> bool" where
  "read_le now s s' \<longleftrightarrow> world_of s' = world_of s \<and>
    m_rooms (sv_rooms s') = m_rooms (sv_rooms s) \<and> m_timers (sv_rooms s') = m_timers (sv_rooms s) \<and>
    length (m_heap (sv_rooms s')) = length (m_heap (sv_rooms s)) \<and>
    (\<forall>a < length (m_heap (sv_rooms s)). m_heap (sv_rooms s') ! a \<in>
      {m_heap (sv_rooms s) ! a, maybeFinishLocked now (m_heap (sv_rooms s) ! a)}) \<and>
    (\<forall>k d. map_of (dailies (sv_store s)) k = Some d \<longrightarrow> map_of (dailies (sv_store s')) k = Some d)"

lemma read_le_refl [simp]: "read_le now s s"
  by (simp add: read_le_def)

lemma read_le_store: "(\<forall>k d. map_of (dailies (sv_store s)) k = Some d \<longrightarrow> map_of (dailies st) k = Some d) \<Longrightarrow>
    read_le now s (s\<lparr>sv_store := st\<rparr>)"
  by (simp add: read_le_def world_of_def)

lemma Get_Or_Create_keeps:
  assumes "map_of (dailies st) k = Some d"
  shows "map_of (dailies (run_op P (Get_Or_Create k' gen) st)) k = Some d"
proof (cases "map_of (dailies st) k'")
  case None
  obtain d' p where r: "recover_daily P k' (pstate st) = (d', p)" by fastforce
  have "k \<noteq> k'" using None assms by auto
  then show ?thesis
    using assms by (simp add: GetOrCreate_new [OF None r] update_conv' split: res.split)
qed (simp add: GetOrCreate_existing assms)

lemma read_get_daily: "read_le now s (snd (get_daily V P k s))"
  unfolding snd_get_daily by (intro read_le_store) (simp add: Get_Or_Create_keeps del: run_op.simps)

lemma read_snapshot:
  assumes "a < length (m_heap (sv_rooms s))"
  shows "read_le now s (s\<lparr>sv_rooms := snd (snapshot now you a (sv_rooms s))\<rparr>)"
  using assms by (auto simp: read_le_def world_of_def snd_snapshot set_room_def nth_list_update)

fun is_read :: "request \<Rightarrow> bool" where
  "is_read (Post_solo_score b) = True"
| "is_read (Post_daily_submit b) = False"
| "is_read (Post_daily_open k b) = False"
| "is_read (Post_pool_create k b) = False"
| "is_read (Post_sign_settlement k b) = False"
| "is_read (Post_room_create b) = False"
| "is_read (Post_room_join c) = False"
| "is_read (Post_room_start d) = False"
| "is_read (Post_room_submit c) = False"
| "is_read _ = True"

lemma read_Routes:
  assumes "mgr_ok (e_uc V) (sv_rooms s)" "is_read rq" "Routes V P t rq s = Some (resp, s')"
  shows "read_le (t_first t) s s'"
proof (cases rq)
  case Get_daily
  then show ?thesis using assms(3) read_get_daily [of "t_first t" s V P "date_key (t_first t)"]
    by (auto simp: Routes_def handleDaily_def split: prod.splits option.splits)
next
  case (Get_leaderboard d)
  then show ?thesis using assms(3) read_get_daily [of "t_first t" s V P]
    by (auto simp: Routes_def handleLeaderboard_def Let_def split: prod.splits option.splits if_splits)
      (metis snd_conv)+
next
  case (Get_pool_list k)
  then show ?thesis using assms(3)
    by (auto simp: Routes_def handleListPools_def ListPaidDailies_def split: prod.splits option.splits
        intro!: read_le_store)
next
  case (Get_room code you)
  show ?thesis
  proof (cases "room_addr V code (sv_rooms s)")
    case (Some a)
    then show ?thesis
      using Get_room assms(3) read_snapshot [OF room_addr_ok [OF assms(1) Some], of "t_first t" you]
      by (auto simp: Routes_def handleRoomGet_def Get_def split: prod.splits)
  qed (use Get_room assms(3) in \<open>auto simp: Routes_def handleRoomGet_def Get_def\<close>)
qed (use assms(2,3) in \<open>auto simp: Routes_def\<close>)

text \<open>Which requests the patterns of a method lead to.\<close>

lemma find_route_mem:
  assumes "find_route m segs = Some r"
  shows "r \<in> set routes \<and> fst r = m \<and> route_matches segs r"
proof -
  define rs where "rs = filter (\<lambda>r. fst r = m \<and> route_matches segs r) routes"
  have "r \<in> set (filter (\<lambda>(_, ps, _). Wild \<notin> set ps) rs @ rs)"
    using assms by (auto simp: find_route_def Let_def rs_def [symmetric] split: list.splits simp del: set_filter set_append)
  then show ?thesis by (auto simp: rs_def)
qed

lemma find_handler_None:
  "find_handler rq = None \<longleftrightarrow> find_route (rq_method rq) (path_segments (rq_path rq)) = None \<and>
    (rq_method rq = ''HEAD'' \<longrightarrow> find_route ''GET'' (path_segments (rq_path rq)) = None)"
  by (auto simp: find_handler_def Let_def route_matches_def split: option.splits dest: find_route_mem)

lemma get_handler_reads:
  assumes "find_handler rq = Some req" "rq_method rq \<in> {''GET'', ''HEAD''}"
  shows "is_read req"
proof -
  obtain m ps f ms where r: "(m, ps, f) \<in> set routes" "m \<in> {''GET'', ''HEAD''}" "req = f rq ms"
    using assms by (auto simp: find_handler_def Let_def split: option.splits if_splits dest!: find_route_mem)
  then show ?thesis by (auto simp: routes_def)
qed

section \<open>Properties\<close>

text \<open>
  C14: reads are safe: whatever a request with method \<open>GET\<close> or \<open>HEAD\<close> asks for, the chain is not called
  to change anything, no round already known changes, no room is made, joined, played or settled: a
  room whose time has run out may only be found to be over.
\<close>

theorem reads_are_safe:
  assumes "mgr_ok (e_uc V) (sv_rooms s)" "rq_method rq \<in> {''GET'', ''HEAD''}"
    "serve V P unclean t rq s = Some (resp, s')"
  shows "world_of s' = world_of s \<and>
    m_rooms (sv_rooms s') = m_rooms (sv_rooms s) \<and> m_timers (sv_rooms s') = m_timers (sv_rooms s) \<and>
    length (m_heap (sv_rooms s')) = length (m_heap (sv_rooms s)) \<and>
    (\<forall>a < length (m_heap (sv_rooms s)). m_heap (sv_rooms s') ! a \<in>
      {m_heap (sv_rooms s) ! a, maybeFinishLocked (t_first t) (m_heap (sv_rooms s) ! a)}) \<and>
    (\<forall>k d. map_of (dailies (sv_store s)) k = Some d \<longrightarrow> map_of (dailies (sv_store s')) k = Some d)"
  using assms(3)
proof (cases rule: serve_cases)
  case (routed req reply)
  show ?thesis
    using read_Routes [OF assms(1) get_handler_reads [OF routed(2) assms(2)] routed(3)]
    unfolding read_le_def .
qed simp_all

text \<open>
  C22: the reply of a handler reaches the client as one JSON value that reads back as the reply, with its
  status, its content type and the headers that let browsers of other origins see it.
\<close>

theorem replies_are_json:
  assumes "serve V P unclean t rq s = Some (Some r, s')" "find_handler rq = Some req"
    "is_clean (rq_path rq)" "rq_method rq \<notin> {''OPTIONS'', ''HEAD''}"
  shows "\<exists>status j. Routes V P t req s = Some (Some (status, j), s') \<and> rs_status r = status \<and>
    rs_headers r = cors_headers @ [(''Content-Type'', ''application/json'')] \<and>
    json_parse (rs_body r) = Some (raw_of j)"
  using assms(1)
proof (cases rule: serve_cases)
  case (routed req' reply)
  then obtain status j where j: "Routes V P t req s = Some (Some (status, j), s')"
    "r = with_cors (json_response (status, j))"
    using assms(2,4) by (cases reply) (auto simp: to_client_def)
  have "json_depth j \<le> maxNestingDepth" using shallow_Routes [OF j(1)] by (simp add: maxNestingDepth_def)
  then have "json_parse (json_encode j @ [CHR 0x0A]) = Some (raw_of j)" by (intro json_parse_encode) simp_all
  then show ?thesis using j by (auto simp: with_cors_def json_response_def)
qed (use assms(2-4) in auto)

text \<open>
  C35: a preflight and a request that no pattern serves are answered without a handler and change nothing:
  204, 405 with the methods allowed on the path, or 404, with the headers that let browsers of other
  origins see it. Only \<open>OPTIONS *\<close>, which is not a preflight, never reaches the program: \<open>net/http\<close> answers 200.
\<close>

theorem unserved_requests:
  assumes "rq_method rq = ''OPTIONS'' \<or> find_handler rq = None \<and> is_clean (rq_path rq)"
  shows "\<exists>r. serve V P unclean t rq s = Some (Some r, s) \<and>
    (set cors_headers \<subseteq> set (rs_headers r) \<longleftrightarrow> \<not> (rq_method rq = ''OPTIONS'' \<and> rq_path rq = ''*'')) \<and>
    rs_status r = (if rq_method rq = ''OPTIONS'' then if rq_path rq = ''*'' then 200 else 204
      else if allowed_methods (path_segments (rq_path rq)) = [] then 404 else 405) \<and>
    (rs_status r = 405 \<longrightarrow> rq_method rq \<notin> set (allowed_methods (path_segments (rq_path rq))))"
proof (cases "rq_method rq = ''OPTIONS''")
  case True
  then show ?thesis by (auto simp: serve_def withCORS_def to_client_def general_options_def cors_headers_def)
next
  case False
  then have h: "find_handler rq = None" "is_clean (rq_path rq)" using assms by simp_all
  let ?ms = "allowed_methods (path_segments (rq_path rq))"
  let ?r = "case ?ms of [] \<Rightarrow> not_found_response | ms \<Rightarrow> not_allowed_response ms"
  have "mux V P unclean t rq s = Some (Some ?r, s)" using h by (simp add: mux_def split: list.split)
  then have "serve V P unclean t rq s = Some (Some (to_client rq (with_cors ?r)), s)"
    using False by (simp add: serve_def withCORS_def)
  moreover have "rs_status ?r = (if ?ms = [] then 404 else 405)"
    by (simp add: not_found_response_def not_allowed_response_def plain_error_def split: list.split)
  moreover have "rq_method rq \<notin> set ?ms"
    using h(1) unfolding find_handler_None by (auto simp: allowed_methods_def split: if_splits)
  ultimately show ?thesis using False by (auto simp: to_client_def with_cors_def)
qed

section \<open>Witnesses\<close>

text \<open>A submission to the server with today's round open until time 100.\<close>

definition toy_submit_request :: request where
  "toy_submit_request = Post_daily_submit (Some (''p2'', [''cat'']))"

lemma mgr_ok_toy: "mgr_ok (e_uc toy_env) (sv_rooms toy_server)"
  using server_ok_toy by (simp add: server_ok_def open_env_def)

lemma toy_served:
  assumes "sendable req" "length (rq_body (client req)) \<le> bodyLimit"
    "Routes toy_env None toy_time req toy_server = Some (resp, s')"
  shows "serve toy_env None toy_unclean toy_time (client req) toy_server =
    Some (map_option (\<lambda>r. with_cors (json_response r)) resp, s')"
proof -
  have "rq_method (client req) \<in> {''GET'', ''POST''}" by (cases req) (simp_all add: get_rq_def post_rq_def)
  then show ?thesis
    using client_found [OF assms(1,2)] client_clean [OF assms(1)] assms(3) by (simp add: serve_routed)
qed

theorem reads_are_safe_witness:
  "\<exists>resp s'. serve toy_env None toy_unclean toy_time (client Get_daily) toy_server = Some (resp, s') \<and>
    map_of (dailies (sv_store s')) (date_key 0) = Some toy_daily"
proof -
  obtain r s' where "Routes toy_env None toy_time Get_daily toy_server = Some (r, s')"
    by (fastforce simp: Routes_def)
  then have s: "serve toy_env None toy_unclean toy_time (client Get_daily) toy_server =
      Some (map_option (\<lambda>r. with_cors (json_response r)) r, s')"
    by (intro toy_served) (simp_all add: get_rq_def)
  have "rq_method (client Get_daily) \<in> {''GET'', ''HEAD''}" by (simp add: get_rq_def)
  from reads_are_safe [OF mgr_ok_toy this s] toy_round show ?thesis using s by blast
qed

theorem replies_are_json_witness:
  "\<exists>r j. serve toy_env None toy_unclean toy_time (client Get_health) toy_server = Some (Some r, toy_server) \<and>
    rs_status r = 200 \<and> json_parse (rs_body r) = Some j"
proof -
  obtain r where s: "serve toy_env None toy_unclean toy_time (client Get_health) toy_server = Some (Some r, toy_server)"
    using toy_served [of Get_health "Some (handleHealth toy_server)" toy_server]
    by (simp add: Routes_def get_rq_def)
  have "find_handler (client Get_health) = Some Get_health" by (rule client_found) (simp_all add: get_rq_def)
  moreover have "is_clean (rq_path (client Get_health))" "rq_method (client Get_health) \<notin> {''OPTIONS'', ''HEAD''}"
    by (simp_all add: is_clean_def get_rq_def)
  ultimately show ?thesis using replies_are_json [OF s] s by (auto simp: Routes_def handleHealth_def)
qed

theorem unserved_requests_witness:
  "\<exists>r. serve toy_env None toy_unclean toy_time (get_rq ''/nowhere'' [] []) toy_server = Some (Some r, toy_server) \<and>
    rs_status r = 404"
proof -
  have n: "find_route m [''nowhere''] = None" for m
    by (simp add: find_route_def routes_def route_matches_def)
  have p: "path_segments ''/nowhere'' = [''nowhere'']" by (simp add: path_segments_def)
  then have "find_handler (get_rq ''/nowhere'' [] []) = None" by (simp add: find_handler_None n)
  moreover have "is_clean (rq_path (get_rq ''/nowhere'' [] []))" by (simp add: is_clean_def)
  ultimately show ?thesis
    using unserved_requests [of "get_rq ''/nowhere'' [] []" toy_env None toy_unclean toy_time toy_server]
    by (auto simp: p n allowed_methods_def get_rq_def)
qed

end
