(* ===== verification/Body_Types.thy ===== *)
theory Body_Types
  imports Http_Properties
begin

text \<open>
  The types of what a body is decoded to. Strings that leave the scanner of \<open>encoding/json\<close> are valid UTF-8,
  whatever bytes came in (\<open>unquote_valid\<close>), so every value of a body is (\<open>wf_json_parse\<close>); storing
  it into a struct keeps the names of the fields and the type of each (\<open>decode_typed\<close>).
\<close>

section \<open>Strings\<close>

definition utf8 :: "string \<Rightarrow> bool" where
  "utf8 s \<longleftrightarrow> (\<exists>rs. (\<forall>r \<in> set rs. valid_rune r) \<and> s = concat (map encode_rune rs))"

lemma utf8_Nil [simp]: "utf8 []"
  unfolding utf8_def by (rule exI [of _ "[]"]) simp

lemma utf8_rune: "valid_rune r \<Longrightarrow> utf8 s \<Longrightarrow> utf8 (encode_rune r @ s)"
  unfolding utf8_def
proof (elim exE conjE)
  fix rs assume "valid_rune r" "\<forall>r \<in> set rs. valid_rune r" "s = concat (map encode_rune rs)"
  then show "\<exists>rs. (\<forall>r \<in> set rs. valid_rune r) \<and> encode_rune r @ s = concat (map encode_rune rs)"
    by (intro exI [of _ "r # rs"]) simp
qed

text \<open>A string is valid exactly when decoding its runes and writing them again changes nothing.\<close>

lemma utf8_iff: "utf8 s \<longleftrightarrow> to_valid s = s"
  using runes_encode_all runes_valid unfolding utf8_def to_valid_def by metis

lemma encode_ascii: "byte c < 128 \<Longrightarrow> encode_rune (byte c) = [c] \<and> valid_rune (byte c)"
  by (simp add: encode_rune_def encode_bytes_def valid_rune_def)

lemma utf8_ascii_Cons: "byte c < 128 \<Longrightarrow> utf8 s \<Longrightarrow> utf8 (c # s)"
  using utf8_rune [of "byte c" s] by (simp add: encode_ascii)

section \<open>Scanned strings\<close>

text \<open>Every backslash starts an escape.\<close>

function escaped :: "string \<Rightarrow> bool" where
  "escaped [] = True"
| "escaped (c # cs) =
    (if c = bslash then
       (if cs \<noteq> [] \<and> hd cs = CHR ''u'' then hex4 (tl cs) \<noteq> None \<and> escaped (drop 5 cs)
        else cs \<noteq> [] \<and> byte (hd cs) < 128 \<and> escaped (tl cs))
     else escaped cs)"
  by pat_completeness auto
termination by (relation "measure length") auto

lemma hex4_take: "hex4 s \<noteq> None \<Longrightarrow> \<exists>a b c d t. s = a # b # c # d # t"
  by (cases s; cases "tl s"; cases "tl (tl s)"; cases "tl (tl (tl s))") (auto simp: hex4_def split: option.splits)

lemma hex4_same: "hex4 (a # b # c # d # s) = hex4 (a # b # c # d # t)"
  by (simp add: hex4_def numeral_eq_Suc)

lemma scan_string_escaped: "scan_string s = Some (raw, r) \<Longrightarrow> escaped raw"
proof (induction s arbitrary: raw rule: scan_string.induct)
  case (2 c cs)
  consider (close) "c = dquote" | (none) "c = bslash" "cs = []"
    | (short) "c \<noteq> dquote" "c = bslash" "cs \<noteq> []"
      "hd cs \<in> set [dquote, bslash, CHR ''/'', CHR ''b'', CHR ''f'', CHR ''n'', CHR ''r'', CHR ''t'']"
    | (unicode) "c \<noteq> dquote" "c = bslash" "cs \<noteq> []" "hd cs = CHR ''u''" "hex4 (tl cs) \<noteq> None"
    | (bad) "c = bslash" "hd cs = CHR ''u'' \<longrightarrow> hex4 (tl cs) = None"
      "hd cs \<notin> set [dquote, bslash, CHR ''/'', CHR ''b'', CHR ''f'', CHR ''n'', CHR ''r'', CHR ''t'']"
    | (plain) "c \<noteq> dquote" "c \<noteq> bslash"
    by metis
  then show ?case
  proof cases
    case short
    then obtain raw' where "scan_string (tl cs) = Some (raw', r)" "raw = c # hd cs # raw'"
      using 2 by (auto simp del: set_simps split: if_splits)
    then show ?thesis using 2(1) short by auto
  next
    case unicode
    then obtain raw' where raw: "scan_string (drop 5 cs) = Some (raw', r)" "raw = c # take 5 cs @ raw'"
      using 2 by (auto split: if_splits)
    obtain u a b d e t where cs: "cs = u # a # b # d # e # t"
      using unicode hex4_take [of "tl cs"] by (cases cs) auto
    have "escaped raw'" using 2(2) [OF _ _ _ _ _ raw(1)] unicode by auto
    then show ?thesis using unicode raw(2) hex4_same [of a b d e raw' t] by (simp add: cs)
  next
    case plain
    then show ?thesis using 2 by (auto split: if_splits)
  qed (use 2 in \<open>auto split: if_splits\<close>)
qed simp

text \<open>What is dropped behind a rune has no backslash.\<close>

lemma escaped_drop: "escaped s \<Longrightarrow> bslash \<notin> set (take n s) \<Longrightarrow> escaped (drop n s)"
proof (induction n arbitrary: s)
  case (Suc n)
  then show ?case by (cases s) auto
qed simp

lemma decode_no_bslash:
  assumes "c \<noteq> bslash"
  shows "bslash \<notin> set (take (snd (decode_bytes (map byte (c # cs))) - 1) cs)"
proof (cases "byte c < 128")
  case True
  then show ?thesis by (simp add: decode_starts1)
next
  case False
  then have "\<forall>x \<in> set (take (snd (decode_bytes (map byte (c # cs)))) (map byte (c # cs))). 128 \<le> x"
    using decode_high [of "byte c" "map byte cs"] by simp
  then have "\<forall>x \<in> set (take (snd (decode_bytes (map byte (c # cs))) - 1) (map byte cs)). 128 \<le> x"
    by (cases "snd (decode_bytes (map byte (c # cs)))") simp_all
  then show ?thesis by (auto simp: take_map)
qed

lemma hex4_less:
  assumes "hex4 s = Some r"
  shows "r < 65536"
proof -
  have h: "hex_val c = Some x \<Longrightarrow> x < 16" for c x by (auto simp: hex_val_def Let_def split: if_splits)
  obtain a b c d t where s: "s = a # b # c # d # t" using hex4_take [of s] assms by auto
  have m: "map hex_val (take 4 s) = [hex_val a, hex_val b, hex_val c, hex_val d]" by (simp add: s take4)
  then obtain w x y z where "hex_val a = Some w" "hex_val b = Some x" "hex_val c = Some y" "hex_val d = Some z"
    using assms unfolding hex4_def m
    by (cases "hex_val a"; cases "hex_val b"; cases "hex_val c"; cases "hex_val d") simp_all
  then show ?thesis
    using assms h [of a w] h [of b x] h [of c y] h [of d z] unfolding hex4_def m by simp
qed

lemma unescape_ascii: "byte c < 128 \<Longrightarrow> byte (unescape_char c) < 128"
  by (simp add: unescape_char_def)

lemma getu4_escaped:
  assumes "getu4 s = Some r" "escaped s"
  shows "r < 65536 \<and> escaped (drop 6 s) \<and> length (drop 6 s) < length s"
proof -
  obtain t where s: "s = bslash # CHR ''u'' # t" "hex4 t = Some r"
    using assms(1) by (cases s; cases "tl s") (auto simp: getu4_def split: if_splits)
  then show ?thesis using assms(2) hex4_less [OF s(2)] by simp
qed

lemma utf16_valid: "utf16_pair a b \<noteq> rune_error \<Longrightarrow> valid_rune (utf16_pair a b)"
  by (auto simp: utf16_pair_def valid_rune_def split: if_splits)

lemma rune_error_valid: "valid_rune rune_error"
  by (simp add: valid_rune_def)

lemma unquote_valid: "escaped s \<Longrightarrow> utf8 (unquote s)"
proof (induction s rule: length_induct)
  case (1 s)
  then have IH: "length t < length s \<Longrightarrow> escaped t \<Longrightarrow> utf8 (unquote t)" for t by blast
  show ?case
  proof (cases s)
    case (Cons c cs)
    show ?thesis
    proof (cases "c = bslash")
      case False
      then have "escaped (drop (snd (decode_bytes (map byte (c # cs))) - 1) cs)"
        using 1(2) Cons by (intro escaped_drop decode_no_bslash) simp_all
      then show ?thesis using IH False decode_valid by (simp add: Cons utf8_rune)
    next
      case bs: True
      show ?thesis
      proof (cases "getu4 s")
        case None
        then have e: "cs \<noteq> []" "byte (hd cs) < 128" "escaped (tl cs)"
          using 1(2) bs by (cases cs; auto simp: Cons getu4_def split: if_splits)+
        then show ?thesis
          using None bs IH [of "tl cs"] by (cases cs) (simp_all add: Cons utf8_ascii_Cons unescape_ascii)
      next
        case (Some rr)
        note r = getu4_escaped [OF Some 1(2)]
        then have five: "utf8 (unquote (drop 5 cs))" "escaped (drop 5 cs)" using IH [of "drop 6 s"] by (simp_all add: Cons)
        have eleven: "utf8 (unquote (drop 11 cs))" if "getu4 (drop 5 cs) = Some rr1" for rr1
        proof -
          have "escaped (drop 11 cs)" "length (drop 11 cs) < length (drop 5 cs)"
            using getu4_escaped [OF that five(2)] by (simp_all add: drop_drop)
          then show ?thesis using IH by (simp add: Cons)
        qed
        have plain: "valid_rune (if is_surrogate rr then rune_error else rr)"
          using r by (auto simp: valid_rune_def is_surrogate_def)
        show ?thesis
          using Some bs five(1) eleven plain utf16_valid rune_error_valid
          by (auto simp: Cons utf8_rune split: option.split)
      qed
    qed
  qed simp
qed

section \<open>Values\<close>

fun wf_token :: "token \<Rightarrow> bool" where
  "wf_token (TStr s) \<longleftrightarrow> utf8 s"
| "wf_token _ \<longleftrightarrow> True"

fun wf_raw :: "jraw \<Rightarrow> bool" where
  "wf_raw (RStr s) \<longleftrightarrow> utf8 s"
| "wf_raw (RArr vs) \<longleftrightarrow> (\<forall>v \<in> set vs. wf_raw v)"
| "wf_raw (RObj kvs) \<longleftrightarrow> (\<forall>(k, v) \<in> set kvs. utf8 k \<and> wf_raw v)"
| "wf_raw _ \<longleftrightarrow> True"

fun wf_frame :: "frame \<Rightarrow> bool" where
  "wf_frame (In_array vs) \<longleftrightarrow> (\<forall>v \<in> set vs. wf_raw v)"
| "wf_frame (In_object kvs k) \<longleftrightarrow> utf8 k \<and> (\<forall>(k, v) \<in> set kvs. utf8 k \<and> wf_raw v)"

fun wf_outcome :: "outcome \<Rightarrow> bool" where
  "wf_outcome Stuck \<longleftrightarrow> True"
| "wf_outcome (Finished v) \<longleftrightarrow> wf_raw v"
| "wf_outcome (More m st) \<longleftrightarrow> list_all wf_frame st"

lemma wf_lex:
  assumes "lex_token c cs = (t, r)"
  shows "wf_token t"
proof (cases "c = dquote")
  case True
  then show ?thesis using assms scan_string_escaped unquote_valid
    by (auto simp: lex_token_def split: option.splits)
qed (use assms in \<open>auto simp: lex_token_def lex_word_def split: if_splits option.splits\<close>)

lemma wf_tokens: "\<forall>t \<in> set (tokens s). wf_token t"
proof (induction s rule: tokens.induct)
  case (2 c cs)
  show ?case
  proof (cases "json_space c")
    case False
    obtain t r where tr: "lex_token c cs = (t, r)" by fastforce
    then show ?thesis using 2(2) [OF False tr [symmetric]] wf_lex [OF tr] False by simp
  qed (use 2(1) in simp)
qed simp

lemma wf_value_done: "wf_raw v \<Longrightarrow> list_all wf_frame st \<Longrightarrow> wf_outcome (value_done v st)"
  by (cases "(v, st)" rule: value_done.cases) simp_all

lemma wf_close_frame: "list_all wf_frame st \<Longrightarrow> wf_outcome (close_frame st)"
  by (cases st rule: close_frame.cases) (auto intro!: wf_value_done)

lemma wf_begin_value: "wf_token t \<Longrightarrow> list_all wf_frame st \<Longrightarrow> wf_outcome (begin_value t st)"
  by (cases t) (auto simp: open_frame_def intro!: wf_value_done)

lemma wf_begin_key: "wf_token t \<Longrightarrow> list_all wf_frame st \<Longrightarrow> wf_outcome (begin_key t st)"
  by (cases "(t, st)" rule: begin_key.cases) simp_all

lemma wf_scan_step: "wf_token t \<Longrightarrow> list_all wf_frame st \<Longrightarrow> wf_outcome (scan_step t m st)"
  by (simp add: scan_step_def wf_begin_value wf_begin_key wf_close_frame split: mode.split)

lemma wf_scan_run:
  "scan_run ts m st = Some v \<Longrightarrow> \<forall>t \<in> set ts. wf_token t \<Longrightarrow> list_all wf_frame st \<Longrightarrow> wf_raw v"
proof (induction ts arbitrary: m st)
  case (Cons t ts)
  have "wf_outcome (scan_step t m st)" using Cons.prems(2,3) by (intro wf_scan_step) simp_all
  then show ?case using Cons by (auto simp: resume_def split: outcome.splits)
qed simp

lemma wf_json_parse: "json_parse s = Some v \<Longrightarrow> wf_raw v"
  unfolding json_parse_def by (erule wf_scan_run) (simp_all add: wf_tokens)

section \<open>Structs\<close>

text \<open>A value a field of this type can hold: strings are valid UTF-8, integers have 64 bits, slices are
  shorter than the body and have their cells.\<close>

fun has_type :: "slot \<Rightarrow> slot \<Rightarrow> bool" where
  "has_type (F_str _) (F_str s) \<longleftrightarrow> utf8 s"
| "has_type (F_bool _) (F_bool b) \<longleftrightarrow> True"
| "has_type (F_int _) (F_int n) \<longleftrightarrow> - (2 ^ 63) \<le> n \<and> n < 2 ^ 63"
| "has_type (F_strs _ _) (F_strs cells n) \<longleftrightarrow> n \<le> length cells \<and> n \<le> bodyLimit \<and> list_all utf8 cells"
| "has_type _ _ \<longleftrightarrow> False"

lemma store_cells_typed:
  "store_cells cells vs = Some cs \<Longrightarrow> list_all utf8 cells \<Longrightarrow> \<forall>v \<in> set vs. wf_raw v \<Longrightarrow>
    length vs \<le> length cs \<and> list_all utf8 cs"
proof (induction cells vs arbitrary: cs rule: store_cells.induct)
  case (2 cells v vs)
  obtain s cs' where s: "store_cell (case cells of [] \<Rightarrow> [] | c # _ \<Rightarrow> c) v = Some s"
    "store_cells (drop 1 cells) vs = Some cs'" "cs = s # cs'"
    using 2(2) by (auto split: option.splits)
  have "utf8 s" using s(1) 2(3,4) by (auto simp: store_cell_def split: jraw.splits list.splits)
  moreover have "list_all utf8 (drop 1 cells)" using 2(3) by (cases cells) simp_all
  ultimately show ?case using 2(1) [OF s(1,2)] 2(4) s(3) by simp
qed simp

lemma store_slot_typed:
  assumes "store_slot x v = Some y" "has_type z x" "wf_raw v" "jnodes v \<le> bodyLimit"
  shows "has_type z y"
proof (cases x)
  case (F_str s)
  then show ?thesis using assms by (cases z) (auto simp: store_slot_def split: jraw.splits)
next
  case (F_bool b)
  then show ?thesis using assms by (cases z) (auto simp: store_slot_def split: jraw.splits)
next
  case (F_int n)
  then show ?thesis using assms
    by (cases z) (auto simp: store_slot_def Atoi_def split: jraw.splits option.splits if_splits)
next
  case (F_strs cells n)
  have "length vs \<le> bodyLimit" if "v = RArr vs" for vs
    using length_le_nodes [of vs] assms(4) that by simp
  then show ?thesis using F_strs assms store_cells_typed
    by (cases z) (auto simp: store_slot_def store_strs_def split: jraw.splits if_splits)
qed

text \<open>The fields of a struct with the values they may hold.\<close>

definition typed :: "fields \<Rightarrow> fields \<Rightarrow> bool" where
  "typed fs fs' \<longleftrightarrow> list_all2 (\<lambda>(f, x) (f', x'). f' = f \<and> has_type x x') fs fs'"

lemma typed_update:
  assumes "typed zs fs" "map_of fs f = Some x" "\<And>z. has_type z x \<Longrightarrow> has_type z y"
  shows "typed zs (AList.update f y fs)"
  using assms(1,2) unfolding typed_def
  by (induction rule: list_all2_induct) (auto simp: assms(3) split: if_splits)

lemma store_members_typed:
  assumes "store_members fs kvs = Some fs'" "typed zs fs" "\<forall>(k, v) \<in> set kvs. wf_raw v \<and> jnodes v \<le> bodyLimit"
  shows "typed zs fs'"
  using assms
proof (induction fs kvs rule: store_members.induct)
  case (2 fs k v kvs)
  show ?case
  proof (cases "find_field fs k")
    case (Some f)
    then obtain x y where xy: "map_of fs f = Some x" "store_slot x v = Some y"
      "store_members (AList.update f y fs) kvs = Some fs'"
      using 2(3) by (auto simp: bind_eq_Some_conv split: option.splits)
    have "typed zs (AList.update f y fs)"
      using store_slot_typed [OF xy(2)] 2(5) by (intro typed_update [OF 2(4) xy(1)]) auto
    then show ?thesis using 2(2) [OF Some] xy 2(5) by simp
  qed (use 2 in simp)
qed simp

lemma decode_typed:
  assumes "decode fs body = Some fs'" "typed fs fs"
  shows "typed fs fs'"
proof -
  obtain v where v: "body_value body = Some v" using assms(1) by (auto simp: decode_def split: option.splits)
  then have p: "json_parse (take bodyLimit body) = Some v" by (simp add: body_value_def split: if_splits)
  have "jnodes v \<le> bodyLimit" using json_parse_nodes [OF p] by simp
  moreover have "wf_raw v" by (rule wf_json_parse [OF p])
  ultimately have "\<forall>(k, w) \<in> set kvs. wf_raw w \<and> jnodes w \<le> bodyLimit" if "v = RObj kvs" for kvs
    using that member_nodes by fastforce
  then show ?thesis
    using assms v store_members_typed [OF _ assms(2)] by (auto simp: decode_def split: jraw.splits)
qed

lemma typed_map_of: "typed zs fs \<Longrightarrow> map_of fs f = Some x \<Longrightarrow> \<exists>z. has_type z x"
  unfolding typed_def by (induction rule: list_all2_induct) (auto split: if_splits)

definition utf8s :: "string list \<Rightarrow> bool" where
  "utf8s ws \<longleftrightarrow> list_all utf8 ws \<and> length ws \<le> bodyLimit"

definition int64 :: "int \<Rightarrow> bool" where
  "int64 n \<longleftrightarrow> - (2 ^ 63) \<le> n \<and> n < 2 ^ 63"

lemma has_type_inv:
  "has_type z (F_str s) \<Longrightarrow> utf8 s" "has_type z (F_int i) \<Longrightarrow> int64 i"
  "has_type z (F_strs cells n) \<Longrightarrow> utf8s (take n cells)"
  by (cases z; auto simp: int64_def utf8s_def list_all_iff dest: in_set_takeD)+

lemma typed_fields:
  assumes "typed zs fs"
  shows "utf8 (str_field fs f)" "int64 (int_field fs f)" "utf8s (strs_field fs f)"
  using typed_map_of [OF assms] has_type_inv
  by (fastforce simp: str_field_def int_field_def strs_field_def int64_def utf8s_def split: option.split slot.split)+

lemma decode_fields:
  assumes "decode fs body = Some fs'" "typed fs fs"
  shows "utf8 (str_field fs' f)" "int64 (int_field fs' f)" "utf8s (strs_field fs' f)"
  using typed_fields [OF decode_typed [OF assms]] by simp_all

lemmas decode_structs = decode_score_def decode_daily_def decode_open_def decode_pool_def decode_settlement_def
  decode_create_def decode_join_def decode_start_def decode_submit_def

lemma decoded_typed:
  "decode_score b = Some (s1, ws) \<Longrightarrow> utf8 s1 \<and> utf8s ws"
  "decode_daily b = Some (s1, ws) \<Longrightarrow> utf8 s1 \<and> utf8s ws"
  "decode_open b = Some (s1, i, s2) \<Longrightarrow> utf8 s1 \<and> int64 i \<and> utf8 s2"
  "decode_pool b = Some (s1, i) \<Longrightarrow> utf8 s1 \<and> int64 i"
  "decode_settlement b = Some (s1, ws, ws') \<Longrightarrow> utf8 s1 \<and> utf8s ws \<and> utf8s ws'"
  "decode_create b = Some (s1, s2, pub, s3) \<Longrightarrow> utf8 s1 \<and> utf8 s2 \<and> utf8 s3"
  "decode_join b = Some (s1, s2, s3) \<Longrightarrow> utf8 s1 \<and> utf8 s2 \<and> utf8 s3"
  "decode_start b = Some (s1, s2) \<Longrightarrow> utf8 s1 \<and> utf8 s2"
  "decode_submit b = Some (s1, s2, s3) \<Longrightarrow> utf8 s1 \<and> utf8 s2 \<and> utf8 s3"
  by (auto simp: decode_structs intro!: decode_fields simp: typed_def)

section \<open>Property\<close>

fun typed_request :: "request \<Rightarrow> bool" where
  "typed_request (Post_solo_score (Some (letters, ws))) \<longleftrightarrow> utf8 letters \<and> utf8s ws"
| "typed_request (Post_daily_submit (Some (addr, ws))) \<longleftrightarrow> utf8 addr \<and> utf8s ws"
| "typed_request (Post_daily_open tok (Some (rid, endTime, date))) \<longleftrightarrow> utf8 rid \<and> int64 endTime \<and> utf8 date"
| "typed_request (Post_pool_create tok (Some (fee, days))) \<longleftrightarrow> utf8 fee \<and> int64 days"
| "typed_request (Post_sign_settlement tok (Some (rid, ws, amts))) \<longleftrightarrow> utf8 rid \<and> utf8s ws \<and> utf8s amts"
| "typed_request (Post_room_create (Some (pid, name, public, stake))) \<longleftrightarrow> utf8 pid \<and> utf8 name \<and> utf8 stake"
| "typed_request (Post_room_join (Some (code, pid, name))) \<longleftrightarrow> utf8 code \<and> utf8 pid \<and> utf8 name"
| "typed_request (Post_room_start (Some (code, pid))) \<longleftrightarrow> utf8 code \<and> utf8 pid"
| "typed_request (Post_room_submit (Some (code, pid, wd))) \<longleftrightarrow> utf8 code \<and> utf8 pid \<and> utf8 wd"
| "typed_request _ \<longleftrightarrow> True"

lemma typed_bodies:
  "typed_request (Post_solo_score (decode_score b))" "typed_request (Post_daily_submit (decode_daily b))"
  "typed_request (Post_daily_open tok (decode_open b))" "typed_request (Post_pool_create tok (decode_pool b))"
  "typed_request (Post_sign_settlement tok (decode_settlement b))" "typed_request (Post_room_create (decode_create b))"
  "typed_request (Post_room_join (decode_join b))" "typed_request (Post_room_start (decode_start b))"
  "typed_request (Post_room_submit (decode_submit b))"
proof -
  show "typed_request (Post_solo_score (decode_score b))" by (cases "decode_score b") (auto dest: decoded_typed)
  show "typed_request (Post_daily_submit (decode_daily b))" by (cases "decode_daily b") (auto dest: decoded_typed)
  show "typed_request (Post_daily_open tok (decode_open b))" by (cases "decode_open b") (auto dest: decoded_typed)
  show "typed_request (Post_pool_create tok (decode_pool b))" by (cases "decode_pool b") (auto dest: decoded_typed)
  show "typed_request (Post_sign_settlement tok (decode_settlement b))"
    by (cases "decode_settlement b") (auto dest: decoded_typed)
  show "typed_request (Post_room_create (decode_create b))" by (cases "decode_create b") (auto dest: decoded_typed)
  show "typed_request (Post_room_join (decode_join b))" by (cases "decode_join b") (auto dest: decoded_typed)
  show "typed_request (Post_room_start (decode_start b))" by (cases "decode_start b") (auto dest: decoded_typed)
  show "typed_request (Post_room_submit (decode_submit b))" by (cases "decode_submit b") (auto dest: decoded_typed)
qed

text \<open>
  C39: handlers get well-typed input: whatever bytes a body has, the strings that reach a handler from
  it are valid UTF-8, its integers have 64 bits, and its slices are no longer than the body limit.
\<close>

theorem handlers_get_typed_input:
  assumes "find_handler rq = Some req"
  shows "typed_request req"
proof -
  obtain m ps f ms where r: "(m, ps, f) \<in> set routes" "req = f rq ms"
    using assms by (auto simp: find_handler_def Let_def split: option.splits if_splits dest!: find_route_mem)
  then show ?thesis
    by (auto simp: routes_def typed_bodies)
qed

text \<open>The submission of a player.\<close>

theorem handlers_get_typed_input_witness:
  "find_handler (client toy_submit_request) = Some toy_submit_request \<and> typed_request toy_submit_request"
proof -
  have "length (rq_body (client toy_submit_request)) = 32" by code_simp
  then have "find_handler (client toy_submit_request) = Some toy_submit_request"
    by (intro client_found) (simp_all add: bodyLimit_def toy_submit_request_def utf8_ascii)
  with handlers_get_typed_input [OF this] show ?thesis by blast
qed

end
