(* ===== verification/Daily_Game.thy ===== *)
theory Daily_Game
  imports Http_Properties
begin

text \<open>
  The daily game behind the server, as a specification: a journal of acts on the store of rounds, with
  the letters of a date and the score of a submission as functions, and the acts each handler comes
  to. That a serving process refines it is shown in \<open>Concurrent\<close>. The bound on scores at the end is
  what the column of the database needs.
\<close>

section \<open>The game\<close>

datatype daily_act = Fetch string | Open_round string string int | List_paid
  | Play string string "string list" int

text \<open>A player's words are scored on the letters of the round and count if they are the player's best.\<close>

definition play :: "'p Persister option \<Rightarrow> (string \<Rightarrow> string list \<Rightarrow> game_result) \<Rightarrow> string \<Rightarrow> string \<Rightarrow>
    string list \<Rightarrow> int \<Rightarrow> 'p Store \<Rightarrow> 'p Store" where
  "play P score k addr ws at st =
    (case map_of (dailies st) k of
       None \<Rightarrow> st
     | Some d \<Rightarrow> store_submit P k \<lparr>sub_address = addr, sub_score = total (score (d_letters d) ws),
         sub_words = int (length (accepted (score (d_letters d) ws))), sub_at = at\<rparr> st)"

fun run_act :: "'p Persister option \<Rightarrow> (string \<Rightarrow> string res) \<Rightarrow> (string \<Rightarrow> string list \<Rightarrow> game_result) \<Rightarrow>
    daily_act \<Rightarrow> 'p Store \<Rightarrow> 'p Store" where
  "run_act P letters score (Fetch k) st = snd (GetOrCreateDaily P k (letters k) st)"
| "run_act P letters score (Open_round k rid et) st =
    (case letters k of Ok l \<Rightarrow> snd (OpenPaidDaily P k rid et l st) | _ \<Rightarrow> st)"
| "run_act P letters score List_paid st = snd (ListPaidDailies P st)"
| "run_act P letters score (Play k addr ws at) st = play P score k addr ws at st"

text \<open>The acts a request may lead to.\<close>

fun acts_of :: "reading \<Rightarrow> request \<Rightarrow> daily_act \<Rightarrow> bool" where
  "acts_of t Get_daily (Fetch k) \<longleftrightarrow> k = date_key (t_first t)"
| "acts_of t (Get_leaderboard d) (Fetch k) \<longleftrightarrow> k = (if d = [] then date_key (t_first t) else d)"
| "acts_of t (Post_daily_submit (Some (a, ws))) (Fetch k) \<longleftrightarrow> k = date_key (t_first t)"
| "acts_of t (Post_daily_submit (Some (a, ws))) (Play k a' ws' at) \<longleftrightarrow>
    k = date_key (t_first t) \<and> a' = a \<and> ws' = ws \<and> at = t_third t"
| "acts_of t (Post_daily_open tok (Some (rid, e, d))) (Open_round k rid' et) \<longleftrightarrow>
    k = (if d = [] then date_key (t_second t) else d) \<and> rid' = rid \<and> et = unix_time e"
| "acts_of t (Post_pool_create tok (Some (fee, days))) (Open_round k rid et) \<longleftrightarrow>
    k \<in> set (map (\<lambda>i. date_key (add_days (t_first t) i)) [0..<nat days]) \<and> et = add_days (t_first t) (nat days)"
| "acts_of t (Get_pool_list tok) List_paid \<longleftrightarrow> True"
| "acts_of t _ _ \<longleftrightarrow> False"

text \<open>The game that a server plays.\<close>

definition journal :: "('c, 'r) env \<Rightarrow> 'p Persister option \<Rightarrow> ('c, 'p) Server \<Rightarrow> daily_act \<Rightarrow> 'p Store \<Rightarrow> 'p Store" where
  "journal V P s = run_act P (\<lambda>k. gen_letters V k s) (Score (e_uc V) (sv_dict s))"

lemma journal_cong: "sv_dict s' = sv_dict s \<Longrightarrow> sv_cfg s' = sv_cfg s \<Longrightarrow> journal V P s' = journal V P s"
  by (simp add: journal_def gen_letters_def)

definition logs :: "('c, 'r) env \<Rightarrow> 'p Persister option \<Rightarrow> (daily_act \<Rightarrow> bool) \<Rightarrow> ('c, 'p) Server \<Rightarrow> ('c, 'p) Server \<Rightarrow> bool" where
  "logs V P Q s s' \<longleftrightarrow> (\<exists>acts. list_all Q acts \<and> sv_store s' = fold (journal V P s) acts (sv_store s))"

lemma logs_none: "sv_store s' = sv_store s \<Longrightarrow> logs V P Q s s'"
  unfolding logs_def by (rule exI [of _ "[]"]) simp

lemma logs_act: "Q a \<Longrightarrow> sv_store s' = journal V P s a (sv_store s) \<Longrightarrow> logs V P Q s s'"
  unfolding logs_def by (rule exI [of _ "[a]"]) simp

lemma logs_trans:
  "logs V P Q s s1 \<Longrightarrow> logs V P Q s1 s2 \<Longrightarrow> sv_dict s1 = sv_dict s \<Longrightarrow> sv_cfg s1 = sv_cfg s \<Longrightarrow> logs V P Q s s2"
proof -
  assume a: "logs V P Q s s1" "logs V P Q s1 s2" and e: "sv_dict s1 = sv_dict s" "sv_cfg s1 = sv_cfg s"
  then obtain xs ys where "list_all Q (xs @ ys)"
    "sv_store s2 = fold (journal V P s1) ys (fold (journal V P s) xs (sv_store s))"
    by (auto simp: logs_def)
  then show ?thesis unfolding logs_def by (intro exI [of _ "xs @ ys"]) (simp add: journal_cong [OF e])
qed

lemma logs_mono: "logs V P Q s s' \<Longrightarrow> (\<And>a. Q a \<Longrightarrow> R a) \<Longrightarrow> logs V P R s s'"
  unfolding logs_def by (auto simp: list_all_iff)

section \<open>Each handler\<close>

lemma logs_get_daily: "Q (Fetch k) \<Longrightarrow> logs V P Q s (snd (get_daily V P k s))"
  by (rule logs_act [of _ "Fetch k"]) (simp_all add: snd_get_daily journal_def)

lemma logs_handleDaily: "Q (Fetch (date_key now)) \<Longrightarrow> logs V P Q s (snd (handleDaily V P now s))"
  using logs_get_daily [of Q "date_key now" V P s] by (auto simp: handleDaily_def split: prod.split option.split)

lemma logs_handleLeaderboard:
  "Q (Fetch (if date = [] then date_key now else date)) \<Longrightarrow> logs V P Q s (snd (handleLeaderboard V P now date s))"
  using logs_get_daily [of Q "if date = [] then date_key now else date" V P s]
  by (auto simp: handleLeaderboard_def Let_def split: prod.split option.split)

lemma get_daily_Some:
  "get_daily V P k s = (Some d, s1) \<Longrightarrow> map_of (dailies (sv_store s1)) k = Some d"
  by (auto simp: get_daily_def GetOrCreateDaily_def Let_def split: prod.splits res.splits option.splits if_splits)

lemma get_daily_parts:
  "get_daily V P k s = (od, s1) \<Longrightarrow> sv_dict s1 = sv_dict s \<and> sv_cfg s1 = sv_cfg s"
  using snd_get_daily [of V P k s] by auto

lemma logs_handleDailySubmit:
  assumes "Q (Fetch (date_key now))" "\<And>a ws. req = Some (a, ws) \<Longrightarrow> Q (Play (date_key now) a ws at)"
  shows "logs V P Q s (snd (handleDailySubmit V P now gate at req s))"
proof (cases req)
  case (Some r)
  obtain addr words where r: "req = Some (addr, words)" using Some by (cases r) auto
  obtain od s1 where g: "get_daily V P (date_key now) s = (od, s1)" by fastforce
  have l1: "logs V P Q s s1" using logs_get_daily [where Q = Q and V = V and P = P and s = s, OF assms(1)] by (simp add: g)
  show ?thesis
  proof (cases "IsHexAddress (e_eth V) addr")
    case hex: True
    show ?thesis
    proof (cases od)
      case (Some d)
      obtain x s2 where x: "paid_gate V gate addr d s1 = (x, s2)" by fastforce
      then have s2: "sv_store s2 = sv_store s1" "sv_dict s2 = sv_dict s1" using paid_gate_state by blast+
      let ?sub = "\<lparr>sub_address = addr, sub_score = total (Score (e_uc V) (sv_dict s2) (d_letters d) words),
        sub_words = int (length (accepted (Score (e_uc V) (sv_dict s2) (d_letters d) words))), sub_at = at\<rparr>"
      have "map_of (dailies (sv_store s1)) (date_key now) = Some d" by (rule get_daily_Some [OF g [unfolded Some]])
      then have "logs V P Q s1 (s2\<lparr>sv_store := store_submit P (date_key now) ?sub (sv_store s2)\<rparr>)"
        by (intro logs_act [where Q = Q, OF assms(2) [OF r]]) (simp add: s2 journal_def play_def)
      then have "logs V P Q s (s2\<lparr>sv_store := store_submit P (date_key now) ?sub (sv_store s2)\<rparr>)"
        using get_daily_parts [OF g] by (intro logs_trans [OF l1]) simp_all
      moreover have "logs V P Q s s2" using l1 by (simp add: s2 logs_def)
      ultimately show ?thesis using handleDailySubmit_cases [OF hex g [unfolded Some] x] by (simp add: r)
    qed (use g l1 r hex in \<open>simp add: handleDailySubmit_def\<close>)
  qed (simp add: handleDailySubmit_def r logs_none)
qed (simp add: handleDailySubmit_def logs_none)

lemma logs_handleOpenDaily:
  assumes "\<And>rid e d. req = Some (rid, e, d) \<Longrightarrow> Q (Open_round (if d = [] then date_key today else d) rid (unix_time e))"
  shows "logs V P Q s (snd (handleOpenDaily V P now today token req s))"
proof -
  have "logs V P Q s (s\<lparr>sv_store := snd (OpenPaidDaily P k rid (unix_time e) l (sv_store s))\<rparr>)"
    if "req = Some (rid, e, d)" "k = (if d = [] then date_key today else d)" "gen_letters V k s = Ok l" for rid e d k l
    by (rule logs_act [where Q = Q, OF assms [OF that(1)]])
      (use that(2,3) in \<open>simp_all add: journal_def\<close>)
  then show ?thesis
    by (auto simp: handleOpenDaily_def Let_def logs_none split: option.split res.split prod.split)
      (metis snd_conv)+
qed

lemma logs_open_days:
  assumes "\<forall>i \<in> set is. Q (Open_round (date_key (add_days now i)) rid et)"
  shows "logs V P Q s (snd (open_days V P now et rid is s))"
  using assms
proof (induction "is" arbitrary: s)
  case (Cons i "is")
  let ?k = "date_key (add_days now i)"
  have "logs V P Q s (snd (open_days V P now et rid is
      (s\<lparr>sv_store := snd (OpenPaidDaily P ?k rid et l (sv_store s))\<rparr>)))" if "gen_letters V ?k s = Ok l" for l
  proof (rule logs_trans)
    show "logs V P Q s (s\<lparr>sv_store := snd (OpenPaidDaily P ?k rid et l (sv_store s))\<rparr>)"
      using Cons.prems that by (intro logs_act [where a = "Open_round ?k rid et"]) (simp_all add: journal_def)
  qed (use Cons in simp_all)
  then show ?case
    by (auto simp: Let_def logs_none split: res.split prod.split option.split)
qed (simp add: logs_none)

lemma create_pool_round_parts:
  "create_pool_round V fee et s = (x, s1) \<Longrightarrow> sv_store s1 = sv_store s \<and> sv_dict s1 = sv_dict s \<and> sv_cfg s1 = sv_cfg s"
  by (auto simp: create_pool_round_def set_world_def split: option.splits prod.splits res.splits)

lemma logs_handleCreatePool:
  assumes "\<And>fee days k rid. req = Some (fee, days) \<Longrightarrow>
      k \<in> set (map (\<lambda>i. date_key (add_days now i)) [0..<nat days]) \<Longrightarrow> Q (Open_round k rid (add_days now (nat days)))"
  shows "logs V P Q s (snd (handleCreatePool V P now token req s))"
proof (cases req)
  case (Some r)
  obtain fee days where fd: "req = Some (fee, days)" using Some by (cases r) auto
  let ?et = "add_days now (nat days)"
  have "logs V P Q s (snd (case create_pool_round V f ?et s of
          (Ok (Inl refusal), s) \<Rightarrow> (Some refusal, s)
        | (Ok (Inr roundID), s) \<Rightarrow>
            (case open_days V P now ?et (big_String roundID) [0..<nat days] s of
               (None, s) \<Rightarrow> (None, s)
             | (Some dateKeys, s) \<Rightarrow> (Some (body dateKeys roundID), s))
        | (_, s) \<Rightarrow> (None, s)))" for f and body :: "string list \<Rightarrow> int \<Rightarrow> response"
  proof -
    obtain x s1 where x: "create_pool_round V f ?et s = (x, s1)" by fastforce
    have s1: "logs V P Q s s1" using create_pool_round_parts [OF x] by (intro logs_none) simp
    have "logs V P Q s1 (snd (open_days V P now ?et (big_String rid) [0..<nat days] s1))" for rid
      by (rule logs_open_days) (use assms [OF fd] in simp)
    then have "logs V P Q s (snd (open_days V P now ?et (big_String rid) [0..<nat days] s1))" for rid
      using create_pool_round_parts [OF x] by (intro logs_trans [OF s1]) simp_all
    then show ?thesis
      using s1 by (auto simp: x split: res.split sum.split option.split prod.split) (metis snd_conv)+
  qed
  then show ?thesis
    unfolding handleCreatePool_def Let_def fd by (auto simp: logs_none split: option.split)
qed (simp add: handleCreatePool_def logs_none split: option.split)

lemma logs_handleListPools: "Q List_paid \<Longrightarrow> logs V P Q s (snd (handleListPools P token s))"
  by (auto simp: handleListPools_def logs_none journal_def split: option.split prod.split
      intro!: logs_act [of Q List_paid])

lemma keeps_store:
  "sv_store (snd (handleSignSettlement V token b1 s)) = sv_store s"
  "handleRoomCreate V now at b2 s = Some (resp, s') \<Longrightarrow> sv_store s' = sv_store s"
  "sv_store (snd (handleRoomJoin V now b3 s)) = sv_store s"
  "sv_store (snd (handleRoomStart V now seed b4 s)) = sv_store s"
  "sv_store (snd (handleRoomSubmit V now b5 s)) = sv_store s"
  "sv_store (snd (handleRoomGet V now code you s)) = sv_store s"
  by (auto simp: handleSignSettlement_def check_entered_def set_world_def handleRoomCreate_def handleRoomJoin_def
      handleRoomStart_def handleRoomSubmit_def handleRoomGet_def split: option.splits prod.splits sum.splits
      res.splits if_splits)

lemma logs_Routes:
  assumes "Routes V P t rq s = Some (resp, s')"
  shows "logs V P (acts_of t rq) s s'"
proof (cases rq)
  case (Post_room_create b)
  then show ?thesis using assms keeps_store(2) by (intro logs_none) (auto simp: Routes_def)
next
  case (Get_pool_list k)
  then show ?thesis using assms logs_handleListPools [of "acts_of t rq" V P s k]
    by (auto simp: Routes_def split: prod.splits)
next
  case Get_daily
  then show ?thesis using assms logs_handleDaily [of "acts_of t rq" "t_first t" V P s] by (simp add: Routes_def)
next
  case (Post_daily_submit b)
  then show ?thesis using assms
      logs_handleDailySubmit [of "acts_of t rq" "t_first t" b "t_third t" V P s "t_second t"]
    by (cases b) (auto simp: Routes_def handleDailySubmit_def logs_none)
next
  case (Get_leaderboard d)
  then show ?thesis using assms logs_handleLeaderboard [of "acts_of t rq" d "t_first t" V P s]
    by (simp add: Routes_def)
next
  case (Post_daily_open k b)
  then show ?thesis using assms logs_handleOpenDaily [of b "acts_of t rq" "t_second t" V P s "t_first t" k]
    by (simp add: Routes_def)
next
  case (Post_pool_create k b)
  then show ?thesis using assms logs_handleCreatePool [of b "t_first t" "acts_of t rq" V P s k]
    by (simp add: Routes_def)
next
  case (Get_room code you)
  then show ?thesis using assms keeps_store(6) [of V "t_first t" code you s]
    by (intro logs_none) (simp add: Routes_def)
next
  case (Post_sign_settlement k b)
  then show ?thesis using assms keeps_store(1) [of V k b s] by (intro logs_none) (simp add: Routes_def)
next
  case (Post_room_join b)
  then show ?thesis using assms keeps_store(3) [of V "t_first t" b s] by (intro logs_none) (simp add: Routes_def)
next
  case (Post_room_start b)
  then show ?thesis using assms keeps_store(4) [of V "t_first t" "t_seed t" b s]
    by (intro logs_none) (simp add: Routes_def)
next
  case (Post_room_submit b)
  then show ?thesis using assms keeps_store(5) [of V "t_first t" b s] by (intro logs_none) (simp add: Routes_def)
qed (use assms in \<open>simp_all add: Routes_def logs_none\<close>)

section \<open>Scores fit the database\<close>

lemma total_le:
  assumes "\<And>w. w \<in> set (accepted_of uc d rack (entries_of uc words)) \<Longrightarrow> length w \<le> N"
  shows "total (Score uc d rack words) \<le> int (length words) * WordPoints (int N)"
    "length (accepted (Score uc d rack words)) \<le> length words" "0 \<le> total (Score uc d rack words)"
proof -
  let ?acc = "accepted_of uc d rack (entries_of uc words)"
  have "length ?acc \<le> length (entries_of uc words)"
    using length_accepted_rejected [of uc d rack "entries_of uc words"] by simp
  also have "\<dots> \<le> length words"
    using length_filter_le [of "\<lambda>w. w \<noteq> []" "map (norm_word uc) words"] by (simp add: entries_of_def)
  finally have len: "length ?acc \<le> length words" .
  then show "length (accepted (Score uc d rack words)) \<le> length words"
    by (simp add: Score_eq score_state_def)
  have "WordPoints (int (length w)) \<le> WordPoints (int N)" if "w \<in> set ?acc" for w
    using assms [OF that] monoD [OF mono_WordPoints] by simp
  then have "(\<Sum>w \<leftarrow> ?acc. WordPoints (int (length w))) \<le> (\<Sum>w \<leftarrow> ?acc. WordPoints (int N))"
    by (rule sum_list_mono)
  also have "\<dots> = int (length ?acc) * WordPoints (int N)" by (simp add: sum_list_triv)
  also have "\<dots> \<le> int (length words) * WordPoints (int N)" using len by (intro mult_right_mono) simp_all
  finally show "total (Score uc d rack words) \<le> int (length words) * WordPoints (int N)"
    by (simp add: Score_eq score_state_def)
  show "0 \<le> total (Score uc d rack words)"
    by (auto simp: Score_eq score_state_def intro!: sum_list_nonneg)
qed

lemma scores_fit:
  assumes "length words \<le> bodyLimit" "all_AZ rack" "length rack \<le> 500"
  shows "int4 (total (Score uc d rack words))" "int4 (int (length (accepted (Score uc d rack words))))"
proof -
  have "length w \<le> 500" if "w \<in> set (accepted_of uc d rack (entries_of uc words))" for w
  proof -
    have "mset w \<subseteq># mset (to_upper uc rack)"
      using that by (auto simp: set_accepted_of verdict_def split: if_splits)
    then have "size (mset w) \<le> size (mset (to_upper uc rack))" by (rule size_mset_mono)
    then show ?thesis using assms(3) by (simp add: to_upper_AZ [OF assms(2)])
  qed
  note t = total_le [of uc d rack words 500, OF this]
  have ws: "length words \<le> 2 ^ 20" using assms(1) by (simp add: bodyLimit_def)
  then have "int (length words) * WordPoints (int 500) \<le> 2 ^ 20 * WordPoints (int 500)"
    by (intro mult_right_mono) simp_all
  moreover have "WordPoints (int 500) = 1982" by (simp add: WordPoints_def)
  ultimately show "int4 (total (Score uc d rack words))" "int4 (int (length (accepted (Score uc d rack words))))"
    using t ws by (simp_all add: int4_def)
qed

text \<open>
  C38: whatever a player sends in a body that is read, the score and the number of words on a rack of at
  most 500 letters fit the columns of the database, so no submission is lost to an overflow.
\<close>

theorem daily_scores_fit:
  assumes "decode_daily body = Some (addr, words)" "all_AZ rack" "length rack \<le> 500"
  shows "int4 (total (Score uc d rack words)) \<and> int4 (int (length (accepted (Score uc d rack words))))"
  using scores_fit [OF decode_daily_length [OF assms(1)] assms(2,3)] by (rule conjI)

end
