(* ===== verification/Tasks.thy ===== *)
theory Tasks
  imports Daily_Game
begin

text \<open>
  The handlers of \<open>internal/api/api.go\<close> in the pieces in which they touch shared state: a section is what
  happens up to the end of a call that takes the lock of the store, of a round, of the manager or of a room, or of
  the calls to the chain. Between two sections of a handler any sections of other requests may run, but for
  those that need the lock of the manager while it is held. A handler left alone does what its sections do
  one after the other (\<open>finishes_Routes\<close>).
\<close>

section \<open>Tasks\<close>

text \<open>
  What is left to do for a request: all of it; the gate of a submission, the submission itself, its rank;
  the reply for a round or a leaderboard that was fetched, or for a round that was opened; the days of a pool
  not yet registered. Of a \<open>Create\<close>: a search for a code that does not end, under the lock of the manager; the round
  on chain, its outcome written to the room or the room dropped; the late \<open>addPlayer\<close> of a free room. The view of a
  room that was found, by its reference; a \<open>Join\<close>, a \<open>Start\<close> and then its timer, a \<open>Submit\<close>; the rooms of a \<open>List\<close>
  not yet looked at, and the views so far.
\<close>

datatype task =
    Begin reading request
  | Gate reading string string "string list"
  | Count reading string string "string list"
  | Rank string string game_result
  | Show_round string
  | Show_board string
  | Show_opened string
  | Opening int int int int "nat list" "string list"
  | Searching
  | Funding reading string nat string int
  | Funded reading string nat int int
  | Unfunded string string
  | Hosting reading string string nat
  | Viewing int string nat
  | Joining reading nat string string
  | Starting reading nat string
  | Arming reading nat RoomView
  | Submitting reading nat string string
  | Listing int "nat list" "RoomView list"
  | Answered "response option"

text \<open>A round is fetched, then the handler goes on with the reference to it.\<close>

definition fetch_then :: "('c, 'r) env \<Rightarrow> 'p Persister option \<Rightarrow> string \<Rightarrow> task \<Rightarrow> ('c, 'p) Server \<Rightarrow>
    task \<times> ('c, 'p) Server" where
  "fetch_then V P k rest s =
    (case get_daily V P k s of (None, s) \<Rightarrow> (Answered None, s) | (Some d, s) \<Rightarrow> (rest, s))"

text \<open>An admin opens a round.\<close>

definition open_section :: "('c, 'r) env \<Rightarrow> 'p Persister option \<Rightarrow> int \<Rightarrow> int \<Rightarrow> string \<Rightarrow>
    (string \<times> int \<times> string) option \<Rightarrow> ('c, 'p) Server \<Rightarrow> task \<times> ('c, 'p) Server" where
  "open_section V P now today token req s =
    (case adminOK s token of
       Some refusal \<Rightarrow> (Answered (Some refusal), s)
     | None \<Rightarrow>
         (case req of
            None \<Rightarrow> (Answered (Some bad_body), s)
          | Some (roundID, endTime, date) \<Rightarrow>
              if big_SetString roundID = None
              then (Answered (Some (writeErr 400 ''roundId must be a base-10 integer string'')), s)
              else if endTime \<le> unix_secs now
              then (Answered (Some (writeErr 400 ''endTime must be in the future'')), s)
              else let dateKey = (if date = [] then date_key today else date)
                in case gen_letters V dateKey s of
                     Ok letters \<Rightarrow> (Show_opened dateKey, s\<lparr>sv_store :=
                       snd (OpenPaidDaily P dateKey roundID (unix_time endTime) letters (sv_store s))\<rparr>)
                   | _ \<Rightarrow> (Answered None, s)))"

text \<open>A pool is opened on chain: a reply, or what is to be registered.\<close>

definition pool_section :: "('c, 'r) env \<Rightarrow> int \<Rightarrow> string \<Rightarrow> (string \<times> int) option \<Rightarrow> ('c, 'p) Server \<Rightarrow>
    task \<times> ('c, 'p) Server" where
  "pool_section V now token req s =
    (case adminOK s token of
       Some refusal \<Rightarrow> (Answered (Some refusal), s)
     | None \<Rightarrow>
         (case req of
            None \<Rightarrow> (Answered (Some bad_body), s)
          | Some (fee, days) \<Rightarrow>
              (case big_SetString fee of
                 None \<Rightarrow> (Answered (Some (writeErr 400 fee_msg)), s)
               | Some entryFee \<Rightarrow>
                   if entryFee \<le> 0 then (Answered (Some (writeErr 400 fee_msg)), s)
                   else if days < 1 \<or> days > 90
                   then (Answered (Some (writeErr 400 ''days must be between 1 and 90'')), s)
                   else let endTime = add_days now (nat days)
                     in case create_pool_round V entryFee endTime s of
                          (Ok (Inl refusal), s) \<Rightarrow> (Answered (Some refusal), s)
                        | (Ok (Inr roundID), s) \<Rightarrow> (Opening now endTime entryFee roundID [0..<nat days] [], s)
                        | (_, s) \<Rightarrow> (Answered None, s))))"

text \<open>
  The first section of \<open>Create\<close>, up to the release of the manager's lock: the room is published, and the round
  of a staked one is to be opened, the host of a free one to be added.
\<close>

definition create_section :: "('c, 'r) env \<Rightarrow> reading \<Rightarrow> (string \<times> string \<times> bool \<times> string) option \<Rightarrow>
    ('c, 'p) Server \<Rightarrow> task \<times> ('c, 'p) Server" where
  "create_section V t req s =
    (case req of
       None \<Rightarrow> (Answered (Some bad_body), s)
     | Some (playerID, name, public, stake) \<Rightarrow>
         if playerID = [] then (Answered (Some (writeErr 400 ''playerId required'')), s)
         else case stake_of stake of
           None \<Rightarrow> (Answered (Some (writeErr 400 ''invalid stake amount'')), s)
         | Some amount \<Rightarrow>
             if is_staked amount \<and> \<not> IsHexAddress (e_eth V) playerID
             then (Answered (Some (writeErr 400 wallet_needed)), s)
             else if is_staked amount \<and> \<not> stakingEnabled (sv_rooms s)
             then (Answered (Some (writeErr 400 no_staking)), s)
             else case create_publish V playerID public amount (sv_rooms s) of
                    None \<Rightarrow> (Searching, s)
                  | Some (a, code, m) \<Rightarrow>
                      ((case (if is_staked amount then amount else None) of
                          Some amount \<Rightarrow> Funding t playerID a code amount
                        | None \<Rightarrow> Hosting t playerID name a), s\<lparr>sv_rooms := m\<rparr>))"

text \<open>A room is looked up under the manager's lock.\<close>

definition found_room :: "('c, 'r) env \<Rightarrow> string \<Rightarrow> response \<Rightarrow> (nat \<Rightarrow> task) \<Rightarrow> ('c, 'p) Server \<Rightarrow> task" where
  "found_room V code refusal f s =
    (case room_addr V code (sv_rooms s) of None \<Rightarrow> Answered (Some refusal) | Some a \<Rightarrow> f a)"

fun room_section :: "('c, 'r) env \<Rightarrow> reading \<Rightarrow> request \<Rightarrow> ('c, 'p) Server \<Rightarrow> task" where
  "room_section V t (Post_room_join (Some (code, playerID, name))) s =
    (if playerID = [] \<or> code = [] then Answered (Some (writeErr 400 ''code and playerId required''))
     else found_room V code (writeErr 400 not_found) (\<lambda>a. Joining t a playerID name) s)"
| "room_section V t (Post_room_start (Some (code, playerID))) s =
    found_room V code (writeErr 400 not_found) (\<lambda>a. Starting t a playerID) s"
| "room_section V t (Post_room_submit (Some (code, playerID, wd))) s =
    found_room V code (writeErr 400 not_found) (\<lambda>a. Submitting t a playerID wd) s"
| "room_section V t Get_room_list s = Listing (t_first t) (map snd (map_entries (m_rooms (sv_rooms s)))) []"
| "room_section V t (Get_room code you) s =
    found_room V code (writeErr 404 ''room not found'') (Viewing (t_first t) you) s"
| "room_section V t rq s = Answered (Some bad_body)"

definition begin_section :: "('c, 'r) env \<Rightarrow> 'p Persister option \<Rightarrow> reading \<Rightarrow> request \<Rightarrow> ('c, 'p) Server \<Rightarrow>
    (task \<times> ('c, 'p) Server) option" where
  "begin_section V P t rq s =
    (case rq of
       Get_daily \<Rightarrow> Some (fetch_then V P (date_key (t_first t)) (Show_round (date_key (t_first t))) s)
     | Get_leaderboard date \<Rightarrow>
         (let k = (if date = [] then date_key (t_first t) else date) in Some (fetch_then V P k (Show_board k) s))
     | Post_daily_submit (Some (addr, words)) \<Rightarrow>
         Some (if \<not> IsHexAddress (e_eth V) addr then (Answered (Some (writeErr 400 ''valid address required'')), s)
               else fetch_then V P (date_key (t_first t)) (Gate t (date_key (t_first t)) addr words) s)
     | Post_daily_open tok b \<Rightarrow> Some (open_section V P (t_first t) (t_second t) tok b s)
     | Post_pool_create tok b \<Rightarrow> Some (pool_section V (t_first t) tok b s)
     | Post_room_create b \<Rightarrow> Some (create_section V t b s)
     | _ \<Rightarrow> if on_rooms rq then Some (room_section V t rq s, s)
            else map_option (\<lambda>(resp, s). (Answered resp, s)) (Routes V P t rq s))"

text \<open>A section on the rooms: what comes next, and the rooms after it.\<close>

definition in_rooms :: "('c, 'p) Server \<Rightarrow> task \<times> 'c Manager \<Rightarrow> task \<times> ('c, 'p) Server" where
  "in_rooms s x = (fst x, s\<lparr>sv_rooms := snd x\<rparr>)"

definition reply_next :: "RoomView res \<Rightarrow> task" where
  "reply_next v = Answered (view_reply v)"

definition open_next :: "reading \<Rightarrow> string \<Rightarrow> nat \<Rightarrow> string \<Rightarrow> (int \<times> int) res \<Rightarrow> task" where
  "open_next t playerID a code x =
    (case x of Ok (roundID, endsAt) \<Rightarrow> Funded t playerID a roundID endsAt | Err e \<Rightarrow> Unfunded code e
     | Panic \<Rightarrow> Answered None)"

definition start_next :: "reading \<Rightarrow> nat \<Rightarrow> RoomView res \<Rightarrow> task" where
  "start_next t a v = (case v of Ok view \<Rightarrow> Arming t a view | _ \<Rightarrow> reply_next v)"

definition submit_next :: "submit_reply res \<Rightarrow> task" where
  "submit_next x = (case x of Ok rep \<Rightarrow> Answered (Some (submit_json rep)) | _ \<Rightarrow> Answered None)"

definition list_next :: "int \<Rightarrow> nat list \<Rightarrow> RoomView list \<Rightarrow> RoomView option res \<Rightarrow> task" where
  "list_next now as vs x =
    (case x of Ok None \<Rightarrow> Listing now as vs | Ok (Some v) \<Rightarrow> Listing now as (vs @ [v]) | _ \<Rightarrow> Answered None)"

text \<open>The round behind the reference a handler holds. Rounds are never removed.\<close>

definition with_round :: "string \<Rightarrow> ('c, 'p) Server \<Rightarrow> (Daily \<Rightarrow> task \<times> ('c, 'p) Server) \<Rightarrow> task \<times> ('c, 'p) Server" where
  "with_round k s f = (case map_of (dailies (sv_store s)) k of None \<Rightarrow> (Answered None, s) | Some d \<Rightarrow> f d)"

fun task_step :: "('c, 'r) env \<Rightarrow> 'p Persister option \<Rightarrow> task \<Rightarrow> ('c, 'p) Server \<Rightarrow>
    (task \<times> ('c, 'p) Server) option" where
  "task_step V P (Begin t rq) s = begin_section V P t rq s"
| "task_step V P (Gate t k addr words) s = Some (with_round k s (\<lambda>d.
    case paid_gate V (t_second t) addr d s of
      (Ok None, s) \<Rightarrow> (Count t k addr words, s)
    | (Ok (Some refusal), s) \<Rightarrow> (Answered (Some refusal), s)
    | (_, s) \<Rightarrow> (Answered None, s)))"
| "task_step V P (Count t k addr words) s = Some (with_round k s (\<lambda>d.
    let result = Score (e_uc V) (sv_dict s) (d_letters d) words;
        sub = \<lparr>sub_address = addr, sub_score = total result, sub_words = int (length (accepted result)),
               sub_at = t_third t\<rparr>
    in (Rank k addr result, s\<lparr>sv_store := store_submit P k sub (sv_store s)\<rparr>)))"
| "task_step V P (Rank k addr result) s = Some (with_round k s (\<lambda>d.
    (Answered (Some (200, JMap [(''dateKey'', JStr k), (''score'', JNum (total result)),
       (''rank'', JNum (rank_of V addr (Leaderboard d))), (''result'', jresult result)])), s)))"
| "task_step V P (Show_round k) s = Some (with_round k s (\<lambda>d.
    (Answered (Some (200, JMap ([(''dateKey'', JStr (d_dateKey d)), (''letters'', JStr (d_letters d)),
       (''paid'', JBool (d_paid d))] @
       (if d_paid d then [(''roundId'', JStr (d_roundID d)), (''endTime'', JNum (unix_secs (d_endTime d)))]
        else [])))), s)))"
| "task_step V P (Show_board k) s = Some (with_round k s (\<lambda>d.
    (Answered (Some (200, JMap [(''dateKey'', JStr (d_dateKey d)),
       (''leaderboard'', JArr (map jentry (Leaderboard d)))])), s)))"
| "task_step V P (Show_opened k) s = Some (with_round k s (\<lambda>d.
    (Answered (Some (200, JMap [(''dateKey'', JStr (d_dateKey d)), (''roundId'', JStr (d_roundID d)),
       (''letters'', JStr (d_letters d)), (''endTime'', JNum (unix_secs (d_endTime d))), (''paid'', JBool True)])), s)))"
| "task_step V P (Opening now endTime fee rid (i # is) ks) s = Some
    (let k = date_key (add_days now i)
     in case gen_letters V k s of
          Ok letters \<Rightarrow> (Opening now endTime fee rid is (ks @ [k]),
            s\<lparr>sv_store := snd (OpenPaidDaily P k (big_String rid) endTime letters (sv_store s))\<rparr>)
        | _ \<Rightarrow> (Answered None, s))"
| "task_step V P (Opening now endTime fee rid [] ks) s = Some
    (Answered (Some (200, JMap [(''roundId'', JStr (big_String rid)), (''entryFee'', JStr (big_String fee)),
       (''endTime'', JNum (unix_secs endTime)), (''dateKeys'', JArr (map JStr ks))])), s)"
| "task_step V P (Funding t playerID a code amount) s = Some (in_rooms s
    (case create_open V (t_first t) amount (sv_rooms s) of (x, m) \<Rightarrow> (open_next t playerID a code x, m)))"
| "task_step V P (Funded t playerID a roundID endsAt) s = Some (in_rooms s
    (Viewing (t_second t) playerID a, set_round a roundID endsAt (sv_rooms s)))"
| "task_step V P (Unfunded code e) s = Some (in_rooms s
    (Answered (Some (writeErr 400 e)), drop_room code (sv_rooms s)))"
| "task_step V P (Hosting t playerID name a) s = Some (in_rooms s
    (Viewing (t_second t) playerID a, create_host playerID name a (sv_rooms s)))"
| "task_step V P (Viewing now you a) s = Some (in_rooms s
    (case snapshot now you a (sv_rooms s) of (v, m) \<Rightarrow> (reply_next v, m)))"
| "task_step V P (Joining t a playerID name) s = Some (in_rooms s
    (case Join_at V (t_first t) a playerID name (sv_rooms s) of (v, m) \<Rightarrow> (reply_next v, m)))"
| "task_step V P (Starting t a playerID) s = Some (in_rooms s
    (case Start_at V (t_first t) (t_seed t) a playerID (sv_rooms s) of (v, m) \<Rightarrow> (start_next t a v, m)))"
| "task_step V P (Arming t a view) s = Some (in_rooms s (reply_next (Ok view), arm (t_first t) a (sv_rooms s)))"
| "task_step V P (Submitting t a playerID wd) s = Some (in_rooms s
    (case Submit_at V (t_first t) a playerID wd (sv_rooms s) of (x, m) \<Rightarrow> (submit_next x, m)))"
| "task_step V P (Listing now (a # as) vs) s = Some (in_rooms s
    (case list_room now a (sv_rooms s) of (x, m) \<Rightarrow> (list_next now as vs x, m)))"
| "task_step V P (Listing now [] vs) s = Some
    (Answered (Some (200, JMap [(''rooms'', JArr (map jview (sort_slice code_before vs)))])), s)"
| "task_step V P Searching s = None"
| "task_step V P (Answered resp) s = None"

text \<open>
  Which sections wait for the manager's lock: a \<open>Create\<close> that has passed its checks, every request that looks a room up
  or lists them, and the drop of a room whose round was not opened. \<open>Searching\<close> holds it and never lets it go.
\<close>

fun takes_manager :: "('c, 'r) env \<Rightarrow> ('c, 'p) Server \<Rightarrow> task \<Rightarrow> bool" where
  "takes_manager V s (Begin t (Post_room_create (Some (playerID, name, public, stake)))) \<longleftrightarrow>
    playerID \<noteq> [] \<and> (case stake_of stake of None \<Rightarrow> False | Some amount \<Rightarrow>
      is_staked amount \<longrightarrow> IsHexAddress (e_eth V) playerID \<and> stakingEnabled (sv_rooms s))"
| "takes_manager V s (Begin t (Post_room_join (Some (code, playerID, name)))) \<longleftrightarrow> playerID \<noteq> [] \<and> code \<noteq> []"
| "takes_manager V s (Begin t (Post_room_start (Some b))) \<longleftrightarrow> True"
| "takes_manager V s (Begin t (Post_room_submit (Some b))) \<longleftrightarrow> True"
| "takes_manager V s (Begin t Get_room_list) \<longleftrightarrow> True"
| "takes_manager V s (Begin t (Get_room code you)) \<longleftrightarrow> True"
| "takes_manager V s (Unfunded code e) \<longleftrightarrow> True"
| "takes_manager V s task \<longleftrightarrow> False"

section \<open>Alone\<close>

text \<open>One section after the other, nothing in between.\<close>

definition alone :: "('c, 'r) env \<Rightarrow> 'p Persister option \<Rightarrow> task \<times> ('c, 'p) Server \<Rightarrow>
    task \<times> ('c, 'p) Server \<Rightarrow> bool" where
  "alone V P x y \<longleftrightarrow> task_step V P (fst x) (snd x) = Some y"

abbreviation finishes :: "('c, 'r) env \<Rightarrow> 'p Persister option \<Rightarrow> task \<times> ('c, 'p) Server \<Rightarrow>
    task \<times> ('c, 'p) Server \<Rightarrow> bool" where
  "finishes V P \<equiv> (alone V P)\<^sup>*\<^sup>*"

lemma finishes_step: "task_step V P task s = Some y \<Longrightarrow> finishes V P y z \<Longrightarrow> finishes V P (task, s) z"
  by (rule converse_rtranclp_into_rtranclp [of _ _ y]) (simp_all add: alone_def)

lemma finishes_last: "task_step V P task s = Some z \<Longrightarrow> finishes V P (task, s) z"
  by (rule finishes_step) (assumption, rule rtranclp.rtrancl_refl)

section \<open>Each handler\<close>

definition sections :: "('c, 'r) env \<Rightarrow> 'p Persister option \<Rightarrow> task \<times> ('c, 'p) Server \<Rightarrow>
    response option \<times> ('c, 'p) Server \<Rightarrow> bool" where
  "sections V P x y \<longleftrightarrow> finishes V P x (Answered (fst y), snd y)"

lemma sections_step: "task_step V P task s = Some x \<Longrightarrow> sections V P x y \<Longrightarrow> sections V P (task, s) y"
  by (simp add: sections_def finishes_step)

lemma sections_done: "sections V P (Answered r, s) (r, s)"
  by (simp add: sections_def)

lemma sections_answer: "task_step V P task s = Some (Answered r, s') \<Longrightarrow> sections V P (task, s) (r, s')"
  by (rule sections_step [OF _ sections_done])

lemma with_round_Some: "map_of (dailies (sv_store s)) k = Some d \<Longrightarrow> with_round k s f = f d"
  by (simp add: with_round_def)

lemma fetch_then_cases:
  obtains (none) s1 where "get_daily V P k s = (None, s1)" "fetch_then V P k rest s = (Answered None, s1)"
  | (some) d s1 where "get_daily V P k s = (Some d, s1)" "fetch_then V P k rest s = (rest, s1)"
      "map_of (dailies (sv_store s1)) k = Some d"
  by (cases "get_daily V P k s"; cases "fst (get_daily V P k s)") (auto simp: fetch_then_def dest: get_daily_Some)

lemma sections_daily:
  "sections V P (fetch_then V P (date_key now) (Show_round (date_key now)) s) (handleDaily V P now s)"
proof (rule fetch_then_cases [of V P "date_key now" s "Show_round (date_key now)"], goal_cases none some)
  case (some d s1)
  then show ?thesis by (auto simp: handleDaily_def with_round_Some intro!: sections_answer)
qed (simp add: handleDaily_def sections_done)

lemma sections_leaderboard:
  assumes "k = (if date = [] then date_key now else date)"
  shows "sections V P (fetch_then V P k (Show_board k) s) (handleLeaderboard V P now date s)"
proof (rule fetch_then_cases [of V P k s "Show_board k"], goal_cases none some)
  case (some d s1)
  then show ?thesis using assms by (auto simp: handleLeaderboard_def Let_def with_round_Some intro!: sections_answer)
qed (use assms in \<open>simp add: handleLeaderboard_def sections_done\<close>)

lemma sections_open:
  "sections V P (open_section V P now today token req s) (handleOpenDaily V P now today token req s)"
proof -
  have "sections V P (Show_opened k, s\<lparr>sv_store := st\<rparr>)
      (Some (200, JMap [(''dateKey'', JStr (d_dateKey d)), (''roundId'', JStr (d_roundID d)),
         (''letters'', JStr (d_letters d)), (''endTime'', JNum (unix_secs (d_endTime d))),
         (''paid'', JBool True)]), s\<lparr>sv_store := st\<rparr>)"
    if "OpenPaidDaily P k rid et l (sv_store s) = (d, st)" for k rid et l d st
  proof -
    have "map_of (dailies st) k = Some d" using that by (auto simp: OpenPaidDaily_def Let_def update_conv')
    then show ?thesis by (intro sections_answer) (simp add: with_round_Some)
  qed
  then show ?thesis
    by (auto simp: open_section_def handleOpenDaily_def sections_done Let_def split: option.split res.split prod.split)
qed

lemma store_submit_known:
  assumes "map_of (dailies st) k = Some d"
  shows "map_of (dailies (store_submit P k sub st)) k = Some (fst (Daily_Submit P sub (d, pstate st)))"
  using assms by (simp add: store_submit_def update_conv' case_prod_unfold)

lemma sections_submit:
  assumes hex: "IsHexAddress (e_eth V) addr" and k: "k = date_key (t_first t)"
  shows "sections V P (fetch_then V P k (Gate t k addr words) s)
    (handleDailySubmit V P (t_first t) (t_second t) (t_third t) (Some (addr, words)) s)"
    (is "sections _ _ _ ?done")
proof (rule fetch_then_cases [of V P k s "Gate t k addr words"], goal_cases none some)
  case (some d s1)
  obtain x s2 where x: "paid_gate V (t_second t) addr d s1 = (x, s2)" by fastforce
  then have s2: "map_of (dailies (sv_store s2)) k = Some d" using paid_gate_state some(3) by metis
  note ends = handleDailySubmit_cases [OF hex some(1) [unfolded k] x, of "t_third t" words, folded k]
  show ?case
  proof (cases "x = Ok None")
    case True
    let ?res = "Score (e_uc V) (sv_dict s2) (d_letters d) words"
    let ?sub = "\<lparr>sub_address = addr, sub_score = total ?res, sub_words = int (length (accepted ?res)),
      sub_at = t_third t\<rparr>"
    let ?s3 = "s2\<lparr>sv_store := store_submit P k ?sub (sv_store s2)\<rparr>"
    have gate: "task_step V P (Gate t k addr words) s1 = Some (Count t k addr words, s2)"
      using some(3) x True by (simp add: with_round_Some)
    have count: "task_step V P (Count t k addr words) s2 = Some (Rank k addr ?res, ?s3)"
      using s2 by (simp add: with_round_Some Let_def)
    have rank: "task_step V P (Rank k addr ?res) ?s3 = Some (Answered (fst ?done), ?s3)"
      using store_submit_known [OF s2] some(1) x True hex k
      by (simp add: with_round_Some handleDailySubmit_def Let_def)
    have "?done = (fst ?done, ?s3)" using ends True by (simp add: prod_eq_iff)
    then show ?thesis
      unfolding some(2) by (rule ssubst [where P = "sections V P (Gate t k addr words, s1)"])
        (rule sections_step [OF gate sections_step [OF count sections_answer [OF rank]]])
  next
    case False
    then have gate: "task_step V P (Gate t k addr words) s1 = Some (Answered (fst ?done), s2)"
      using some(1,3) x hex k by (auto simp: with_round_Some handleDailySubmit_def split: res.split option.split)
    have "?done = (fst ?done, s2)" using ends False by (simp add: prod_eq_iff)
    then show ?thesis
      unfolding some(2) by (rule ssubst [where P = "sections V P (Gate t k addr words, s1)"])
        (rule sections_answer [OF gate])
  qed
qed (use hex k in \<open>simp add: handleDailySubmit_def sections_done\<close>)

definition days_reply :: "int \<Rightarrow> int \<Rightarrow> int \<Rightarrow> string list \<Rightarrow> string list option \<times> ('c, 'p) Server \<Rightarrow>
    response option \<times> ('c, 'p) Server" where
  "days_reply et fee rid ks x =
    (map_option (\<lambda>ks'. (200, JMap [(''roundId'', JStr (big_String rid)), (''entryFee'', JStr (big_String fee)),
         (''endTime'', JNum (unix_secs et)), (''dateKeys'', JArr (map JStr (ks @ ks')))])) (fst x), snd x)"

lemma sections_days:
  "sections V P (Opening now et fee rid is ks, s) (days_reply et fee rid ks (open_days V P now et (big_String rid) is s))"
proof (induction "is" arbitrary: ks s)
  case Nil
  show ?case unfolding days_reply_def by (rule sections_answer) simp
next
  case (Cons i "is")
  show ?case
  proof (cases "gen_letters V (date_key (add_days now i)) s")
    case (Ok l)
    let ?k = "date_key (add_days now i)"
    let ?s = "s\<lparr>sv_store := snd (OpenPaidDaily P ?k (big_String rid) et l (sv_store s))\<rparr>"
    have "task_step V P (Opening now et fee rid (i # is) ks) s = Some (Opening now et fee rid is (ks @ [?k]), ?s)"
      by (simp add: Ok Let_def)
    from sections_step [OF this Cons.IH [of "ks @ [?k]" ?s]] show ?thesis
      by (cases "open_days V P now et (big_String rid) is ?s"; cases "fst (open_days V P now et (big_String rid) is ?s)")
        (simp_all add: Ok Let_def days_reply_def)
  qed (auto simp: Let_def days_reply_def intro!: sections_answer)
qed

lemma handleCreatePool_days:
  "(case open_days V P now et (big_String rid) is s of
      (None, s) \<Rightarrow> (None, s)
    | (Some ks, s) \<Rightarrow> (Some (200, JMap [(''roundId'', JStr (big_String rid)), (''entryFee'', JStr (big_String fee)),
        (''endTime'', JNum (unix_secs et)), (''dateKeys'', JArr (map JStr ks))]), s)) =
    days_reply et fee rid [] (open_days V P now et (big_String rid) is s)"
  by (simp add: days_reply_def split: prod.split option.split)

lemma sections_pool:
  "sections V P (pool_section V now token req s) (handleCreatePool V P now token req s)"
  unfolding handleCreatePool_def handleCreatePool_days
  by (auto simp: pool_section_def sections_done sections_days Let_def
      split: option.split res.split prod.split sum.split)

text \<open>The handlers of the rooms.\<close>

lemma same_rooms [simp]: "s\<lparr>sv_rooms := sv_rooms s\<rparr> = s"
  by simp

lemma sections_view:
  "snapshot now you a (sv_rooms s) = (v, m) \<Longrightarrow>
    sections V P (Viewing now you a, s) (view_reply v, s\<lparr>sv_rooms := m\<rparr>)"
  by (rule sections_answer) (simp add: in_rooms_def reply_next_def)

lemma sections_create:
  assumes "handleRoomCreate V (t_first t) (t_second t) req s = Some y"
  shows "sections V P (create_section V t req s) y"
proof (cases "\<exists>r. create_section V t req s = (Answered r, s) \<and> y = (r, s)")
  case True
  then show ?thesis by (auto simp: sections_done)
next
  case False
  then obtain pid name public stake amount where r: "req = Some (pid, name, public, stake)" "pid \<noteq> []"
    "stake_of stake = Some amount" "\<not> (is_staked amount \<and> \<not> IsHexAddress (e_eth V) pid)"
    "\<not> (is_staked amount \<and> \<not> stakingEnabled (sv_rooms s))"
    using assms by (auto simp: handleRoomCreate_def create_section_def Create_def view_reply_def split: option.splits if_splits)
  then obtain a code m where p: "create_publish V pid public amount (sv_rooms s) = Some (a, code, m)"
    using assms by (auto simp: handleRoomCreate_def Create_def split: option.splits)
  show ?thesis
  proof (cases "if is_staked amount then amount else None")
    case None
    obtain v m2 where v: "snapshot (t_second t) pid a (create_host pid name a m) = (v, m2)" by fastforce
    have y: "y = (view_reply v, s\<lparr>sv_rooms := m2\<rparr>)"
      using assms r p v None by (auto simp: handleRoomCreate_def Create_def)
    have "sections V P (Viewing (t_second t) pid a, s\<lparr>sv_rooms := create_host pid name a m\<rparr>) y"
      unfolding y using sections_view [of "t_second t" pid a "s\<lparr>sv_rooms := create_host pid name a m\<rparr>" v m2 V P] v by simp
    moreover have "create_section V t req s = (Hosting t pid name a, s\<lparr>sv_rooms := m\<rparr>)"
      using r p None by (auto simp: create_section_def)
    ultimately show ?thesis by (auto intro: sections_step simp: in_rooms_def)
  next
    case (Some amt)
    obtain x m1 where o: "create_open V (t_first t) amt m = (x, m1)" by fastforce
    have c: "create_section V t req s = (Funding t pid a code amt, s\<lparr>sv_rooms := m\<rparr>)"
      using r p Some by (auto simp: create_section_def)
    have fund: "task_step V P (Funding t pid a code amt) (s\<lparr>sv_rooms := m\<rparr>) =
        Some (open_next t pid a code x, s\<lparr>sv_rooms := m1\<rparr>)" by (simp add: in_rooms_def o)
    show ?thesis
    proof (cases x)
      case (Ok re)
      obtain rid endsAt where re: "re = (rid, endsAt)" by fastforce
      obtain v m2 where v: "snapshot (t_second t) pid a (set_round a rid endsAt m1) = (v, m2)" by fastforce
      have y: "y = (view_reply v, s\<lparr>sv_rooms := m2\<rparr>)"
        using assms r p v Some o Ok re by (auto simp: handleRoomCreate_def Create_def)
      have "sections V P (Viewing (t_second t) pid a, s\<lparr>sv_rooms := set_round a rid endsAt m1\<rparr>) y"
        unfolding y using sections_view [of "t_second t" pid a "s\<lparr>sv_rooms := set_round a rid endsAt m1\<rparr>" v m2 V P] v by simp
      then have "sections V P (Funded t pid a rid endsAt, s\<lparr>sv_rooms := m1\<rparr>) y"
        by (auto intro: sections_step simp: in_rooms_def)
      then show ?thesis unfolding c by (intro sections_step [OF fund]) (simp add: open_next_def Ok re)
    next
      case (Err e)
      have y: "y = (Some (writeErr 400 e), s\<lparr>sv_rooms := drop_room code m1\<rparr>)"
        using assms r p Some o Err by (auto simp: handleRoomCreate_def Create_def view_reply_def)
      have "sections V P (Unfunded code e, s\<lparr>sv_rooms := m1\<rparr>) y"
        unfolding y by (rule sections_answer) (simp add: in_rooms_def)
      then show ?thesis unfolding c by (intro sections_step [OF fund]) (simp add: open_next_def Err)
    next
      case Panic
      have y: "y = (None, s\<lparr>sv_rooms := m1\<rparr>)"
        using assms r p Some o Panic by (auto simp: handleRoomCreate_def Create_def view_reply_def)
      show ?thesis
        unfolding c y by (rule sections_answer) (use fund in \<open>simp add: open_next_def Panic del: task_step.simps\<close>)
    qed
  qed
qed

lemma list_room_same: "snd (list_room now a m) = m"
  by (cases m)
    (auto simp: list_room_def open_room_def snapshot_def snapshotLocked_def maybeFinishLocked_def set_room_def Let_def
      split: res.split)

lemma list_room_view: "fst (list_room now a m) =
    (if \<not> open_room (m_heap m ! a) then Ok None
     else if no_nil_player (m_heap m ! a) then Ok (Some (view_of now [] (m_heap m ! a))) else Panic)"
  by (auto simp: list_room_def open_room_def snapshot_def snapshotLocked_def maybeFinishLocked_def Let_def)

definition listed :: "int \<Rightarrow> RoomView list \<Rightarrow> Room list \<Rightarrow> response option" where
  "listed now vs rs = (if list_all no_nil_player rs
     then Some (200, JMap [(''rooms'', JArr (map jview (sort_slice code_before (vs @ map (view_of now []) rs))))])
     else None)"

lemma sections_listing:
  "sections V P (Listing now as vs, s) (listed now vs (filter open_room (map (\<lambda>a. m_heap (sv_rooms s) ! a) as)), s)"
proof (induction as arbitrary: vs)
  case Nil
  show ?case by (rule sections_answer) (simp add: listed_def)
next
  case (Cons a as)
  let ?x = "fst (list_room now a (sv_rooms s))"
  have t: "task_step V P (Listing now (a # as) vs) s = Some (list_next now as vs ?x, s)"
    using list_room_same [of now a "sv_rooms s"] by (cases "list_room now a (sv_rooms s)") (simp add: in_rooms_def)
  show ?case
  proof (cases "?x = Panic")
    case True
    then have "task_step V P (Listing now (a # as) vs) s = Some (Answered None, s)"
      using t by (simp add: list_next_def del: task_step.simps)
    moreover have "listed now vs (filter open_room (map (\<lambda>a. m_heap (sv_rooms s) ! a) (a # as))) = None"
      using True by (auto simp: listed_def list_room_view split: if_splits)
    ultimately show ?thesis by (metis sections_answer)
  next
    case False
    then show ?thesis
      using Cons.IH [of vs] Cons.IH [of "vs @ [view_of now [] (m_heap (sv_rooms s) ! a)]"]
      by (intro sections_step [OF t]) (auto simp: list_next_def listed_def list_room_view split: if_splits)
  qed
qed

lemma sections_list: "sections V P (Listing now (map snd (map_entries (m_rooms (sv_rooms s)))) [], s) (handleRoomList now s, s)"
proof -
  let ?as = "map snd (map_entries (m_rooms (sv_rooms s)))"
  have "handleRoomList now s = listed now [] (filter open_room (map (\<lambda>a. m_heap (sv_rooms s) ! a) ?as))"
    by (simp add: handleRoomList_def List_rooms_def listed_def Let_def comp_def case_prod_unfold)
  then show ?thesis using sections_listing [of V P now ?as "[]" s] by simp
qed

lemma sections_joining:
  "Join_at V (t_first t) a pid name (sv_rooms s) = (v, m) \<Longrightarrow>
    sections V P (Joining t a pid name, s) (view_reply v, s\<lparr>sv_rooms := m\<rparr>)"
  by (rule sections_answer) (simp add: in_rooms_def reply_next_def)

lemma sections_submitting:
  "Submit_at V (t_first t) a pid wd (sv_rooms s) = (x, m) \<Longrightarrow>
    sections V P (Submitting t a pid wd, s)
      (case x of Ok rep \<Rightarrow> Some (submit_json rep) | _ \<Rightarrow> None, s\<lparr>sv_rooms := m\<rparr>)"
  by (rule sections_answer) (simp add: in_rooms_def submit_next_def split: res.split)

lemma sections_room:
  assumes "Routes V P t rq s = Some y" "on_rooms rq" "\<nexists>b. rq = Post_room_create b"
  shows "sections V P (room_section V t rq s, s) y"
proof (cases rq)
  case (Post_room_join b)
  then show ?thesis using assms(1)
    by (cases b)
      (auto simp: Routes_def handleRoomJoin_def Join_def found_room_def sections_done
        split: option.splits if_splits prod.splits intro: sections_joining, auto simp: view_reply_def sections_done)
next
  case (Post_room_start b)
  show ?thesis
  proof (cases "\<exists>code pid a. b = Some (code, pid) \<and> room_addr V code (sv_rooms s) = Some a")
    case True
    then obtain code pid a where b: "b = Some (code, pid)" "room_addr V code (sv_rooms s) = Some a" by blast
    obtain v m where v: "Start_at V (t_first t) (t_seed t) a pid (sv_rooms s) = (v, m)" by fastforce
    have st: "task_step V P (Starting t a pid) s = Some (start_next t a v, s\<lparr>sv_rooms := m\<rparr>)"
      by (simp add: in_rooms_def v)
    have y: "y = (view_reply v, s\<lparr>sv_rooms := (case v of Ok w \<Rightarrow> arm (t_first t) a m | _ \<Rightarrow> m)\<rparr>)"
      using assms(1) Post_room_start b v by (auto simp: Routes_def handleRoomStart_def Start_def split: res.splits)
    have "sections V P (start_next t a v, s\<lparr>sv_rooms := m\<rparr>) y"
      unfolding y by (cases v)
        (auto simp: start_next_def reply_next_def sections_done in_rooms_def intro!: sections_answer)
    then show ?thesis using Post_room_start b by (auto simp: found_room_def intro: sections_step [OF st])
  next
    case False
    then show ?thesis using assms(1) Post_room_start
      by (cases b) (auto simp: Routes_def handleRoomStart_def Start_def found_room_def view_reply_def sections_done
          split: option.splits)
  qed
next
  case (Post_room_submit b)
  show ?thesis
  proof (cases "\<exists>code pid wd a. b = Some (code, pid, wd) \<and> room_addr V code (sv_rooms s) = Some a")
    case True
    then obtain code pid wd a where b: "b = Some (code, pid, wd)" "room_addr V code (sv_rooms s) = Some a" by blast
    obtain x m where x: "Submit_at V (t_first t) a pid wd (sv_rooms s) = (x, m)" by fastforce
    have "y = (case x of Ok rep \<Rightarrow> Some (submit_json rep) | _ \<Rightarrow> None, s\<lparr>sv_rooms := m\<rparr>)"
      using assms(1) Post_room_submit b x by (auto simp: Routes_def handleRoomSubmit_def Submit_def split: res.splits)
    then show ?thesis using sections_submitting [OF x] Post_room_submit b by (simp add: found_room_def)
  next
    case False
    then show ?thesis using assms(1) Post_room_submit
      by (cases b) (auto simp: Routes_def handleRoomSubmit_def Submit_def found_room_def submit_json_def sections_done
          split: option.splits)
  qed
next
  case Get_room_list
  then show ?thesis using assms(1) by (auto simp: Routes_def sections_list)
next
  case (Get_room code you)
  then show ?thesis using assms(1)
    by (auto simp: Routes_def handleRoomGet_def Get_def found_room_def sections_done split: option.splits prod.splits
        intro: sections_view)
qed (use assms(2,3) in simp_all)

lemma sections_begin:
  assumes "Routes V P t rq s = Some y"
  shows "\<exists>x. begin_section V P t rq s = Some x \<and> sections V P x y"
proof -
  have at_once: "sections V P (case y of (resp, x) \<Rightarrow> (Answered resp, x)) y" by (cases y) (simp add: sections_done)
  show ?thesis
  proof (cases rq)
    case Get_daily
    then show ?thesis using assms by (auto simp: Routes_def begin_section_def sections_daily)
  next
    case (Get_leaderboard d)
    then show ?thesis
      using assms sections_leaderboard [OF refl, of V P d "t_first t" s] by (auto simp: Routes_def begin_section_def Let_def)
  next
    case (Post_daily_submit b)
    show ?thesis
    proof (cases b)
      case (Some r)
      then show ?thesis
        using assms Post_daily_submit sections_submit [of V "fst r" _ t P "snd r" s]
        by (cases r) (auto simp: Routes_def begin_section_def handleDailySubmit_def sections_done)
    qed (use assms in \<open>auto simp: Post_daily_submit Routes_def begin_section_def sections_done handleDailySubmit_def\<close>)
  next
    case (Post_daily_open k b)
    then show ?thesis using assms by (auto simp: Routes_def begin_section_def sections_open)
  next
    case (Post_pool_create k b)
    then show ?thesis using assms by (auto simp: Routes_def begin_section_def sections_pool)
  next
    case (Post_room_create b)
    then show ?thesis using assms by (simp add: Routes_def begin_section_def sections_create)
  qed (use assms at_once sections_room [OF assms] in \<open>auto simp: begin_section_def\<close>)
qed

lemma finishes_Routes: "Routes V P t rq s = Some (resp, s') \<Longrightarrow> finishes V P (Begin t rq, s) (Answered resp, s')"
  using sections_begin [of V P t rq s] by (auto simp: sections_def intro: finishes_step)

text \<open>A request always has a first section.\<close>

lemma begin_Some: "begin_section V P t rq s \<noteq> None"
  by (cases rq) (simp_all add: begin_section_def Routes_def Let_def split: option.split prod.split)

end
