(* ===== verification/Sections.thy ===== *)
theory Sections
  imports Tasks Settlement
begin

text \<open>
  What one section of a request relies on and does. What a task may rely on (\<open>task_ok\<close>) is kept by the
  sections of others; a section only moves the server forward, its changes of rounds are acts of its request, it
  panics only when a join asks for a round that is not opened yet, and it leaves fewer sections to go.
\<close>

section \<open>What a task relies on\<close>

text \<open>Where a task comes from, and the round it refers to.\<close>

fun stems :: "reading \<Rightarrow> request \<Rightarrow> task \<Rightarrow> bool" where
  "stems t req (Begin t' req') \<longleftrightarrow> t' = t \<and> req' = req"
| "stems t req (Gate t' k addr ws) \<longleftrightarrow>
    t' = t \<and> req = Post_daily_submit (Some (addr, ws)) \<and> k = date_key (t_first t)"
| "stems t req (Count t' k addr ws) \<longleftrightarrow>
    t' = t \<and> req = Post_daily_submit (Some (addr, ws)) \<and> k = date_key (t_first t)"
| "stems t req (Opening now et fee rid is ks) \<longleftrightarrow> length is \<le> 90 \<and>
    (\<exists>tok b days. req = Post_pool_create tok (Some (b, days)) \<and> now = t_first t \<and>
      et = add_days (t_first t) (nat days) \<and> set is \<subseteq> {..<nat days})"
| "stems t req Searching \<longleftrightarrow> (\<exists>b. req = Post_room_create b)"
| "stems t req (Hosting t' pid name a) \<longleftrightarrow>
    (\<exists>public stake amount. req = Post_room_create (Some (pid, name, public, stake)) \<and>
      stake_of stake = Some amount \<and> \<not> is_staked amount)"
| "stems t req (Joining t' a pid name) \<longleftrightarrow> (\<exists>code. req = Post_room_join (Some (code, pid, name)))"
| "stems t req _ \<longleftrightarrow> True"

fun held :: "task \<Rightarrow> string option" where
  "held (Gate t k addr ws) = Some k" | "held (Count t k addr ws) = Some k" | "held (Rank k addr res) = Some k"
| "held (Show_round k) = Some k" | "held (Show_board k) = Some k" | "held (Show_opened k) = Some k"
| "held _ = None"

text \<open>The rooms a task refers to, and the free room whose host it has still to add.\<close>

fun room_refs :: "task \<Rightarrow> nat set" where
  "room_refs (Funding t pid a code amount) = {a}" | "room_refs (Funded t pid a rid endsAt) = {a}"
| "room_refs (Hosting t pid name a) = {a}" | "room_refs (Viewing now you a) = {a}"
| "room_refs (Joining t a pid name) = {a}" | "room_refs (Starting t a pid) = {a}"
| "room_refs (Arming t a view) = {a}" | "room_refs (Submitting t a pid wd) = {a}"
| "room_refs (Listing now as vs) = set as"
| "room_refs _ = {}"

fun hosts :: "task \<Rightarrow> nat list" where
  "hosts (Hosting t pid name a) = [a]" | "hosts _ = []"

definition refs_ok :: "('c, 'p) Server \<Rightarrow> task \<Rightarrow> bool" where
  "refs_ok s task \<longleftrightarrow> (\<forall>a \<in> room_refs task. a < length (m_heap (sv_rooms s))) \<and>
    (case task of
       Hosting t pid name a \<Rightarrow> r_host (m_heap (sv_rooms s) ! a) = pid \<and> r_stake (m_heap (sv_rooms s) ! a) = None
     | Funding t pid a code amount \<Rightarrow> stakingEnabled (sv_rooms s)
     | Listing now as vs \<Rightarrow> length as \<le> length (m_heap (sv_rooms s))
     | _ \<Rightarrow> True)"

definition task_ok :: "('c, 'p) Server \<Rightarrow> reading \<Rightarrow> request \<Rightarrow> task \<Rightarrow> bool" where
  "task_ok s t req task \<longleftrightarrow> stems t req task \<and> refs_ok s task \<and>
    (\<forall>k. held task = Some k \<longrightarrow> (\<exists>d. map_of (dailies (sv_store s)) k = Some d))"

lemma stakingEnabled_chain: "chain_of m' = chain_of m \<Longrightarrow> stakingEnabled m' = stakingEnabled m"
  by (simp add: stakingEnabled_def chain_of_def)

lemma refs_ok_le:
  assumes "refs_ok s task" "server_le V s s'" "mgr_ok (e_uc V) (sv_rooms s)" "case_table (e_uc V)"
  shows "refs_ok s' task"
proof -
  have r: "room_reach V (sv_rooms s) (sv_rooms s')" using assms(2) by (simp add: server_le_def)
  have le: "mgr_le (sv_rooms s) (sv_rooms s')" using good_reach [OF r assms(3,4) refl] by (simp add: good_def)
  have "r_host (m_heap (sv_rooms s') ! a) = r_host (m_heap (sv_rooms s) ! a) \<and>
      r_stake (m_heap (sv_rooms s') ! a) = r_stake (m_heap (sv_rooms s) ! a)" if "a < length (m_heap (sv_rooms s))" for a
    using le that by (simp add: mgr_le_def room_le_def)
  moreover have "length (m_heap (sv_rooms s)) \<le> length (m_heap (sv_rooms s'))" using le by (simp add: mgr_le_def)
  ultimately show ?thesis
    using assms(1) stakingEnabled_chain [OF chain_of_reach [OF r]]
    by (cases task) (auto simp: refs_ok_def intro: less_le_trans)
qed

lemma task_ok_le:
  assumes "task_ok s t req task" "server_le V s s'" "mgr_ok (e_uc V) (sv_rooms s)" "case_table (e_uc V)"
  shows "task_ok s' t req task"
  using assms refs_ok_le [OF _ assms(2-4)] unfolding task_ok_def server_le_def store_le_def by blast

lemma refs_ok_none [simp]: "room_refs task = {} \<Longrightarrow> refs_ok s task"
  by (cases task) (simp_all add: refs_ok_def)

lemma task_ok_Answered [simp]: "task_ok s t req (Answered r)"
  by (simp add: task_ok_def)

text \<open>What the first section of a request may be.\<close>

lemma create_section_cases:
  obtains (refused) r where "create_section V t b s = (Answered (Some r), s)"
  | (searching) pid name public stake amount where "b = Some (pid, name, public, stake)"
      "create_publish V pid public amount (sv_rooms s) = None" "create_section V t b s = (Searching, s)"
  | (free) pid name public stake amount a code m where "b = Some (pid, name, public, stake)"
      "stake_of stake = Some amount" "\<not> is_staked amount" "create_publish V pid public amount (sv_rooms s) = Some (a, code, m)"
      "create_section V t b s = (Hosting t pid name a, s\<lparr>sv_rooms := m\<rparr>)"
  | (staked) pid name public stake amount a code m amt where "b = Some (pid, name, public, stake)"
      "is_staked amount" "stakingEnabled (sv_rooms s)" "create_publish V pid public amount (sv_rooms s) = Some (a, code, m)"
      "create_section V t b s = (Funding t pid a code amt, s\<lparr>sv_rooms := m\<rparr>)"
proof (cases "\<exists>r. create_section V t b s = (Answered (Some r), s)")
  case False
  then obtain pid name public stake amount where b: "b = Some (pid, name, public, stake)" "pid \<noteq> []"
    "stake_of stake = Some amount" "is_staked amount \<Longrightarrow> IsHexAddress (e_eth V) pid \<and> stakingEnabled (sv_rooms s)"
    by (auto simp: create_section_def simp del: split_paired_Ex split_paired_All split: option.splits if_splits)
  show thesis
  proof (cases "create_publish V pid public amount (sv_rooms s)")
    case None
    then show thesis using b by (intro searching [of pid name public stake amount]) (auto simp: create_section_def)
  next
    case (Some x)
    obtain a code m where x: "x = (a, code, m)" by (cases x) auto
    show thesis
    proof (cases "is_staked amount")
      case True
      then obtain amt where amt: "amount = Some amt" by (auto simp: is_staked_def split: option.splits)
      from True show thesis using b Some x amt
        by (intro staked [of pid name public stake amount a code m amt]) (auto simp: create_section_def)
    next
      case False
      then show thesis using b Some x
        by (intro free [of pid name public stake amount a code m]) (auto simp: create_section_def)
    qed
  qed
qed (use refused in blast)

text \<open>The number of rooms that can be found is at most the number of rooms ever made.\<close>

lemma rooms_at_most:
  assumes "mgr_ok uc m"
  shows "length (m_rooms m) \<le> length (m_heap m)"
proof -
  have wf: "distinct (map fst (m_rooms m))" using assms by (simp add: mgr_ok_def map_wf_def)
  have "fst ` set (m_rooms m) \<subseteq> (\<lambda>a. r_code (m_heap m ! a)) ` {..<length (m_heap m)}"
  proof
    fix code assume "code \<in> fst ` set (m_rooms m)"
    then obtain a where "map_of (m_rooms m) code = Some a"
      by (metis map_of_eq_None_iff option.exhaust)
    then show "code \<in> (\<lambda>a. r_code (m_heap m ! a)) ` {..<length (m_heap m)}" using assms by (auto simp: mgr_ok_def)
  qed
  then have "card (fst ` set (m_rooms m)) \<le> card {..<length (m_heap m)}"
    by (meson card_image_le card_mono finite_imageI finite_lessThan le_trans)
  then show ?thesis using distinct_card [OF wf] by simp
qed

text \<open>The sections a task has still to take, at most.\<close>

fun sections_left :: "('c, 'p) Server \<Rightarrow> task \<Rightarrow> nat" where
  "sections_left s (Begin t req) = (if req = Get_room_list then 2 + length (m_heap (sv_rooms s)) else 92)"
| "sections_left s (Gate t k addr ws) = 3"
| "sections_left s (Count t k addr ws) = 2"
| "sections_left s (Opening now et fee rid is ks) = Suc (length is)"
| "sections_left s (Funding t pid a code amount) = 3"
| "sections_left s (Funded t pid a rid endsAt) = 2"
| "sections_left s (Hosting t pid name a) = 2"
| "sections_left s (Starting t a pid) = 2"
| "sections_left s (Listing now as vs) = Suc (length as)"
| "sections_left s (Answered r) = 0"
| "sections_left s _ = 1"

lemma found_room_cases:
  assumes "mgr_ok (e_uc V) (sv_rooms s)"
  obtains (none) "found_room V code r f s = Answered (Some r)"
  | (some) a where "a < length (m_heap (sv_rooms s))" "found_room V code r f s = f a"
  using room_addr_ok [OF assms] by (cases "room_addr V code (sv_rooms s)") (auto simp: found_room_def)

lemma listed_rooms:
  assumes "mgr_ok (e_uc V) (sv_rooms s)"
  shows "refs_ok s (Listing now (map snd (map_entries (m_rooms (sv_rooms s)))) [])"
proof -
  have "a < length (m_heap (sv_rooms s))" if "(code, a) \<in> set (m_rooms (sv_rooms s))" for code a
    using assms that by (auto simp: mgr_ok_def set_entries_iff)
  then show ?thesis using rooms_at_most [OF assms] by (auto simp: refs_ok_def map_entries_def)
qed

text \<open>A first section that only looks at the rooms.\<close>

definition looks_on :: "('c, 'p) Server \<Rightarrow> reading \<Rightarrow> request \<Rightarrow> task \<Rightarrow> bool" where
  "looks_on s t rq task \<longleftrightarrow> task_ok s t rq task \<and> sections_left s task < sections_left s (Begin t rq) \<and>
    hosts task = [] \<and> task \<notin> {Searching, Answered None} \<and> (\<forall>t k addr ws. task \<noteq> Count t k addr ws)"

lemma looks_on_refused [simp]: "looks_on s t rq (Answered (Some r))"
  by (simp add: looks_on_def task_ok_def)

lemma room_section_looks:
  assumes "mgr_ok (e_uc V) (sv_rooms s)"
  shows "looks_on s t rq (room_section V t rq s)"
proof (cases "(V, t, rq, s)" rule: room_section.cases)
  case (1 V' t' code pid name s')
  then show ?thesis
    by (cases rule: found_room_cases [OF assms, of code "writeErr 400 not_found" "\<lambda>a. Joining t a pid name", case_names none some])
      (simp_all add: looks_on_def task_ok_def refs_ok_def)
next
  case (2 V' t' code pid s')
  then show ?thesis
    by (cases rule: found_room_cases [OF assms, of code "writeErr 400 not_found" "\<lambda>a. Starting t a pid", case_names none some])
      (simp_all add: looks_on_def task_ok_def refs_ok_def)
next
  case (3 V' t' code pid wd s')
  then show ?thesis
    by (cases rule: found_room_cases [OF assms, of code "writeErr 400 not_found" "\<lambda>a. Submitting t a pid wd", case_names none some])
      (simp_all add: looks_on_def task_ok_def refs_ok_def)
next
  case (4 V' t' s')
  then show ?thesis
    using listed_rooms [OF assms] rooms_at_most [OF assms] by (simp add: looks_on_def task_ok_def map_entries_def)
next
  case (5 V' t' code you s')
  then show ?thesis
    by (cases rule: found_room_cases [OF assms, of code "writeErr 404 ''room not found''" "Viewing (t_first t) you", case_names none some])
      (simp_all add: looks_on_def task_ok_def refs_ok_def)
qed simp_all

lemma begin_cases:
  assumes "begin_section V P t rq s = Some (task', s')"
  obtains (fetched) k rest where "(task', s') = fetch_then V P k rest s" "acts_of t rq (Fetch k)" "stems t rq rest"
      "held rest = Some k" "rest \<in> {Show_round k, Show_board k} \<or> (\<exists>addr ws. rest = Gate t k addr ws)"
  | (opened) tok b where "rq = Post_daily_open tok b" "(task', s') = open_section V P (t_first t) (t_second t) tok b s"
  | (pool) tok b where "rq = Post_pool_create tok b" "(task', s') = pool_section V (t_first t) tok b s"
  | (created) b where "rq = Post_room_create b" "(task', s') = create_section V t b s"
  | (looked) "on_rooms rq" "\<nexists>b. rq = Post_room_create b" "task' = room_section V t rq s" "s' = s"
  | (refused) resp where "task' = Answered resp" "s' = s" "Routes V P t rq s = Some (resp, s)" "\<not> on_rooms rq"
  | (routed) resp where "task' = Answered resp" "Routes V P t rq s = Some (resp, s')"
      "\<nexists>b. rq = Post_daily_submit b" "\<not> on_rooms rq"
proof (cases rq)
  case (Post_daily_submit b)
  show thesis
  proof (cases "\<exists>addr ws. b = Some (addr, ws) \<and> IsHexAddress (e_eth V) addr")
    case True
    then obtain addr ws where "b = Some (addr, ws)" "IsHexAddress (e_eth V) addr" by blast
    then show thesis using assms Post_daily_submit
      by (intro fetched [of "date_key (t_first t)" "Gate t (date_key (t_first t)) addr ws"])
        (simp_all add: begin_section_def)
  next
    case False
    then have "\<exists>r. Routes V P t rq s = Some (r, s) \<and> begin_section V P t rq s = Some (Answered r, s)"
      by (cases b) (auto simp: Post_daily_submit begin_section_def Routes_def handleDailySubmit_def)
    then show thesis using assms refused Post_daily_submit by auto
  qed
next
  case Get_daily
  then show thesis using assms
    by (intro fetched [of "date_key (t_first t)" "Show_round (date_key (t_first t))"]) (simp_all add: begin_section_def)
next
  case (Get_leaderboard d)
  let ?k = "if d = [] then date_key (t_first t) else d"
  show thesis using Get_leaderboard assms
    by (intro fetched [of ?k "Show_board ?k"]) (simp_all add: begin_section_def Let_def)
next
  case (Post_daily_open tok b)
  then show thesis using assms by (intro opened [of tok b]) (simp_all add: begin_section_def)
next
  case (Post_pool_create tok b)
  then show thesis using assms by (intro pool [of tok b]) (simp_all add: begin_section_def)
next
  case (Post_room_create b)
  then show thesis using assms by (intro created [of b]) (simp_all add: begin_section_def)
next
  case (Post_room_join b)
  then show thesis using assms by (intro looked) (auto simp: begin_section_def)
next
  case (Post_room_start b)
  then show thesis using assms by (intro looked) (auto simp: begin_section_def)
next
  case (Post_room_submit b)
  then show thesis using assms by (intro looked) (auto simp: begin_section_def)
next
  case Get_room_list
  then show thesis using assms by (intro looked) (auto simp: begin_section_def)
next
  case (Get_room code you)
  then show thesis using assms by (intro looked) (auto simp: begin_section_def)
qed (use assms routed in \<open>auto simp: begin_section_def\<close>)

lemma fetch_then_snd: "snd (fetch_then V P k rest s) = snd (get_daily V P k s)"
  by (simp add: fetch_then_def split: prod.split option.split)

lemma fetch_then_fst: "fst (fetch_then V P k rest s) \<in> {Answered None, rest}"
  by (simp add: fetch_then_def split: prod.split option.split)

text \<open>An open request: a reply that changes nothing, or the round is opened.\<close>

lemma open_section_cases:
  obtains (refused) r where "open_section V P now today tok b s = (Answered r, s)"
  | (opened) rid e d l k where "b = Some (rid, e, d)" "k = (if d = [] then date_key today else d)"
      "gen_letters V k s = Ok l" "open_section V P now today tok b s =
        (Show_opened k, s\<lparr>sv_store := snd (OpenPaidDaily P k rid (unix_time e) l (sv_store s))\<rparr>)"
proof (cases "adminOK s tok")
  case None
  show thesis
  proof (cases b)
    case (Some x)
    obtain rid e d where x: "x = (rid, e, d)" by (cases x)
    define k where "k = (if d = [] then date_key today else d)"
    show thesis
    proof (cases "\<exists>l. gen_letters V k s = Ok l \<and> big_SetString rid \<noteq> None \<and> unix_secs now < e")
      case True
      then obtain l where "gen_letters V k s = Ok l" "big_SetString rid \<noteq> None" "unix_secs now < e" by blast
      then show thesis using None Some x
        by (intro opened [of rid e d k l]) (simp_all add: open_section_def k_def Let_def)
    next
      case False
      then have "\<exists>r. open_section V P now today tok b s = (Answered r, s)"
        using None Some x by (auto simp: open_section_def k_def [symmetric] Let_def split: res.split)
      then show thesis using refused by blast
    qed
  qed (use None refused in \<open>simp add: open_section_def\<close>)
qed (use refused in \<open>simp add: open_section_def\<close>)

lemma pool_section_cases:
  obtains (refused) r where "pool_section V now tok b s = (Answered r, s)"
  | (chain) f fee days x s' where "b = Some (f, days)" "1 \<le> days" "days \<le> 90"
      "create_pool_round V fee (add_days now (nat days)) s = (x, s')"
      "pool_section V now tok b s = ((case x of Ok (Inl refusal) \<Rightarrow> Answered (Some refusal)
         | Ok (Inr rid) \<Rightarrow> Opening now (add_days now (nat days)) fee rid [0..<nat days] [] | _ \<Rightarrow> Answered None), s')"
proof (cases "\<exists>f days fee. adminOK s tok = None \<and> b = Some (f, days) \<and> big_SetString f = Some fee \<and> 0 < fee \<and>
    1 \<le> days \<and> days \<le> 90")
  case True
  then obtain f days fee where c: "adminOK s tok = None" "b = Some (f, days)" "big_SetString f = Some fee" "0 < fee"
    "1 \<le> days" "days \<le> 90" by blast
  obtain x s' where x: "create_pool_round V fee (add_days now (nat days)) s = (x, s')" by fastforce
  show thesis
    by (rule chain [OF c(2,5,6) x]) (use c x in \<open>auto simp: pool_section_def Let_def split: res.split sum.split\<close>)
next
  case False
  then have "\<exists>r. pool_section V now tok b s = (Answered r, s)"
    by (cases "adminOK s tok"; cases b) (auto simp: pool_section_def Let_def not_less split: option.splits)
  then show thesis using refused by blast
qed

section \<open>Sections on the rooms\<close>

fun at_room :: "task \<Rightarrow> bool" where
  "at_room (Funding t pid a code amount) = True" | "at_room (Funded t pid a rid endsAt) = True"
| "at_room (Unfunded code e) = True" | "at_room (Hosting t pid name a) = True" | "at_room (Viewing now you a) = True"
| "at_room (Joining t a pid name) = True" | "at_room (Starting t a pid) = True" | "at_room (Arming t a view) = True"
| "at_room (Submitting t a pid wd) = True" | "at_room (Listing now as vs) = True"
| "at_room _ = False"

text \<open>The hosts a task has still to add come to tidy rooms.\<close>

definition tidy_hosts :: "('c, 'p) Server \<Rightarrow> task \<Rightarrow> bool" where
  "tidy_hosts s task \<longleftrightarrow> (\<forall>a \<in> set (hosts task). tidy (m_heap (sv_rooms s) ! a))"

lemma at_room_rooms:
  "task_step V P task s = Some (task', s') \<Longrightarrow> at_room task \<Longrightarrow> s' = s\<lparr>sv_rooms := sv_rooms s'\<rparr>"
  by (cases "(V, P, task, s)" rule: task_step.cases) (auto simp: in_rooms_def)

lemma at_room_store: "task_step V P task s = Some (task', s') \<Longrightarrow> at_room task \<Longrightarrow> sv_store s' = sv_store s"
  by (drule arg_cong [where f = sv_store, OF at_room_rooms], assumption) simp

lemma create_open_reach: "room_reach V m (snd (create_open V now amount m))"
  using create_open_world [of V now amount m] by (metis room_reach_step world)

lemma arm_reach: "a < length (m_heap m) \<Longrightarrow> room_reach V m (arm now a m)"
  by (simp add: arm_def start_state room_reach_step armed)

lemma at_room_reach:
  assumes "task_step V P task s = Some (task', s')" "at_room task" "refs_ok s task" "tidy_hosts s task"
  shows "room_reach V (sv_rooms s) (sv_rooms s')"
proof (cases task)
  case (Hosting t pid name a)
  then show ?thesis
    using assms hosted [of a "sv_rooms s" V name]
    by (auto simp: in_rooms_def refs_ok_def tidy_hosts_def intro: room_reach_step)
next
  case (Listing now as vs)
  then show ?thesis using assms(1)
    by (cases as) (auto simp: in_rooms_def case_prod_unfold list_room_same start_state)
qed (use assms in \<open>auto simp: in_rooms_def refs_ok_def case_prod_unfold create_open_reach arm_reach start_state
      intro!: room_reach_step [OF opened] room_reach_step [OF dropped] room_reach_step [OF get]
        room_reach_step [OF join] room_reach_step [OF start] room_reach_step [OF submit]\<close>)

lemma at_room_quiet:
  assumes "task_step V P task s = Some (task', s')" "at_room task" "hosts task = []"
    "\<nexists>t a pid name. task = Joining t a pid name"
  shows "quiet (sv_rooms s) (sv_rooms s')"
proof (cases task)
  case (Listing now as vs)
  then show ?thesis using assms(1)
    by (cases as) (auto simp: in_rooms_def case_prod_unfold)
qed (use assms in \<open>auto simp: in_rooms_def case_prod_unfold\<close>)

lemma at_room_length:
  assumes "task_step V P task s = Some (task', s')" "at_room task"
  shows "length (m_heap (sv_rooms s')) = length (m_heap (sv_rooms s))"
proof (cases "hosts task = [] \<and> \<not> (\<exists>t a pid name. task = Joining t a pid name)")
  case True
  then show ?thesis using quiet_length [OF at_room_quiet [OF assms]] by blast
next
  case False
  then show ?thesis using assms(1)
    by (cases task) (auto simp: in_rooms_def case_prod_unfold Join_at_other(1) create_host_def)
qed

text \<open>What comes next.\<close>

lemma next_cases [simp]:
  "reply_next v = Answered (view_reply v)"
  "start_next t a (Ok view) = Arming t a view" "start_next t a (Err e) = Answered (view_reply (Err e))"
  "start_next t a Panic = Answered None"
  by (simp_all add: reply_next_def start_next_def view_reply_def)

lemma at_room_next:
  assumes "task_step V P task s = Some (task', s')" "at_room task" "task_ok s t req task"
  shows "task_ok s' t req task'" "sections_left s' task' < sections_left s task" "hosts task' = []"
    "task' \<noteq> Searching" "task' \<noteq> Count t' k addr ws"
proof -
  note len = at_room_length [OF assms(1,2)]
  have "task_ok s' t req task' \<and> sections_left s' task' < sections_left s task \<and> hosts task' = [] \<and>
    task' \<noteq> Searching \<and> task' \<noteq> Count t' k addr ws"
  proof (cases task)
    case (Funding t1 pid a code amount)
    then show ?thesis using assms(1,3) len
      by (auto simp: in_rooms_def open_next_def task_ok_def refs_ok_def split: prod.splits res.splits)
  next
    case (Starting t1 a pid)
    obtain v m where "Start_at V (t_first t1) (t_seed t1) a pid (sv_rooms s) = (v, m)" by fastforce
    then show ?thesis using Starting assms(1,3) len
      by (cases v) (auto simp: in_rooms_def task_ok_def refs_ok_def)
  next
    case (Submitting t1 a pid wd)
    then show ?thesis using assms(1)
      by (auto simp: in_rooms_def submit_next_def split: prod.splits res.splits)
  next
    case (Listing now as vs)
    show ?thesis
    proof (cases as)
      case (Cons a as')
      obtain x where "list_room now a (sv_rooms s) = (x, sv_rooms s)"
        using list_room_same [of now a "sv_rooms s"] by (metis prod.collapse)
      then have "task' = list_next now as' vs x" "s' = s"
        using Listing Cons assms(1) by (simp_all add: in_rooms_def)
      moreover have "task_ok s t req (Listing now as' vs')" for vs'
        using assms(3) Listing Cons by (simp add: task_ok_def refs_ok_def)
      ultimately show ?thesis using Listing Cons by (auto simp: list_next_def split: res.split option.split)
    qed (use Listing assms(1) in auto)
  qed (use assms len in \<open>auto simp: in_rooms_def task_ok_def refs_ok_def split: prod.splits\<close>)
  then show "task_ok s' t req task'" "sections_left s' task' < sections_left s task" "hosts task' = []"
    "task' \<noteq> Searching" "task' \<noteq> Count t' k addr ws" by simp_all
qed

text \<open>The only panic: a join of a staked room whose round is not opened yet.\<close>

definition nil_join :: "('c, 'p) Server \<Rightarrow> task \<Rightarrow> bool" where
  "nil_join s task \<longleftrightarrow> (\<exists>t a pid name. task = Joining t a pid name \<and> a < length (m_heap (sv_rooms s)) \<and>
    r_stake (m_heap (sv_rooms s) ! a) \<noteq> None \<and> r_roundID (m_heap (sv_rooms s) ! a) = None)"

lemma at_room_np:
  assumes "task_step V P task s = Some (Answered None, s')" "at_room task" "task_ok s t req task" "externals_ok V"
    "mgr_ok (e_uc V) (sv_rooms s)"
  shows "nil_join s task"
proof -
  have ct: "case_table (e_uc V)" using assms(4) by (simp add: externals_ok_def)
  have n: "no_nil_player (m_heap (sv_rooms s) ! a)" if "a < length (m_heap (sv_rooms s))" for a
    using room_ok_no_nil mgr_ok_heap [OF assms(5) that] by blast
  show ?thesis
  proof (cases task)
    case (Funding t1 pid a code amount)
    then have "stakingEnabled (sv_rooms s)" using assms(3) by (simp add: task_ok_def refs_ok_def)
    from no_panic_create_open [OF assms(4) this] show ?thesis using Funding assms(1)
      by (auto simp: in_rooms_def open_next_def split: prod.splits res.splits)
  next
    case (Viewing now you a)
    then show ?thesis using assms(1,3) no_panic_snapshot [OF n]
      by (auto simp: in_rooms_def task_ok_def refs_ok_def split: prod.splits)
  next
    case (Joining t1 a pid name)
    then show ?thesis using assms(1,3) no_panic_Join_at [OF assms(4,5)]
      by (auto simp: in_rooms_def task_ok_def refs_ok_def nil_join_def split: prod.splits)
  next
    case (Starting t1 a pid)
    obtain v m where v: "Start_at V (t_first t1) (t_seed t1) a pid (sv_rooms s) = (v, m)" by fastforce
    have "a < length (m_heap (sv_rooms s))" using assms(3) Starting by (simp add: task_ok_def refs_ok_def)
    from no_panic_Start_at [OF assms(4,5) this] have "v \<noteq> Panic" using v by metis
    then show ?thesis using Starting assms(1) v by (cases v) (auto simp: in_rooms_def)
  next
    case (Submitting t1 a pid wd)
    then have "a < length (m_heap (sv_rooms s))" using assms(3) by (simp add: task_ok_def refs_ok_def)
    from no_panic_Submit_at [OF ct assms(5) refl this] show ?thesis using Submitting assms(1)
      by (auto simp: in_rooms_def submit_next_def split: prod.splits res.splits) (metis fst_conv res.distinct)+
  next
    case (Listing now as vs)
    show ?thesis
    proof (cases as)
      case (Cons a as')
      then have "a < length (m_heap (sv_rooms s))" using assms(3) Listing by (simp add: task_ok_def refs_ok_def)
      then have "fst (list_room now a (sv_rooms s)) \<noteq> Panic" "\<nexists>e. fst (list_room now a (sv_rooms s)) = Err e"
        using n by (simp_all add: list_room_view)
      then show ?thesis using Listing Cons assms(1)
        by (auto simp: in_rooms_def list_next_def split: prod.splits res.splits option.splits)
    qed (use Listing assms(1) in simp)
  qed (use assms(1,2) in \<open>auto simp: in_rooms_def view_reply_def\<close>)
qed

section \<open>The first section\<close>

lemma store_le_submit: "store_le st (store_submit P k sub st)"
  using store_le_run_op [of st P "Submit_To k sub"] by simp

lemma publish_reach: "create_publish V pid public amount m = Some (a, code, m') \<Longrightarrow> room_reach V m m'"
  by (rule room_reach_step [OF publish])

lemma begin_le:
  assumes "begin_section V P t rq s = Some (task', s')" "mgr_ok (e_uc V) (sv_rooms s)"
  shows "server_le V s s'"
  using assms(1)
proof (cases rule: begin_cases)
  case (fetched k rest)
  have "snd (task', s') = snd (get_daily V P k s)" unfolding fetched(1) by (rule fetch_then_snd)
  then show ?thesis using le_get_daily [of V s P k] by simp
next
  case (opened tok b)
  then show ?thesis
    by (cases rule: open_section_cases [of V P "t_first t" "t_second t" tok b s])
      (auto intro: server_le_store store_le_Open)
next
  case (pool tok b)
  then show ?thesis
    using le_create_pool_round [of V s]
    by (cases rule: pool_section_cases [of V "t_first t" tok b s]) (auto, metis snd_conv)
next
  case (created b)
  then show ?thesis
    by (cases rule: create_section_cases [of V t b s]) (auto intro!: server_le_rooms publish_reach)
next
  case (routed resp)
  then show ?thesis using le_Routes [OF assms(2)] by blast
qed simp_all

text \<open>The rooms of a server after a first section: the same, or one more.\<close>

lemma pool_heap: "m_heap (sv_rooms (snd (create_pool_round V fee et s))) = m_heap (sv_rooms s)"
  by (simp add: create_pool_round_def set_world_def split: option.split prod.split res.split)

lemma sign_heap: "m_heap (sv_rooms (snd (handleSignSettlement V tok b s))) = m_heap (sv_rooms s)"
  by (auto simp: handleSignSettlement_def check_entered_def set_world_def split: option.split prod.split res.split sum.split)

lemma pool_section_heap: "m_heap (sv_rooms (snd (pool_section V now tok b s))) = m_heap (sv_rooms s)"
proof (cases rule: pool_section_cases [of V now tok b s])
  case (chain f fee days x s')
  then show ?thesis using pool_heap [of V fee "add_days now (nat days)" s] by simp
qed simp

lemma fetch_then_rooms: "sv_rooms (snd (fetch_then V P k rest s)) = sv_rooms s"
  by (simp add: fetch_then_snd snd_get_daily)

lemma open_section_rooms: "sv_rooms (snd (open_section V P now today tok b s)) = sv_rooms s"
  by (cases rule: open_section_cases [of V P now today tok b s]) simp_all

lemma begin_heap:
  assumes "begin_section V P t rq s = Some (task', s')" "\<nexists>b. rq = Post_room_create b"
  shows "m_heap (sv_rooms s') = m_heap (sv_rooms s)"
proof (cases rq)
  case Get_daily
  then show ?thesis using assms(1) fetch_then_rooms [of V P _ _ s] by (simp add: begin_section_def) (metis snd_conv)
next
  case (Get_leaderboard d)
  then show ?thesis using assms(1) fetch_then_rooms [of V P _ _ s] by (simp add: begin_section_def Let_def) (metis snd_conv)
next
  case (Post_daily_submit b)
  then show ?thesis using assms(1) fetch_then_rooms [of V P _ _ s]
    by (auto simp: begin_section_def Routes_def handleDailySubmit_def split: option.splits if_splits) (metis snd_conv)+
next
  case (Post_daily_open tok b)
  then show ?thesis using assms(1) open_section_rooms [of V P _ _ tok b s] by (simp add: begin_section_def) (metis snd_conv)
next
  case (Post_pool_create tok b)
  then show ?thesis using assms(1) pool_section_heap [of V _ tok b s] by (simp add: begin_section_def) (metis snd_conv)
next
  case (Post_sign_settlement tok b)
  then show ?thesis using assms(1) sign_heap [of V tok b s] by (simp add: begin_section_def Routes_def case_prod_unfold)
next
  case (Get_pool_list tok)
  then show ?thesis using assms(1)
    by (auto simp: begin_section_def Routes_def handleListPools_def split: option.splits prod.splits)
qed (use assms in \<open>auto simp: begin_section_def Routes_def\<close>)

text \<open>What a first section leads to.\<close>

lemma begin_next:
  assumes "begin_section V P t rq s = Some (task', s')" "mgr_ok (e_uc V) (sv_rooms s)"
  shows "task_ok s' t rq task'" "sections_left s' task' < sections_left s (Begin t rq)"
    "task' \<noteq> Count t' k addr ws"
proof -
  have "task_ok s' t rq task' \<and> sections_left s' task' < sections_left s (Begin t rq) \<and> task' \<noteq> Count t' k addr ws"
    using assms(1)
  proof (cases rule: begin_cases)
    case (fetched k' rest)
    then show ?thesis
      by (cases rule: fetch_then_cases [of V P k' s rest]) (auto simp: task_ok_def)
  next
    case (opened tok b)
    then show ?thesis
      by (cases rule: open_section_cases [of V P "t_first t" "t_second t" tok b s])
        (auto simp: task_ok_def OpenPaidDaily_def Let_def update_conv')
  next
    case (pool tok b)
    then show ?thesis
      by (cases rule: pool_section_cases [of V "t_first t" tok b s])
        (auto simp: task_ok_def split: res.splits sum.splits)
  next
    case (created b)
    then show ?thesis
      by (cases rule: create_section_cases [of V t b s])
        (auto simp: task_ok_def refs_ok_def stakingEnabled_chain [OF chain_of_publish] dest: publish_simps)
  next
    case looked
    then show ?thesis using room_section_looks [OF assms(2), of t rq] by (auto simp: looks_on_def)
  qed auto
  then show "task_ok s' t rq task'" "sections_left s' task' < sections_left s (Begin t rq)"
    "task' \<noteq> Count t' k addr ws" by simp_all
qed

text \<open>When a search for a code begins that does not end, and which hosts are to be added.\<close>

lemma begin_special:
  assumes "begin_section V P t rq s = Some (task', s')" "mgr_ok (e_uc V) (sv_rooms s)"
  shows "task' = Searching \<Longrightarrow> (\<exists>b. rq = Post_room_create b) \<and>
      freshCode (e_eth V) (m_rooms (sv_rooms s)) (m_world (sv_rooms s)) = None"
    "hosts task' \<noteq> [] \<Longrightarrow> hosts task' = [length (m_heap (sv_rooms s))] \<and>
      tidy (m_heap (sv_rooms s') ! length (m_heap (sv_rooms s)))"
    "\<exists>rs. m_heap (sv_rooms s') = m_heap (sv_rooms s) @ rs \<and> (\<forall>r \<in> set rs. r_order r = [])"
proof -
  have "(task' = Searching \<longrightarrow> (\<exists>b. rq = Post_room_create b) \<and>
      freshCode (e_eth V) (m_rooms (sv_rooms s)) (m_world (sv_rooms s)) = None) \<and>
    (hosts task' \<noteq> [] \<longrightarrow> hosts task' = [length (m_heap (sv_rooms s))] \<and>
      tidy (m_heap (sv_rooms s') ! length (m_heap (sv_rooms s)))) \<and>
    (\<exists>rs. m_heap (sv_rooms s') = m_heap (sv_rooms s) @ rs \<and> (\<forall>r \<in> set rs. r_order r = []))"
    (is "?all")
  proof (cases "\<exists>b. rq = Post_room_create b")
    case True
    then obtain b where rq: "rq = Post_room_create b" by blast
    then have b: "(task', s') = create_section V t b s" using assms(1) by (simp add: begin_section_def)
    show ?thesis
    proof (cases rule: create_section_cases [of V t b s])
      case (searching pid name public stake amount)
      then show ?thesis using b rq by (auto simp: create_publish_def Let_def split: option.splits)
    next
      case (free pid name public stake amount a code m)
      then show ?thesis using b publish_simps [OF free(4)] by auto
    next
      case (staked pid name public stake amount a code m amt)
      then show ?thesis using b publish_simps [OF staked(4)] by auto
    qed (use b in auto)
  next
    case False
    have h: "m_heap (sv_rooms s') = m_heap (sv_rooms s)" by (rule begin_heap [OF assms(1) False])
    have "task' \<noteq> Searching \<and> hosts task' = []"
      using assms(1)
    proof (cases rule: begin_cases)
      case (fetched k' rest)
      then show ?thesis by (cases rule: fetch_then_cases [of V P k' s rest]) auto
    next
      case (opened tok b)
      then show ?thesis by (cases rule: open_section_cases [of V P "t_first t" "t_second t" tok b s]) auto
    next
      case (pool tok b)
      then show ?thesis
        by (cases rule: pool_section_cases [of V "t_first t" tok b s]) (auto split: res.splits sum.splits)
    next
      case looked
      then show ?thesis using room_section_looks [OF assms(2), of t rq] by (auto simp: looks_on_def)
    qed (use False in auto)
    then show ?thesis using h by simp
  qed
  then show "task' = Searching \<Longrightarrow> (\<exists>b. rq = Post_room_create b) \<and>
      freshCode (e_eth V) (m_rooms (sv_rooms s)) (m_world (sv_rooms s)) = None"
    "hosts task' \<noteq> [] \<Longrightarrow> hosts task' = [length (m_heap (sv_rooms s))] \<and>
      tidy (m_heap (sv_rooms s') ! length (m_heap (sv_rooms s)))"
    "\<exists>rs. m_heap (sv_rooms s') = m_heap (sv_rooms s) @ rs \<and> (\<forall>r \<in> set rs. r_order r = [])"
    by blast+
qed

section \<open>Any section\<close>

lemma section_le:
  assumes "task_step V P task s = Some (task', s')" "mgr_ok (e_uc V) (sv_rooms s)" "refs_ok s task" "tidy_hosts s task"
  shows "server_le V s s'"
proof (cases "at_room task")
  case True
  then show ?thesis
    using server_le_rooms [OF at_room_reach [OF assms(1) True assms(3,4)]] at_room_rooms [OF assms(1) True] by simp
next
  case False
  show ?thesis
  proof (cases task)
    case (Begin t rq)
    then show ?thesis using begin_le [of V P t rq s task' s'] assms(1,2) by simp
  next
    case (Gate t k addr words)
    then show ?thesis using assms(1)
      by (auto simp: with_round_def split: option.splits prod.splits res.splits) (metis le_paid_gate snd_conv)+
  next
    case (Count t k addr words)
    then show ?thesis using assms(1)
      by (auto simp: with_round_def Let_def store_le_submit intro!: server_le_store split: option.splits)
  next
    case (Opening now et fee rid "is" ks)
    then show ?thesis using assms(1)
      by (cases "is") (auto simp: Let_def intro: server_le_store store_le_Open split: res.splits)
  qed (use assms(1) False in \<open>auto simp: with_round_def split: option.splits\<close>)
qed

text \<open>The sections that come neither first nor to a room.\<close>

lemma paid_gate_heap: "paid_gate V now addr d s = (x, s') \<Longrightarrow> m_heap (sv_rooms s') = m_heap (sv_rooms s)"
  by (auto simp: paid_gate_def set_world_def split: if_splits option.splits prod.splits res.splits)

lemma other_heap:
  assumes "task_step V P task s = Some (task', s')" "\<not> at_room task" "\<nexists>t rq. task = Begin t rq"
  shows "m_heap (sv_rooms s') = m_heap (sv_rooms s)" "hosts task' = []" "task' \<noteq> Searching"
proof -
  have "m_heap (sv_rooms s') = m_heap (sv_rooms s) \<and> hosts task' = [] \<and> task' \<noteq> Searching"
  proof (cases task)
    case (Gate t k addr words)
    then show ?thesis using assms(1)
      by (auto simp: with_round_def split: option.splits prod.splits res.splits dest: paid_gate_heap)
  next
    case (Opening now et fee rid "is" ks)
    then show ?thesis using assms(1) by (cases "is") (auto simp: Let_def split: res.splits)
  qed (use assms in \<open>auto simp: with_round_def Let_def split: option.splits\<close>)
  then show "m_heap (sv_rooms s') = m_heap (sv_rooms s)" "hosts task' = []" "task' \<noteq> Searching" by simp_all
qed

lemma section_task:
  assumes "task_step V P task s = Some (task', s')" "mgr_ok (e_uc V) (sv_rooms s)" "case_table (e_uc V)"
    "task_ok s t req task" "tidy_hosts s task"
  shows "task_ok s' t req task'"
proof (cases "at_room task")
  case True
  then show ?thesis by (rule at_room_next(1) [OF assms(1) _ assms(4)])
next
  case False
  have "refs_ok s task" using assms(4) by (simp add: task_ok_def)
  then have le: "server_le V s s'" by (rule section_le [OF assms(1,2) _ assms(5)])
  have "task_ok s' t req task" by (rule task_ok_le [OF assms(4) le assms(2,3)])
  then show ?thesis
  proof (cases task)
    case (Begin t' rq)
    then show ?thesis using begin_next(1) [of V P t rq s task' s'] assms(1,2,4) by (simp add: task_ok_def)
  next
    case (Gate t' k addr words)
    then show ?thesis using \<open>task_ok s' t req task\<close> assms(1)
      by (auto simp: task_ok_def with_round_def split: option.splits prod.splits res.splits)
  next
    case (Count t' k addr words)
    then show ?thesis using \<open>task_ok s' t req task\<close> assms(1)
      by (auto simp: task_ok_def with_round_def Let_def split: option.splits)
  next
    case (Opening now et fee rid "is" ks)
    then show ?thesis using assms(1,4)
      by (cases "is") (auto simp: task_ok_def Let_def split: res.splits)
  qed (use assms(1) False in \<open>auto simp: with_round_def split: option.splits\<close>)
qed

lemma section_less:
  assumes "task_step V P task s = Some (task', s')" "mgr_ok (e_uc V) (sv_rooms s)" "task_ok s t req task"
  shows "sections_left s' task' < sections_left s task"
proof (cases "at_room task")
  case True
  then show ?thesis by (rule at_room_next(2) [OF assms(1) _ assms(3)])
next
  case False
  then show ?thesis
  proof (cases task)
    case (Begin t' rq)
    then show ?thesis using begin_next(2) [of V P t' rq s task' s'] assms(1,2) by simp
  next
    case (Opening now et fee rid "is" ks)
    then show ?thesis using assms(1) by (cases "is") (auto simp: Let_def split: res.splits)
  qed (use assms(1) False in \<open>auto simp: with_round_def Let_def split: option.splits prod.splits res.splits\<close>)
qed

lemma logs_open: "gen_letters V k s = Ok l \<Longrightarrow> Q (Open_round k rid et) \<Longrightarrow>
    logs V P Q s (s\<lparr>sv_store := snd (OpenPaidDaily P k rid et l (sv_store s))\<rparr>)"
  by (rule logs_act [where a = "Open_round k rid et"]) (simp_all add: journal_def)

text \<open>The acts on the daily rounds a section may come to.\<close>

fun task_acts :: "task \<Rightarrow> daily_act \<Rightarrow> bool" where
  "task_acts (Begin t req) a \<longleftrightarrow> acts_of t req a \<and> (\<nexists>k addr ws tm. a = Play k addr ws tm)"
| "task_acts (Count t k addr ws) a \<longleftrightarrow> a = Play k addr ws (t_third t)"
| "task_acts (Opening now et fee rid is ks) a \<longleftrightarrow>
    (\<exists>i \<in> set is. a = Open_round (date_key (add_days now i)) (big_String rid) et)"
| "task_acts _ a \<longleftrightarrow> False"

lemma stems_acts: "stems t req task \<Longrightarrow> task_acts task a \<Longrightarrow> acts_of t req a"
  by (cases task) auto

lemma section_logs:
  assumes "task_step V P task s = Some (task', s')"
  shows "logs V P (task_acts task) s s'"
proof (cases "at_room task")
  case True
  then show ?thesis by (intro logs_none at_room_store [OF assms])
next
  case False
  show ?thesis
  proof (cases task)
    case (Begin t req)
    then have "begin_section V P t req s = Some (task', s')" using assms by simp
    then have "logs V P (task_acts (Begin t req)) s s'"
    proof (cases rule: begin_cases)
      case (fetched k rest)
      have "snd (task', s') = snd (get_daily V P k s)" unfolding fetched(1) by (rule fetch_then_snd)
      then show ?thesis
        using logs_get_daily [of "task_acts (Begin t req)" k V P s] fetched(2) by simp
    next
      case (opened tok b)
      then show ?thesis
        by (cases rule: open_section_cases [of V P "t_first t" "t_second t" tok b s])
          (auto simp: logs_none intro!: logs_open)
    next
      case (pool tok b)
      then show ?thesis
        by (cases rule: pool_section_cases [of V "t_first t" tok b s])
          (auto intro: logs_none dest: create_pool_round_parts)
    next
      case (created b)
      then show ?thesis by (cases rule: create_section_cases [of V t b s]) (auto intro: logs_none)
    next
      case (routed resp)
      have "acts_of t req a \<Longrightarrow> task_acts (Begin t req) a" for a
        using routed(3) by (cases "(t, req, a)" rule: acts_of.cases) auto
      then show ?thesis using logs_mono [OF logs_Routes [OF routed(2)]] by blast
    qed (simp_all add: logs_none)
    then show ?thesis by (simp only: Begin)
  next
    case (Gate t k addr words)
    then show ?thesis using assms
      by (intro logs_none) (auto simp: with_round_def split: option.splits prod.splits res.splits dest: paid_gate_state)
  next
    case (Count t k addr words)
    show ?thesis
    proof (cases "map_of (dailies (sv_store s)) k")
      case (Some d)
      then show ?thesis using assms Count
        by (intro logs_act [where Q = "task_acts task" and a = "Play k addr words (t_third t)"])
          (auto simp: with_round_def journal_def play_def Let_def)
    qed (use assms Count in \<open>simp add: with_round_def logs_none\<close>)
  next
    case (Opening now et fee rid "is" ks)
    then show ?thesis using assms
      by (cases "is") (auto simp: Let_def logs_none intro!: logs_open split: res.splits)
  qed (use assms False in \<open>auto simp: with_round_def logs_none split: option.splits\<close>)
qed

text \<open>When a section panics, and when a task starts a search that does not end.\<close>

lemma section_np:
  assumes "task_step V P task s = Some (Answered None, s')" "task_ok s t req task" "externals_ok V" "server_ok V s"
  shows "nil_join s task"
proof (cases "at_room task")
  case True
  have "mgr_ok (e_uc V) (sv_rooms s)" using assms(4) by (simp add: server_ok_def)
  then show ?thesis by (rule at_room_np [OF assms(1) True assms(2,3)])
next
  case False
  have False
  proof (cases task)
    case (Begin t' rq)
    then have b: "begin_section V P t req s = Some (Answered None, s')" using assms by (simp add: task_ok_def)
    have mgr: "mgr_ok (e_uc V) (sv_rooms s)" using assms(4) by (simp add: server_ok_def)
    from b show ?thesis
    proof (cases rule: begin_cases)
      case (fetched k rest)
      then show ?thesis
        by (cases rule: server_ok_daily [OF assms(3,4), of P k]) (auto simp: fetch_then_def)
    next
      case (opened tok b)
      then have "Answered None = fst (open_section V P (t_first t) (t_second t) tok b s)" by (metis fst_conv)
      moreover obtain l where "gen_letters V k s = Ok (l k)" for k using server_ok_letters [OF assms(3,4)] by metis
      ultimately show ?thesis by (auto simp: open_section_def Let_def split: option.splits if_splits)
    next
      case (pool tok b)
      then have "Answered None = fst (pool_section V (t_first t) tok b s)" by (metis fst_conv)
      then show ?thesis
        by (auto simp: pool_section_def Let_def split: option.splits prod.splits res.splits sum.splits if_splits
            dest: np_create_pool_round [OF assms(3)])
    next
      case (created b)
      then show ?thesis by (cases rule: create_section_cases [of V t b s]) auto
    next
      case looked
      then show ?thesis using room_section_looks [OF mgr, of t req] by (auto simp: looks_on_def)
    next
      case (refused resp)
      then show ?thesis using np_Routes [OF assms(3,4) refused(3,4)] by simp
    next
      case (routed resp)
      then show ?thesis using np_Routes [OF assms(3,4) routed(2,4)] by simp
    qed
  next
    case (Gate t' k addr words)
    then show ?thesis using assms(1,2)
      by (auto simp: task_ok_def with_round_def split: option.splits prod.splits res.splits dest: np_paid_gate [OF assms(3)])
  next
    case (Opening now et fee rid "is" ks)
    obtain l where "gen_letters V k s = Ok (l k)" for k using server_ok_letters [OF assms(3,4)] by metis
    then show ?thesis using assms(1) Opening by (cases "is") (auto simp: Let_def)
  qed (use assms(1,2) False in \<open>auto simp: task_ok_def with_round_def Let_def\<close>)
  then show ?thesis ..
qed

lemma section_searching:
  assumes "task_step V P task s = Some (Searching, s')" "mgr_ok (e_uc V) (sv_rooms s)" "task_ok s t req task"
  shows "(\<exists>t b. task = Begin t (Post_room_create b)) \<and>
    freshCode (e_eth V) (m_rooms (sv_rooms s)) (m_world (sv_rooms s)) = None"
proof (cases "\<exists>t rq. task = Begin t rq")
  case True
  then show ?thesis using begin_special(1) [OF _ assms(2) refl] assms(1) by fastforce
next
  case False
  then show ?thesis using other_heap(3) [OF assms(1)] at_room_next(4) [OF assms(1) _ assms(3)] by blast
qed

text \<open>What stops a task.\<close>

lemma task_step_None: "task_step V P task s = None \<longleftrightarrow> (\<exists>r. task = Answered r) \<or> task = Searching"
  using begin_Some by (cases "(V, P, task, s)" rule: task_step.cases) auto

section \<open>Who is in a room\<close>

text \<open>A room is kept tidy by all sections but the one that adds its host.\<close>

lemma at_room_other:
  assumes "task_step V P task s = Some (task', s')" "at_room task" "b < length (m_heap (sv_rooms s))"
  obtains (quiet) "quiet (sv_rooms s) (sv_rooms s')"
  | (other) a where "room_refs task = {a}" "b \<noteq> a" "m_heap (sv_rooms s') ! b = m_heap (sv_rooms s) ! b"
  | (join) t pid name where "task = Joining t b pid name"
      "sv_rooms s' = snd (Join_at V (t_first t) b pid name (sv_rooms s))"
  | (host) t pid name where "task = Hosting t pid name b" "sv_rooms s' = create_host pid name b (sv_rooms s)"
proof (cases task)
  case (Joining t a pid name)
  then have s': "sv_rooms s' = snd (Join_at V (t_first t) a pid name (sv_rooms s))"
    using assms(1) by (auto simp: in_rooms_def case_prod_unfold)
  show thesis
  proof (cases "b = a")
    case False
    then show thesis using Joining s' Join_at_other(2) [OF False] by (intro other [of a]) simp_all
  qed (use Joining s' join in blast)
next
  case (Hosting t pid name a)
  then have s': "sv_rooms s' = create_host pid name a (sv_rooms s)" using assms(1) by (auto simp: in_rooms_def)
  show thesis
  proof (cases "b = a")
    case False
    then show thesis using Hosting s' by (intro other [of a]) (simp_all add: create_host_def set_room_def)
  qed (use Hosting s' host in blast)
qed (use assms(2) quiet [OF at_room_quiet [OF assms(1,2)]] in auto)

lemma section_tidy:
  assumes "task_step V P task s = Some (task', s')" "mgr_ok (e_uc V) (sv_rooms s)"
    "b < length (m_heap (sv_rooms s))" "tidy (m_heap (sv_rooms s) ! b)" "b \<notin> set (hosts task)"
  shows "tidy (m_heap (sv_rooms s') ! b)"
proof (cases "at_room task")
  case True
  show ?thesis
  proof (cases rule: at_room_other [OF assms(1) True assms(3), case_names quiet other join host])
    case quiet
    then show ?thesis using quietD(6) [OF quiet assms(3)] assms(4) by simp
  next
    case (join t pid name)
    show ?thesis
      by (cases rule: Join_at_room [OF assms(2,3) refl refl, of V "t_first t" pid name, case_names same added])
        (use assms(4) join in \<open>auto simp: quiet_room_def tidy_def\<close>)
  qed (use assms(4,5) in auto)
next
  case False
  show ?thesis
  proof (cases "\<exists>t rq. task = Begin t rq")
    case True
    then obtain rs where "m_heap (sv_rooms s') = m_heap (sv_rooms s) @ rs"
      using begin_special(3) [OF _ assms(2)] assms(1) by fastforce
    then show ?thesis using assms(3,4) by (simp add: nth_append)
  next
    case no: False
    then show ?thesis using other_heap(1) [OF assms(1) False no] assms(4) by simp
  qed
qed

text \<open>When somebody may get into a staked room.\<close>

definition may_enter :: "('c, 'r) env \<Rightarrow> 'c Manager \<Rightarrow> nat \<Rightarrow> string \<Rightarrow> bool" where
  "may_enter V m a i \<longleftrightarrow> a < length (m_heap m) \<and> r_state (m_heap m ! a) = Lobby \<and>
    length (r_players (m_heap m ! a)) < MaxPlayers \<and> IsHexAddress (e_eth V) i \<and>
    (\<exists>reader. m_reader m = Some reader \<and>
      fst (HasEntered (e_eth V) reader (r_roundID (m_heap m ! a)) (HexToAddress (e_eth V) i) (m_world m)) = Ok True)"

lemma verified_may_enter:
  assumes "verify_stake V i (m_heap m ! a) m = (Ok (), m1)" "r_stake (m_heap m ! a) \<noteq> None" "a < length (m_heap m)"
    "r_state (m_heap m ! a) = Lobby" "length (r_players (m_heap m ! a)) < MaxPlayers"
  shows "may_enter V m a i"
  using assms unfolding may_enter_def verify_stake_def
  by (auto split: if_splits option.splits prod.splits res.splits dest: arg_cong [where f = fst])

lemma section_entry:
  assumes "task_step V P task s = Some (task', s')" "mgr_ok (e_uc V) (sv_rooms s)" "refs_ok s task"
    "a < length (m_heap (sv_rooms s'))" "r_stake (m_heap (sv_rooms s') ! a) \<noteq> None"
    "i \<in> set (r_order (m_heap (sv_rooms s') ! a))"
    "a < length (m_heap (sv_rooms s)) \<Longrightarrow> i \<notin> set (r_order (m_heap (sv_rooms s) ! a))"
  shows "\<exists>t name. task = Joining t a i name \<and> may_enter V (sv_rooms s) a i"
proof (cases "at_room task")
  case True
  have a: "a < length (m_heap (sv_rooms s))" using at_room_length [OF assms(1) True] assms(4) by simp
  show ?thesis
  proof (cases rule: at_room_other [OF assms(1) True a, case_names quiet other join host])
    case quiet
    then show ?thesis using quietD(2) [OF quiet a] assms(6,7) a by simp
  next
    case (join t pid name)
    show ?thesis
    proof (cases rule: Join_at_room [OF assms(2) a refl refl, of V "t_first t" pid name, case_names same added])
      case same
      then show ?thesis using join assms(6,7) a by (simp add: quiet_room_def)
    next
      case added
      obtain m1 where "verify_stake V pid (m_heap (sv_rooms s) ! a) (sv_rooms s) = (Ok (), m1)" using added(8) by blast
      moreover have "pid = i" using added(1) assms(6,7) a join by auto
      moreover have "r_stake (m_heap (sv_rooms s) ! a) \<noteq> None" using added(3) assms(5) join by simp
      ultimately have "may_enter V (sv_rooms s) a i" using verified_may_enter a added(5,7) by blast
      then show ?thesis using join \<open>pid = i\<close> by blast
    qed
  next
    case (host t pid name)
    then show ?thesis using assms(3,5) a
      by (simp add: refs_ok_def create_host_def addPlayer_simps)
  qed (use assms(6,7) a in auto)
next
  case False
  have False
  proof (cases "\<exists>t rq. task = Begin t rq")
    case True
    then obtain rs where rs: "m_heap (sv_rooms s') = m_heap (sv_rooms s) @ rs" "\<forall>r \<in> set rs. r_order r = []"
      using begin_special(3) [OF _ assms(2)] assms(1) by fastforce
    then show ?thesis using assms(4,6,7) by (auto simp: nth_append split: if_splits)
  next
    case no: False
    then show ?thesis using other_heap(1) [OF assms(1) False no] assms(4,6,7) by simp
  qed
  then show ?thesis ..
qed

end
