(* ===== verification/Concurrent.thy ===== *)
theory Concurrent
  imports Sections
begin

text \<open>
  A serving process with any number of requests in flight: \<open>serve_step\<close> takes one section of one of them
  or of a timer, \<open>serves\<close> is a run with the requests that came. A section that needs the lock of the manager waits
  while a \<open>Create\<close> searches for a code under it. The properties hold for every interleaving.
\<close>

section \<open>Requests in flight\<close>

text \<open>The handler the mux calls, if any.\<close>

definition handled :: "http_request \<Rightarrow> request option" where
  "handled rq =
    (if rq_method rq = ''OPTIONS'' \<or> rq_method rq \<noteq> ''CONNECT'' \<and> \<not> is_clean (rq_path rq) then None
     else find_handler rq)"

record ('c, 'p) serving =
  sg_server :: "('c, 'p) Server"
  sg_flight :: "((reading \<times> http_request) \<times> task) list"

text \<open>
  A settlement timer goes off, not before its time; a settlement whose payment went on without locks is recorded; the
  world outside, the payments of settlements included, goes on.
\<close>

inductive timer_step :: "'c Manager \<Rightarrow> 'c Manager \<Rightarrow> bool" for m where
  goes_off: "(t, a) \<in> set (m_timers m) \<Longrightarrow> t \<le> now \<Longrightarrow> timer_step m (snd (settle_begin now a m))"
| recorded: "a < length (m_heap m) \<Longrightarrow> r_settleStatus (m_heap m ! a) = Pending \<Longrightarrow>
    st = Settled_ok \<or> st = Settle_failed \<Longrightarrow> timer_step m (settle_end a st err m)"
| outside: "timer_step m (m\<lparr>m_world := w\<rparr>)"

text \<open>Nobody holds the lock of the manager for good.\<close>

definition manager_free :: "('c, 'p) serving \<Rightarrow> bool" where
  "manager_free c \<longleftrightarrow> Searching \<notin> snd ` set (sg_flight c)"

text \<open>
  A request comes in, with the clock it will read, or is answered by the mux; a task goes on by a section, when the
  lock of the manager is free if it needs it; a timer goes on; a reply leaves.
\<close>

inductive serve_step :: "('c, 'r) env \<Rightarrow> 'p Persister option \<Rightarrow> ('c, 'p) serving \<Rightarrow> (reading \<times> http_request) option \<Rightarrow>
    ('c, 'p) serving \<Rightarrow> bool" for V P c where
  arrives: "handled rq = Some req \<Longrightarrow>
    serve_step V P c (Some (t, rq)) (c\<lparr>sg_flight := sg_flight c @ [((t, rq), Begin t req)]\<rparr>)"
| refused: "handled rq = None \<Longrightarrow> serve_step V P c (Some (t, rq)) c"
| goes_on: "i < length (sg_flight c) \<Longrightarrow> sg_flight c ! i = (r, task) \<Longrightarrow>
    task_step V P task (sg_server c) = Some (task', s) \<Longrightarrow>
    (takes_manager V (sg_server c) task \<Longrightarrow> manager_free c) \<Longrightarrow>
    serve_step V P c None (c\<lparr>sg_server := s, sg_flight := (sg_flight c)[i := (r, task')]\<rparr>)"
| timer: "timer_step (sv_rooms (sg_server c)) m \<Longrightarrow>
    serve_step V P c None (c\<lparr>sg_server := (sg_server c)\<lparr>sv_rooms := m\<rparr>\<rparr>)"
| leaves: "sg_flight c = fl @ (r, Answered resp) # fl' \<Longrightarrow> serve_step V P c None (c\<lparr>sg_flight := fl @ fl'\<rparr>)"

inductive serves :: "('c, 'r) env \<Rightarrow> 'p Persister option \<Rightarrow> ('c, 'p) serving \<Rightarrow> (reading \<times> http_request) list \<Rightarrow>
    ('c, 'p) serving \<Rightarrow> bool" for V P c where
  idle: "serves V P c [] c"
| next_step: "serves V P c log c1 \<Longrightarrow> serve_step V P c1 l c2 \<Longrightarrow>
    serves V P c (log @ (case l of None \<Rightarrow> [] | Some r \<Rightarrow> [r])) c2"

definition serving_from :: "('c, 'p) Server \<Rightarrow> ('c, 'p) serving" where
  "serving_from s = \<lparr>sg_server = s, sg_flight = []\<rparr>"

lemma serving_from_simps [simp]: "sg_server (serving_from s) = s" "sg_flight (serving_from s) = []"
  by (simp_all add: serving_from_def)

section \<open>One request after the other\<close>

lemma serves_silent: "serves V P c log c1 \<Longrightarrow> serve_step V P c1 None c2 \<Longrightarrow> serves V P c log c2"
  using next_step [of V P c log c1 None c2] by simp

text \<open>A task at the end of the line runs alone.\<close>

lemma serves_alone:
  assumes "finishes V P x y" "serves V P c log \<lparr>sg_server = snd x, sg_flight = fl @ [(r, fst x)]\<rparr>"
    "Searching \<notin> snd ` set fl"
  shows "serves V P c log \<lparr>sg_server = snd y, sg_flight = fl @ [(r, fst y)]\<rparr>"
  using assms
proof (induction rule: rtranclp_induct)
  case (step y z)
  then have t: "task_step V P (fst y) (snd y) = Some (fst z, snd z)" by (simp add: alone_def)
  then have "fst y \<noteq> Searching" by auto
  then have free: "manager_free \<lparr>sg_server = snd y, sg_flight = fl @ [(r, fst y)]\<rparr>"
    using assms(3) by (auto simp: manager_free_def)
  from goes_on [of "length fl" "\<lparr>sg_server = snd y, sg_flight = fl @ [(r, fst y)]\<rparr>" r "fst y" V P "fst z" "snd z"]
  have "serve_step V P \<lparr>sg_server = snd y, sg_flight = fl @ [(r, fst y)]\<rparr> None
      \<lparr>sg_server = snd z, sg_flight = fl @ [(r, fst z)]\<rparr>" by (simp add: t free)
  with step show ?case by (blast intro: serves_silent)
qed simp

lemma serve_handled:
  assumes "serve V P unclean t rq s = Some (resp, s')"
  shows "case handled rq of
      None \<Rightarrow> resp \<noteq> None \<and> s' = s
    | Some req \<Rightarrow> \<exists>reply. Routes V P t req s = Some (reply, s') \<and>
        resp = map_option (\<lambda>r. to_client rq (with_cors (json_response r))) reply"
  using assms
proof (cases rule: serve_cases)
  case (routed req reply)
  show ?thesis
  proof (cases "rq_method rq \<noteq> ''CONNECT'' \<and> \<not> is_clean (rq_path rq)")
    case True
    then show ?thesis using assms routed(1)
      by (auto simp: handled_def serve_def withCORS_def mux_def)
  qed (use routed in \<open>auto simp: handled_def\<close>)
next
  case (unrouted r)
  then show ?thesis by (auto simp: handled_def split: if_splits)
qed (simp add: handled_def)

lemma serves_serve:
  assumes "serves V P c log \<lparr>sg_server = s, sg_flight = fl\<rparr>" "serve V P unclean t rq s = Some (resp, s')"
    "Searching \<notin> snd ` set fl"
  shows "serves V P c (log @ [(t, rq)]) \<lparr>sg_server = s', sg_flight = fl\<rparr>"
proof (cases "handled rq")
  case None
  then have "s' = s" using serve_handled [OF assms(2)] by simp
  then show ?thesis using next_step [OF assms(1) refused [OF None, of V P _ t]] by simp
next
  case (Some req)
  obtain reply where r: "Routes V P t req s = Some (reply, s')" using serve_handled [OF assms(2)] Some by auto
  have "serves V P c (log @ [(t, rq)]) \<lparr>sg_server = s, sg_flight = fl @ [((t, rq), Begin t req)]\<rparr>"
    using next_step [OF assms(1) arrives [OF Some, of V P _ t]] by simp
  then have "serves V P c (log @ [(t, rq)]) \<lparr>sg_server = s', sg_flight = fl @ [((t, rq), Answered reply)]\<rparr>"
    using serves_alone [OF finishes_Routes [OF r] _ assms(3), where r = "(t, rq)"] by simp
  from serves_silent [OF this] leaves [of "\<lparr>sg_server = s', sg_flight = fl @ [((t, rq), Answered reply)]\<rparr>" fl _ reply "[]" V P]
  show ?thesis by simp
qed

section \<open>Every run\<close>

definition flight_ok :: "(reading \<times> http_request) list \<Rightarrow> ('c, 'p) serving \<Rightarrow> bool" where
  "flight_ok log c \<longleftrightarrow> (\<forall>((t, rq), task) \<in> set (sg_flight c). (t, rq) \<in> set log \<and>
    (\<exists>req. handled rq = Some req \<and> task_ok (sg_server c) t req task))"

lemma flight_okD:
  assumes "flight_ok log c" "((t, rq), task) \<in> set (sg_flight c)"
  obtains req where "(t, rq) \<in> set log" "handled rq = Some req" "task_ok (sg_server c) t req task"
  using assms by (auto simp: flight_ok_def)

lemma flight_ok_le:
  assumes "flight_ok log c" "server_le V (sg_server c) (sg_server c')" "set (sg_flight c') \<subseteq> set (sg_flight c)"
    "mgr_ok (e_uc V) (sv_rooms (sg_server c))" "case_table (e_uc V)"
  shows "flight_ok log c'"
  unfolding flight_ok_def
proof clarify
  fix t rq task assume "((t, rq), task) \<in> set (sg_flight c')"
  then have "((t, rq), task) \<in> set (sg_flight c)" using assms(3) by blast
  with assms(1) obtain req where "(t, rq) \<in> set log" "handled rq = Some req" "task_ok (sg_server c) t req task"
    by (rule flight_okD)
  then show "(t, rq) \<in> set log \<and> (\<exists>req. handled rq = Some req \<and> task_ok (sg_server c') t req task)"
    using task_ok_le [OF _ assms(2,4,5)] by blast
qed

lemma flight_ok_put:
  assumes "flight_ok log c" "(t, rq) \<in> set log" "handled rq = Some req" "task_ok (sg_server c) t req task"
    "set fl \<subseteq> insert ((t, rq), task) (set (sg_flight c))"
  shows "flight_ok log (c\<lparr>sg_flight := fl\<rparr>)"
  using assms unfolding flight_ok_def by fastforce

definition requested :: "(reading \<times> http_request) list \<Rightarrow> daily_act \<Rightarrow> bool" where
  "requested log a \<longleftrightarrow> (\<exists>(t, rq) \<in> set log. \<exists>req. handled rq = Some req \<and> acts_of t req a)"

text \<open>The free rooms whose hosts are still to be added: all different, and tidy.\<close>

definition hosted_in :: "('a \<times> task) list \<Rightarrow> nat list" where
  "hosted_in fl = concat (map (\<lambda>x. hosts (snd x)) fl)"

definition hosts_ok :: "('c, 'p) serving \<Rightarrow> bool" where
  "hosts_ok c \<longleftrightarrow> distinct (hosted_in (sg_flight c)) \<and>
    (\<forall>a \<in> set (hosted_in (sg_flight c)). a < length (m_heap (sv_rooms (sg_server c))) \<and>
      tidy (m_heap (sv_rooms (sg_server c)) ! a))"

lemma hosted_in_simps [simp]:
  "hosted_in [] = []" "hosted_in (x # fl) = hosts (snd x) @ hosted_in fl" "hosted_in (fl @ fl') = hosted_in fl @ hosted_in fl'"
  by (simp_all add: hosted_in_def)

lemma quiet_timer: "timer_step m m' \<Longrightarrow> quiet m m'"
  by (induction rule: timer_step.induct) simp_all

lemma timer_room_step: "timer_step m m' \<Longrightarrow> room_step V m m'"
  by (induction rule: timer_step.induct) (auto intro: room_step.intros)

lemma hosts_ok_section:
  assumes "hosts_ok c" "sg_flight c = fl @ (r, task) # fl'" "task_step V P task (sg_server c) = Some (task', s)"
    "mgr_ok (e_uc V) (sv_rooms (sg_server c))" "task_ok (sg_server c) t req task"
  shows "hosts_ok (c\<lparr>sg_server := s, sg_flight := fl @ (r, task') # fl'\<rparr>)"
proof -
  let ?h = "m_heap (sv_rooms (sg_server c))" and ?h' = "m_heap (sv_rooms s)"
  have len: "length ?h \<le> length ?h'"
  proof (cases "at_room task")
    case False
    show ?thesis
    proof (cases "\<exists>t rq. task = Begin t rq")
      case True
      then show ?thesis using begin_special(3) [OF _ assms(4)] assms(3) by fastforce
    qed (use other_heap(1) [OF assms(3) False] in simp)
  qed (use at_room_length [OF assms(3)] in simp)
  have d: "distinct (hosted_in fl @ hosts task @ hosted_in fl')"
    and old: "\<forall>a \<in> set (hosted_in fl @ hosted_in fl'). a < length ?h \<and> tidy (?h ! a)"
    using assms(1,2) by (auto simp: hosts_ok_def)
  have others: "\<forall>a \<in> set (hosted_in fl @ hosted_in fl'). a < length ?h' \<and> tidy (?h' ! a)"
    using old d len section_tidy [OF assms(3,4)] by (fastforce intro: less_le_trans)
  show ?thesis
  proof (cases "hosts task' = []")
    case True
    then show ?thesis using d others by (auto simp: hosts_ok_def)
  next
    case False
    have b: "\<exists>t rq. task = Begin t rq"
      using other_heap(2) [OF assms(3)] at_room_next(3) [OF assms(3) _ assms(5)] False by blast
    then have new: "hosts task' = [length ?h]" "tidy (?h' ! length ?h)"
      using begin_special(2) [OF _ assms(4) False] assms(3) by auto
    have "task_ok s t req task'" using b begin_next(1) [OF _ assms(4)] assms(3,5) by (auto simp: task_ok_def)
    then have "length ?h < length ?h'" using new(1) by (cases task') (auto simp: task_ok_def refs_ok_def)
    then show ?thesis using new d others old by (auto simp: hosts_ok_def)
  qed
qed

lemma flight_split:
  assumes "i < length fl" "fl ! i = x"
  shows "fl = take i fl @ x # drop (Suc i) fl" "fl[i := y] = take i fl @ y # drop (Suc i) fl"
  using assms id_take_nth_drop [OF assms(1)] upd_conv_take_nth_drop [OF assms(1), of y] by simp_all

lemma tidy_hosts_flight: "hosts_ok c \<Longrightarrow> (r, task) \<in> set (sg_flight c) \<Longrightarrow> tidy_hosts (sg_server c) task"
  by (force simp: hosts_ok_def hosted_in_def tidy_hosts_def)

text \<open>What a step keeps and does.\<close>

definition run_ok :: "('c, 'r) env \<Rightarrow> (reading \<times> http_request) list \<Rightarrow> ('c, 'p) serving \<Rightarrow> bool" where
  "run_ok V log c \<longleftrightarrow> mgr_ok (e_uc V) (sv_rooms (sg_server c)) \<and> flight_ok log c \<and> hosts_ok c"

definition logged :: "(reading \<times> http_request) list \<Rightarrow> (reading \<times> http_request) option \<Rightarrow> (reading \<times> http_request) list" where
  "logged log l = log @ (case l of None \<Rightarrow> [] | Some r \<Rightarrow> [r])"

lemma logged_simps [simp]: "logged log None = log" "logged log (Some r) = log @ [r]"
  by (simp_all add: logged_def)

lemma serve_step_inv:
  assumes "serve_step V P c l c'" "run_ok V log c" "case_table (e_uc V)"
  shows "server_le V (sg_server c) (sg_server c') \<and> run_ok V (logged log l) c' \<and>
    logs V P (requested (logged log l)) (sg_server c) (sg_server c')"
proof -
  have mgr: "mgr_ok (e_uc V) (sv_rooms (sg_server c))" and fl: "flight_ok log c" and hosts: "hosts_ok c"
    using assms(2) by (simp_all add: run_ok_def)
  have mgr': "mgr_ok (e_uc V) (sv_rooms (sg_server c'))" if "server_le V (sg_server c) (sg_server c')"
    by (rule mgr_ok_le [OF that mgr assms(3)])
  from assms(1) show ?thesis
  proof cases
    case (arrives rq req t)
    have "flight_ok (log @ [(t, rq)]) c" using fl by (auto simp: flight_ok_def)
    then have "flight_ok (log @ [(t, rq)]) (c\<lparr>sg_flight := sg_flight c @ [((t, rq), Begin t req)]\<rparr>)"
      by (rule flight_ok_put [OF _ _ arrives(3), where t = t and task = "Begin t req"]) (simp_all add: task_ok_def)
    then show ?thesis using mgr hosts by (simp add: arrives logs_none run_ok_def hosts_ok_def)
  next
    case (refused rq t)
    then show ?thesis using fl mgr hosts by (auto simp: flight_ok_def logs_none run_ok_def)
  next
    case (goes_on i r task task' s)
    obtain t rq where r: "r = (t, rq)" by fastforce
    have inf: "((t, rq), task) \<in> set (sg_flight c)" using goes_on(3,4) r by (metis nth_mem)
    with fl obtain req where req: "(t, rq) \<in> set log" "handled rq = Some req" "task_ok (sg_server c) t req task"
      by (rule flight_okD)
    have tidy: "tidy_hosts (sg_server c) task" by (rule tidy_hosts_flight [OF hosts inf])
    have refs: "refs_ok (sg_server c) task" using req(3) by (simp add: task_ok_def)
    have le: "server_le V (sg_server c) s" by (rule section_le [OF goes_on(5) mgr refs tidy])
    have "flight_ok log (c\<lparr>sg_server := s\<rparr>)"
      by (rule flight_ok_le [OF fl _ _ mgr assms(3)]) (simp_all add: le)
    then have "flight_ok log (c\<lparr>sg_server := s, sg_flight := (sg_flight c)[i := ((t, rq), task')]\<rparr>)"
      by (rule flight_ok_put [OF _ req(1,2), where task = task'])
        (simp_all add: section_task [OF goes_on(5) mgr assms(3) req(3) tidy] set_update_subset_insert)
    then have "flight_ok log c'" by (simp add: goes_on(2) r)
    moreover have "hosts_ok c'"
      using hosts_ok_section [OF hosts flight_split(1) [OF goes_on(3,4)] goes_on(5) mgr req(3)]
        flight_split(2) [OF goes_on(3,4), of "(r, task')"] by (simp add: goes_on(2))
    moreover have "logs V P (requested log) (sg_server c) s"
    proof (rule logs_mono [OF section_logs [OF goes_on(5)]])
      fix a assume "task_acts task a"
      then have "acts_of t req a" using req(3) by (intro stems_acts) (simp_all add: task_ok_def)
      then show "requested log a" using req by (auto simp: requested_def)
    qed
    ultimately show ?thesis using le mgr' by (simp add: goes_on(1,2) run_ok_def)
  next
    case (timer m)
    have le: "server_le V (sg_server c) (sg_server c')"
      by (simp add: timer server_le_rooms room_reach_step timer_room_step [OF timer(3)])
    then have "flight_ok log c'" by (rule flight_ok_le [OF fl _ _ mgr assms(3)]) (simp add: timer)
    moreover have "hosts_ok c'" using hosts quietD(1,6) [OF quiet_timer [OF timer(3)]] by (simp add: timer(2) hosts_ok_def)
    ultimately show ?thesis using le mgr' by (simp add: timer(1,2) logs_none run_ok_def)
  next
    case (leaves fl1 r resp fl2)
    then have "flight_ok log c'" "hosts_ok c'" using fl hosts by (auto simp: flight_ok_def hosts_ok_def)
    then show ?thesis using mgr by (simp add: leaves logs_none run_ok_def)
  qed
qed

lemma requested_mono: "requested log a \<Longrightarrow> requested (logged log l) a"
  by (auto simp: requested_def logged_def)

lemma serves_inv:
  assumes "serves V P (serving_from s) log c" "mgr_ok (e_uc V) (sv_rooms s)" "case_table (e_uc V)"
  shows "server_le V s (sg_server c) \<and> run_ok V log c \<and> logs V P (requested log) s (sg_server c)"
  using assms(1)
proof (induction rule: serves.induct)
  case idle
  show ?case using assms(2) by (simp add: run_ok_def flight_ok_def hosts_ok_def logs_none)
next
  case (next_step log c1 l c2)
  from next_step.IH have ih: "server_le V s (sg_server c1)" "run_ok V log c1" "logs V P (requested log) s (sg_server c1)"
    by simp_all
  note inv = serve_step_inv [OF next_step.hyps(2) ih(2) assms(3)]
  have "logs V P (requested (logged log l)) s (sg_server c1)" by (rule logs_mono [OF ih(3) requested_mono])
  moreover have "sv_dict (sg_server c1) = sv_dict s" "sv_cfg (sg_server c1) = sv_cfg s"
    using ih(1) by (simp_all add: server_le_def)
  ultimately have "logs V P (requested (logged log l)) s (sg_server c2)" using inv by (blast intro: logs_trans)
  then show ?case using inv server_le_trans [OF ih(1)] unfolding logged_def by blast
qed

lemmas serves_le = serves_inv [THEN conjunct1]
  and serves_run = serves_inv [THEN conjunct2, THEN conjunct1]
  and serves_logs = serves_inv [THEN conjunct2, THEN conjunct2]

lemma serves_flight:
  "serves V P (serving_from s) log c \<Longrightarrow> mgr_ok (e_uc V) (sv_rooms s) \<Longrightarrow> case_table (e_uc V) \<Longrightarrow> flight_ok log c"
  using serves_run [of V P s log c] by (simp add: run_ok_def)

section \<open>At some point\<close>

text \<open>Some state of a run, up to its end, has a property.\<close>

definition at_some_point :: "('c, 'r) env \<Rightarrow> 'p Persister option \<Rightarrow> ('c, 'p) serving \<Rightarrow>
    (reading \<times> http_request) list \<Rightarrow> ('c, 'p) serving \<Rightarrow> (('c, 'p) serving \<Rightarrow> bool) \<Rightarrow> bool" where
  "at_some_point V P c log c' Q \<longleftrightarrow>
    (\<exists>log1 c1 log2. log = log1 @ log2 \<and> serves V P c log1 c1 \<and> serves V P c1 log2 c' \<and> Q c1)"

lemma at_some_point_next:
  assumes "at_some_point V P c log c1 Q" "serve_step V P c1 l c2"
  shows "at_some_point V P c (logged log l) c2 Q"
proof -
  obtain log1 c0 log2 where r: "log = log1 @ log2" "serves V P c log1 c0" "serves V P c0 log2 c1" "Q c0"
    using assms(1) unfolding at_some_point_def by blast
  have "serves V P c0 (logged log2 l) c2" unfolding logged_def by (rule next_step [OF r(3) assms(2)])
  moreover have "logged log l = log1 @ logged log2 l" by (simp add: r(1) logged_def)
  ultimately show ?thesis using r(2,4) unfolding at_some_point_def by blast
qed

lemma at_some_point_now: "serves V P c log c1 \<Longrightarrow> Q c1 \<Longrightarrow> at_some_point V P c log c1 Q"
  unfolding at_some_point_def by (intro exI [of _ log] exI [of _ c1] exI [of _ "[]"]) (simp add: idle)

lemma at_some_point_before:
  "serves V P c log c1 \<Longrightarrow> Q c1 \<Longrightarrow> serve_step V P c1 l c2 \<Longrightarrow> at_some_point V P c (logged log l) c2 Q"
  by (rule at_some_point_next [OF at_some_point_now])

text \<open>How a task got stuck or was dropped by a panic.\<close>

definition stuck_why :: "('c, 'r) env \<Rightarrow> reading \<times> http_request \<Rightarrow> task \<Rightarrow> ('c, 'p) serving \<Rightarrow> bool" where
  "stuck_why V r task c \<longleftrightarrow>
    (if task = Searching
     then (\<exists>t b. (r, Begin t (Post_room_create b)) \<in> set (sg_flight c)) \<and>
       freshCode (e_eth V) (m_rooms (sv_rooms (sg_server c))) (m_world (sv_rooms (sg_server c))) = None
     else \<exists>task1. (r, task1) \<in> set (sg_flight c) \<and> nil_join (sg_server c) task1)"

definition stuck_ok :: "('c, 'r) env \<Rightarrow> 'p Persister option \<Rightarrow> ('c, 'p) serving \<Rightarrow>
    (reading \<times> http_request) list \<Rightarrow> ('c, 'p) serving \<Rightarrow> bool" where
  "stuck_ok V P c log c' \<longleftrightarrow> (\<forall>r task. (r, task) \<in> set (sg_flight c') \<longrightarrow> task \<in> {Searching, Answered None} \<longrightarrow>
    at_some_point V P c log c' (stuck_why V r task))"

lemma stuck_ok_step:
  assumes "stuck_ok V P c log c1" "serves V P c log c1" "serve_step V P c1 l c2" "run_ok V log c1"
    "externals_ok V" "server_ok V (sg_server c1)"
  shows "stuck_ok V P c (logged log l) c2"
  unfolding stuck_ok_def
proof (intro allI impI)
  fix r task2 assume m: "(r, task2) \<in> set (sg_flight c2)" "task2 \<in> {Searching, Answered None}"
  have mgr: "mgr_ok (e_uc V) (sv_rooms (sg_server c1))" and fl: "flight_ok log c1"
    using assms(4) by (simp_all add: run_ok_def)
  show "at_some_point V P c (logged log l) c2 (stuck_why V r task2)"
  proof (cases "(r, task2) \<in> set (sg_flight c1)")
    case True
    show ?thesis
      by (rule at_some_point_next [OF assms(1) [unfolded stuck_ok_def, rule_format, OF True m(2)] assms(3)])
  next
    case new: False
    from assms(3) show ?thesis
    proof cases
      case (goes_on i r' task task' s)
      have "set ((sg_flight c1)[i := (r', task')]) \<subseteq> insert (r', task') (set (sg_flight c1))"
        by (rule set_update_subset_insert)
      then have r: "r' = r" "task' = task2" using m(1) new goes_on(2) by auto
      have inf: "(r, task) \<in> set (sg_flight c1)" using goes_on(3,4) r(1) by (metis nth_mem)
      obtain t rq where "r = (t, rq)" by fastforce
      with fl inf obtain req where req: "task_ok (sg_server c1) t req task" by (metis flight_okD)
      note st = goes_on(5) [unfolded r(2)]
      have "stuck_why V r task2 c1"
      proof (cases "task2 = Searching")
        case True
        from section_searching [OF st [unfolded True] mgr req] inf show ?thesis
          by (auto simp: stuck_why_def True)
      next
        case False
        then have n: "task2 = Answered None" using m(2) by simp
        from section_np [OF st [unfolded n] req assms(5,6)] inf show ?thesis
          by (auto simp: stuck_why_def n)
      qed
      then show ?thesis by (rule at_some_point_before [OF assms(2) _ assms(3)])
    qed (use m(1) new m(2) in auto)
  qed
qed

lemma serves_stuck:
  assumes "serves V P (serving_from s) log c" "externals_ok V" "server_ok V s"
  shows "stuck_ok V P (serving_from s) log c"
  using assms(1)
proof (induction rule: serves.induct)
  case idle
  show ?case by (simp add: stuck_ok_def)
next
  case (next_step log c1 l c2)
  have ct: "case_table (e_uc V)" and mgr: "mgr_ok (e_uc V) (sv_rooms s)"
    using assms(2,3) by (simp_all add: externals_ok_def server_ok_def)
  note inv = serves_inv [OF next_step.hyps(1) mgr ct]
  have "server_ok V (sg_server c1)" using inv server_ok_le [OF assms(3) _ ct] by blast
  then show ?case
    using stuck_ok_step [OF next_step.IH next_step.hyps(1,2) _ assms(2)] inv unfolding logged_def by blast
qed

section \<open>Properties\<close>

text \<open>
  C13: whatever requests and timers come and however their sections are interleaved, the server only moves forward: a round keeps its
  letters, stays paid, keeps its players and never lowers a score, the rooms go through steps of
  the room protocol, and the configuration stays.
\<close>

theorem requests_move_forward:
  assumes "case_table (e_uc V)" "mgr_ok (e_uc V) (sv_rooms s)" "serves V P (serving_from s) log c" "s' = sg_server c"
  shows "(\<forall>k d. map_of (dailies (sv_store s)) k = Some d \<longrightarrow>
      (\<exists>d'. map_of (dailies (sv_store s')) k = Some d' \<and> d_letters d' = d_letters d \<and>
        (d_paid d \<longrightarrow> d_paid d') \<and>
        (\<forall>a sub. map_of (d_submissions d) a = Some sub \<longrightarrow>
          (\<exists>sub'. map_of (d_submissions d') a = Some sub' \<and> sub_score sub \<le> sub_score sub')))) \<and>
    room_reach V (sv_rooms s) (sv_rooms s') \<and> mgr_ok (e_uc V) (sv_rooms s') \<and>
    sv_dict s' = sv_dict s \<and> sv_cfg s' = sv_cfg s \<and> sv_signer s' = sv_signer s \<and>
    sv_chain s' = sv_chain s \<and> sv_writer s' = sv_writer s"
proof -
  have le: "server_le V s s'" unfolding assms(4) by (rule serves_le [OF assms(3,2,1)])
  then have "\<forall>k d. map_of (dailies (sv_store s)) k = Some d \<longrightarrow>
      (\<exists>d'. map_of (dailies (sv_store s')) k = Some d' \<and> daily_le d d')"
    by (simp add: server_le_def store_le_def)
  then show ?thesis using le mgr_ok_le [OF le assms(2,1)] unfolding server_le_def daily_le_def by fast
qed

text \<open>
  C37: a serving process refines the daily game: whatever requests and timers come and however their sections
  are interleaved, its rounds are those that some sequence of acts leads to, all of them acts of
  its requests: a fetch of the round that is asked for, a submission by its player with its words,
  rounds opened with the id and the end of an admin's request.
\<close>

theorem server_plays_daily_game:
  assumes "case_table (e_uc V)" "mgr_ok (e_uc V) (sv_rooms s)" "serves V P (serving_from s) log c"
  shows "\<exists>acts. list_all (requested log) acts \<and> sv_store (sg_server c) =
    fold (run_act P (\<lambda>k. gen_letters V k s) (Score (e_uc V) (sv_dict s))) acts (sv_store s)"
  using serves_logs [OF assms(3,2,1)] by (simp only: logs_def journal_def)

text \<open>Getting into a staked room, one step and any number of them.\<close>

definition in_room :: "('c, 'p) serving \<Rightarrow> nat \<Rightarrow> string \<Rightarrow> bool" where
  "in_room c a i \<longleftrightarrow> a < length (m_heap (sv_rooms (sg_server c))) \<and> i \<in> set (r_order (m_heap (sv_rooms (sg_server c)) ! a))"

definition joins_with_stake :: "('c, 'r) env \<Rightarrow> (reading \<times> http_request) list \<Rightarrow> nat \<Rightarrow> string \<Rightarrow> ('c, 'p) serving \<Rightarrow> bool" where
  "joins_with_stake V log a i c \<longleftrightarrow> may_enter V (sv_rooms (sg_server c)) a i \<and>
    (\<exists>t rq code name. (t, rq) \<in> set log \<and> handled rq = Some (Post_room_join (Some (code, i, name))) \<and>
      (\<exists>t'. ((t, rq), Joining t' a i name) \<in> set (sg_flight c)))"

lemma entry_step:
  assumes "serve_step V P c l c'" "run_ok V log c" "in_room c' a i" "\<not> in_room c a i"
    "r_stake (m_heap (sv_rooms (sg_server c')) ! a) \<noteq> None"
  shows "joins_with_stake V log a i c"
proof -
  have mgr: "mgr_ok (e_uc V) (sv_rooms (sg_server c))" and fl: "flight_ok log c"
    using assms(2) by (simp_all add: run_ok_def)
  from assms(1) show ?thesis
  proof cases
    case (goes_on j r task task' s)
    obtain t rq where r: "r = (t, rq)" by fastforce
    have inf: "((t, rq), task) \<in> set (sg_flight c)" using goes_on(3,4) r by (metis nth_mem)
    with fl obtain req where req: "(t, rq) \<in> set log" "handled rq = Some req" "task_ok (sg_server c) t req task"
      by (rule flight_okD)
    have "\<exists>t name. task = Joining t a i name \<and> may_enter V (sv_rooms (sg_server c)) a i"
      using section_entry [OF goes_on(5) mgr] req(3) assms(3-5) by (simp add: in_room_def task_ok_def goes_on(2))
    then obtain t' name where j: "task = Joining t' a i name" "may_enter V (sv_rooms (sg_server c)) a i" by blast
    moreover obtain code where "req = Post_room_join (Some (code, i, name))"
      using req(3) j(1) by (auto simp: task_ok_def)
    ultimately show ?thesis using req(1,2) inf unfolding joins_with_stake_def by blast
  next
    case (timer m)
    have q: "quiet (sv_rooms (sg_server c)) m" by (rule quiet_timer [OF timer(3)])
    then show ?thesis
      using assms(3,4) by (auto simp: in_room_def timer(2) quiet_length [OF q] quietD(2) [OF q])
  qed (use assms(3,4) in \<open>auto simp: in_room_def\<close>)
qed

lemma joins_with_stake_mono: "joins_with_stake V log a i c \<Longrightarrow> joins_with_stake V (log @ log') a i c"
  unfolding joins_with_stake_def by fastforce

text \<open>
  C4: nobody gets into a staked room without a stake on chain, the host included: whatever requests and timers
  come and however their sections are interleaved, who is in a staked room has got there by a join request of
  the run for this id, at a moment when the room was in its lobby and not full and the contract said that the
  address with this id had entered the round of the room. No other section of any request, the creation of
  the room among them, adds anybody to a staked room.
\<close>

theorem staked_rooms_entered:
  assumes "case_table (e_uc V)" "mgr_ok (e_uc V) (sv_rooms s)" "serves V P (serving_from s) log c"
    "in_room c a i" "\<not> in_room (serving_from s) a i" "r_stake (m_heap (sv_rooms (sg_server c)) ! a) \<noteq> None"
  shows "at_some_point V P (serving_from s) log c (joins_with_stake V log a i)"
  using assms(3,4,6)
proof (induction rule: serves.induct)
  case idle
  then show ?case using assms(5) by simp
next
  case (next_step log c1 l c2)
  note inv = serves_inv [OF next_step.hyps(1) assms(2,1)]
  have run: "run_ok V log c1" using inv by blast
  have up: "joins_with_stake V (logged log l) a i c" if "joins_with_stake V log a i c" for c :: "('a, 'c) serving"
    using joins_with_stake_mono [OF that] by (simp add: logged_def)
  have "at_some_point V P (serving_from s) (logged log l) c2 (joins_with_stake V (logged log l) a i)"
  proof (cases "in_room c1 a i")
    case True
    have a: "a < length (m_heap (sv_rooms (sg_server c1)))" using True by (simp add: in_room_def)
    have r: "room_reach V (sv_rooms (sg_server c1)) (sv_rooms (sg_server c2))"
      using serve_step_inv [OF next_step.hyps(2) run assms(1)] by (simp add: server_le_def)
    have "mgr_le (sv_rooms (sg_server c1)) (sv_rooms (sg_server c2))"
      using good_reach [OF r _ assms(1) refl] run by (simp add: good_def run_ok_def)
    then have "r_stake (m_heap (sv_rooms (sg_server c1)) ! a) \<noteq> None"
      using a next_step.prems(2) by (simp add: mgr_le_def room_le_def)
    from at_some_point_next [OF next_step.IH [OF True this] next_step.hyps(2)]
    show ?thesis unfolding at_some_point_def using up by blast
  next
    case False
    have "joins_with_stake V log a i c1"
      by (rule entry_step [OF next_step.hyps(2) run next_step.prems(1) False next_step.prems(2)])
    then show ?thesis by (intro at_some_point_before [OF next_step.hyps(1) _ next_step.hyps(2)] up)
  qed
  then show ?case by (simp only: logged_def)
qed

section \<open>Witnesses\<close>

lemma serves_served:
  assumes "serve V P unclean t rq s = Some (resp, s')"
  shows "\<exists>c. serves V P (serving_from s) [(t, rq)] c \<and> sg_server c = s'"
  using serves_serve [OF idle [of V P "serving_from s", unfolded serving_from_def] assms]
  by (auto simp: serving_from_def)

text \<open>A server with one staked room, and its first player.\<close>

definition toy_staked :: "(unit, unit) Server" where
  "toy_staked = toy_server\<lparr>sv_rooms := with_room toy_lobby\<rparr>"

theorem staked_rooms_entered_witness:
  "\<exists>c. serves toy_env None (serving_from toy_staked) [(toy_time, client toy_join_request)] c \<and> in_room c 0 ''p2'' \<and>
    at_some_point toy_env None (serving_from toy_staked) [(toy_time, client toy_join_request)] c
      (joins_with_stake toy_env [(toy_time, client toy_join_request)] 0 ''p2'')"
proof -
  let ?s = "toy_staked\<lparr>sv_rooms := with_room toy_joined\<rparr>"
  have sendable: "sendable toy_join_request" by (simp add: toy_join_request_def utf8_ascii)
  have found: "find_handler (client toy_join_request) = Some toy_join_request"
    by (rule client_found [OF sendable]) (simp only: toy_join_body, simp add: bodyLimit_def)
  obtain v where "Join_at toy_env 0 0 ''p2'' ''bob'' (with_room toy_lobby) = (v, with_room toy_joined)"
    using toy_join [of 0] by (metis prod.collapse)
  then have "Routes toy_env None toy_time toy_join_request toy_staked = Some (view_reply v, ?s)"
    by (simp add: toy_join_request_def Routes_def handleRoomJoin_def Join_def toy_staked_def toy_time_def)
  then have "serve toy_env None toy_unclean toy_time (client toy_join_request) toy_staked =
      Some (map_option (\<lambda>r. with_cors (json_response r)) (view_reply v), ?s)"
    using serve_routed [OF found client_clean [OF sendable], of toy_env None toy_unclean toy_time toy_staked]
    by (simp add: toy_join_request_def post_rq_def)
  from serves_served [OF this] obtain c where
    c: "serves toy_env None (serving_from toy_staked) [(toy_time, client toy_join_request)] c" "sg_server c = ?s" by blast
  have "mgr_ok (e_uc toy_env) (sv_rooms toy_staked)"
    using reachable_ok(1) [OF case_table_toy reach_staked [unfolded toy_m0_def]] by (simp add: toy_staked_def)
  moreover have "in_room c 0 ''p2''" "\<not> in_room (serving_from toy_staked) 0 ''p2''"
    "r_stake (m_heap (sv_rooms (sg_server c)) ! 0) \<noteq> None"
    using c(2) by (simp_all add: in_room_def toy_staked_def)
  ultimately show ?thesis using staked_rooms_entered [OF case_table_toy _ c(1), of 0 "''p2''"] c(1) by blast
qed

theorem requests_move_forward_witness:
  "\<exists>c d'. serves toy_env None (serving_from toy_server) [(toy_time, client toy_submit_request)] c \<and>
    map_of (dailies (sv_store (sg_server c))) (date_key 0) = Some d' \<and> d_letters d' = ''CATS'' \<and> d_paid d'"
proof -
  have "length (rq_body (client toy_submit_request)) = 32" by code_simp
  then have "length (rq_body (client toy_submit_request)) \<le> bodyLimit" by (simp add: bodyLimit_def)
  moreover have "sendable toy_submit_request" by (simp add: toy_submit_request_def utf8_ascii)
  moreover obtain r s' where "Routes toy_env None toy_time toy_submit_request toy_server = Some (r, s')"
    by (fastforce simp: toy_submit_request_def Routes_def)
  ultimately have "serve toy_env None toy_unclean toy_time (client toy_submit_request) toy_server =
      Some (map_option (\<lambda>r. with_cors (json_response r)) r, s')" by (intro toy_served)
  from serves_served [OF this] obtain c where
    c: "serves toy_env None (serving_from toy_server) [(toy_time, client toy_submit_request)] c" by blast
  from requests_move_forward [OF case_table_toy mgr_ok_toy c refl] toy_round
  obtain d' where "map_of (dailies (sv_store (sg_server c))) (date_key 0) = Some d'" "d_letters d' = d_letters toy_daily"
    "d_paid d'" by (fastforce simp: toy_daily_def)
  then show ?thesis using c by (auto simp: toy_daily_def)
qed

theorem server_plays_daily_game_witness:
  "\<exists>c acts. serves toy_env None (serving_from toy_server) [(toy_time, client Get_daily)] c \<and>
    list_all (requested [(toy_time, client Get_daily)]) acts \<and> sv_store (sg_server c) =
      fold (run_act None (\<lambda>k. gen_letters toy_env k toy_server) (Score (e_uc toy_env) (sv_dict toy_server)))
        acts (sv_store toy_server)"
proof -
  obtain r s' where "Routes toy_env None toy_time Get_daily toy_server = Some (r, s')"
    by (fastforce simp: Routes_def)
  then have "serve toy_env None toy_unclean toy_time (client Get_daily) toy_server =
      Some (map_option (\<lambda>r. with_cors (json_response r)) r, s')" by (intro toy_served) (simp_all add: get_rq_def)
  from serves_served [OF this] obtain c where
    c: "serves toy_env None (serving_from toy_server) [(toy_time, client Get_daily)] c" by blast
  from server_plays_daily_game [OF case_table_toy mgr_ok_toy c] c show ?thesis by blast
qed

end
