(* ===== verification/Gated.thy ===== *)
theory Gated
  imports Concurrent
begin

text \<open>
  The gate of paid rounds when requests run beside each other: a submission is counted some sections after
  its gate was passed. The property traces every change of a leaderboard back to a request that passed the gate
  at an earlier point of the run; \<open>gate_race\<close> is what may happen between the two.
\<close>

section \<open>A change of a leaderboard is a play\<close>

definition subs_of :: "'p Store \<Rightarrow> string \<Rightarrow> string \<Rightarrow> Submission option" where
  "subs_of st k a = Option.bind (map_of (dailies st) k) (\<lambda>d. map_of (d_submissions d) a)"

lemma subs_of_known: "map_of (dailies st) k = Some d \<Longrightarrow> subs_of st k a = map_of (d_submissions d) a"
  by (simp add: subs_of_def)

text \<open>A round that is known only changes its players by a play of one of them.\<close>

lemma act_keeps_subs:
  assumes "map_of (dailies st) k = Some d" "\<And>addr ws tm. act = Play k addr ws tm \<Longrightarrow> lower addr \<noteq> a"
  shows "subs_of (run_act P L S act st) k a = subs_of st k a"
proof (cases act)
  case (Fetch k')
  have "map_of (dailies (snd (GetOrCreateDaily P k' (L k') st))) k = Some d"
    using Get_Or_Create_keeps [OF assms(1), of P k' "L k'"] by simp
  then show ?thesis by (simp add: Fetch subs_of_known assms(1))
next
  case (Open_round k' rid et)
  show ?thesis
    by (cases "L k'"; cases "k' = k")
      (simp_all add: Open_round assms(1) subs_of_def OpenPaidDaily_def Let_def update_conv')
next
  case List_paid
  then show ?thesis by (simp add: ListPaidDailies_def subs_of_def split: option.split prod.split)
next
  case (Play k' addr ws tm)
  show ?thesis
  proof (cases "k' = k")
    case True
    have "lower addr \<noteq> a" using assms(2) Play True by simp
    then show ?thesis using assms(1)
      by (simp add: Play True play_def subs_of_def store_submit_known Daily_Submit_fst keep_best_def update_conv'
          split: option.split)
  next
    case False
    have "map_of (dailies (store_submit P k' sub st)) k = map_of (dailies st) k" for sub
      using False by (simp add: store_submit_def update_conv' split: option.split prod.split)
    then show ?thesis by (simp add: Play play_def subs_of_def split: option.split)
  qed
qed

lemma store_le_act: "store_le st (run_act P L S act st)"
proof (cases act)
  case (Fetch k)
  then show ?thesis using store_le_run_op [of st P "Get_Or_Create k (L k)"] by simp
next
  case (Play k addr ws tm)
  then show ?thesis by (simp add: play_def store_le_submit split: option.split)
qed (simp_all add: store_le_Open store_le_List split: res.split)

lemma acts_keep_subs:
  assumes "map_of (dailies st) k = Some d"
    "\<forall>act \<in> set acts. \<forall>addr ws tm. act = Play k addr ws tm \<longrightarrow> lower addr \<noteq> a"
  shows "subs_of (fold (run_act P L S) acts st) k a = subs_of st k a"
  using assms
proof (induction acts arbitrary: st d)
  case (Cons act acts)
  have s: "subs_of (run_act P L S act st) k a = subs_of st k a"
    using Cons.prems by (intro act_keeps_subs) auto
  obtain d' where "map_of (dailies (run_act P L S act st)) k = Some d'"
    using store_le_act [of st P L S act] Cons.prems(1) by (auto simp: store_le_def)
  then show ?case using Cons.IH Cons.prems(2) s by simp
qed simp

lemma section_changes:
  assumes "task_step V P task s = Some (task', s')" "map_of (dailies (sv_store s)) k = Some d"
    "subs_of (sv_store s') k a \<noteq> subs_of (sv_store s) k a"
  obtains t addr ws where "task = Count t k addr ws" "lower addr = a"
proof -
  obtain acts where acts: "list_all (task_acts task) acts" "sv_store s' = fold (journal V P s) acts (sv_store s)"
    using section_logs [OF assms(1)] by (auto simp: logs_def)
  then obtain addr ws tm where p: "Play k addr ws tm \<in> set acts" "lower addr = a"
    using assms(2,3) acts_keep_subs [OF assms(2), of acts a P] unfolding journal_def by metis
  then have "task_acts task (Play k addr ws tm)" using acts(1) by (simp add: list_all_iff)
  then show thesis using that p(2) by (cases task) auto
qed

section \<open>A play was gated\<close>

lemma room_no_count:
  "room_section V t rq s \<noteq> Count t' k addr ws"
  "task_step V P task s = Some (Count t' k addr ws, s') \<Longrightarrow> \<not> at_room task"
proof -
  show "room_section V t rq s \<noteq> Count t' k addr ws"
    by (cases "(V, t, rq, s)" rule: room_section.cases) (simp_all add: found_room_def split: option.split)
  show "task_step V P task s = Some (Count t' k addr ws, s') \<Longrightarrow> \<not> at_room task"
    by (cases "(V, P, task, s)" rule: task_step.cases)
      (auto simp: in_rooms_def open_next_def start_next_def submit_next_def list_next_def
        split: prod.splits res.splits option.splits)
qed

lemma begin_no_count: "begin_section V P t rq s \<noteq> Some (Count t' k addr ws, s')"
proof
  assume b: "begin_section V P t rq s = Some (Count t' k addr ws, s')"
  then show False
  proof (cases rule: begin_cases)
    case (fetched k' rest)
    then show ?thesis using fetch_then_fst [of V P k' rest s] by (metis fst_conv insert_iff singletonD task.distinct)
  next
    case (opened tok b')
    then show ?thesis by (cases rule: open_section_cases [of V P "t_first t" "t_second t" tok b' s]) simp_all
  next
    case (pool tok b')
    then show ?thesis
      by (cases rule: pool_section_cases [of V "t_first t" tok b' s]) (auto split: res.splits sum.splits)
  next
    case (created b')
    then show ?thesis by (cases rule: create_section_cases [of V t b' s]) simp_all
  next
    case looked
    then show ?thesis using room_no_count(1) by metis
  qed simp_all
qed

lemma section_to_count:
  assumes "task_step V P task s = Some (Count t k addr ws, s')"
  shows "\<exists>d. task = Gate t k addr ws \<and> map_of (dailies (sv_store s)) k = Some d \<and>
    paid_gate V (t_second t) addr d s = (Ok None, s')"
proof (cases task)
  case (Gate t' k' addr' ws')
  then show ?thesis using assms
    by (auto simp: with_round_def split: option.splits prod.splits res.splits)
next
  case (Opening now et fee rid "is" ks)
  then show ?thesis using assms by (cases "is") (auto simp: Let_def split: res.splits)
next
  case (Begin t' rq)
  then show ?thesis using assms begin_no_count [of V P t' rq s t k addr ws s'] by simp
qed (use assms room_no_count(2) [OF assms] in \<open>auto simp: with_round_def Let_def split: option.splits\<close>)

text \<open>At some point of the run the gate was open to the address.\<close>

definition passed :: "('c, 'r) env \<Rightarrow> 'p Persister option \<Rightarrow> ('c, 'p) serving \<Rightarrow>
    (reading \<times> http_request) list \<Rightarrow> ('c, 'p) serving \<Rightarrow> reading \<Rightarrow> string \<Rightarrow> string \<Rightarrow> bool" where
  "passed V P c log c' t k addr \<longleftrightarrow>
    (\<exists>log0 c0 log1 d. log = log0 @ log1 \<and> serves V P c log0 c0 \<and> serves V P c0 log1 c' \<and>
      map_of (dailies (sv_store (sg_server c0))) k = Some d \<and>
      (d_paid d \<longrightarrow> t_second t \<le> d_endTime d \<and>
        (\<exists>cl rid. sv_chain (sg_server c0) = Some cl \<and> big_SetString (d_roundID d) = Some rid \<and>
          fst (HasEntered (e_eth V) cl (Some rid) (HexToAddress (e_eth V) addr) (world_of (sg_server c0))) = Ok True)))"

lemma passed_step:
  assumes "passed V P c log c1 t k addr" "serve_step V P c1 l c2"
  shows "passed V P c (log @ (case l of None \<Rightarrow> [] | Some r \<Rightarrow> [r])) c2 t k addr"
proof -
  obtain log0 c0 log1 d where "log = log0 @ log1" "serves V P c log0 c0" "serves V P c0 log1 c1"
    "map_of (dailies (sv_store (sg_server c0))) k = Some d"
    "d_paid d \<longrightarrow> t_second t \<le> d_endTime d \<and>
        (\<exists>cl rid. sv_chain (sg_server c0) = Some cl \<and> big_SetString (d_roundID d) = Some rid \<and>
          fst (HasEntered (e_eth V) cl (Some rid) (HexToAddress (e_eth V) addr) (world_of (sg_server c0))) = Ok True)"
    using assms(1) unfolding passed_def by blast
  moreover from next_step [OF this(3) assms(2)]
  have "serves V P c0 (log1 @ (case l of None \<Rightarrow> [] | Some r \<Rightarrow> [r])) c2" .
  ultimately show ?thesis
    unfolding passed_def by (metis append.assoc)
qed

lemma passed_gate:
  assumes "serves V P c log c1" "serve_step V P c1 None c2" "map_of (dailies (sv_store (sg_server c1))) k = Some d"
    "paid_gate V (t_second t) addr d (sg_server c1) = (Ok None, s')"
  shows "passed V P c log c2 t k addr"
proof -
  have "serves V P c1 [] c2" using next_step [OF idle assms(2)] by simp
  then show ?thesis
    using assms(1,3) paid_gate_pass [OF assms(4)] unfolding passed_def
    by (intro exI [of _ log] exI [of _ c1] exI [of _ "[]"] exI [of _ d]) simp
qed

text \<open>Every submission about to be counted has passed its gate.\<close>

definition counts_passed :: "('c, 'r) env \<Rightarrow> 'p Persister option \<Rightarrow> ('c, 'p) serving \<Rightarrow>
    (reading \<times> http_request) list \<Rightarrow> ('c, 'p) serving \<Rightarrow> bool" where
  "counts_passed V P c log c' \<longleftrightarrow>
    (\<forall>r t k addr ws. (r, Count t k addr ws) \<in> set (sg_flight c') \<longrightarrow> passed V P c log c' t k addr)"

lemma counts_passed_step:
  assumes "serves V P c log c1" "counts_passed V P c log c1" "serve_step V P c1 l c2"
  shows "counts_passed V P c (log @ (case l of None \<Rightarrow> [] | Some r \<Rightarrow> [r])) c2"
  unfolding counts_passed_def
proof (intro allI impI)
  fix r t k addr ws assume in2: "(r, Count t k addr ws) \<in> set (sg_flight c2)"
  show "passed V P c (log @ (case l of None \<Rightarrow> [] | Some r \<Rightarrow> [r])) c2 t k addr"
  proof (cases "(r, Count t k addr ws) \<in> set (sg_flight c1)")
    case True
    then have "passed V P c log c1 t k addr" using assms(2) unfolding counts_passed_def by blast
    then show ?thesis by (rule passed_step [OF _ assms(3)])
  next
    case new: False
    from assms(3) show ?thesis
    proof cases
      case (goes_on i r' task task' s)
      have "set ((sg_flight c1)[i := (r', task')]) \<subseteq> insert (r', task') (set (sg_flight c1))"
        by (rule set_update_subset_insert)
      then have "task' = Count t k addr ws" using in2 new goes_on(2) by auto
      then obtain d where "map_of (dailies (sv_store (sg_server c1))) k = Some d"
        "paid_gate V (t_second t) addr d (sg_server c1) = (Ok None, s)"
        using section_to_count goes_on(5) by blast
      from passed_gate [OF assms(1) _ this] assms(3) goes_on(1) show ?thesis by simp
    qed (use in2 new in auto)
  qed
qed

lemma serves_counts_passed: "serves V P (serving_from s) log c \<Longrightarrow> counts_passed V P (serving_from s) log c"
proof (induction rule: serves.induct)
  case idle
  show ?case by (simp add: counts_passed_def)
next
  case (next_step log c1 l c2)
  then show ?case by (intro counts_passed_step)
qed

section \<open>Where a submission comes from\<close>

lemma serves_append: "serves V P c0 log1 c1 \<Longrightarrow> serves V P c log0 c0 \<Longrightarrow> serves V P c (log0 @ log1) c1"
proof (induction rule: serves.induct)
  case (next_step log c1 l c2)
  then show ?case using serves.next_step [of V P c "log0 @ log" c1 l c2] by simp
qed simp

text \<open>What a counted submission puts on the leaderboard.\<close>

definition counted :: "('c, 'r) env \<Rightarrow> dictionary \<Rightarrow> string \<Rightarrow> reading \<Rightarrow> string \<Rightarrow> string list \<Rightarrow> Submission" where
  "counted V dict letters t addr ws =
    \<lparr>sub_address = addr, sub_score = total (Score (e_uc V) dict letters ws),
     sub_words = int (length (accepted (Score (e_uc V) dict letters ws))), sub_at = t_third t\<rparr>"

lemma count_changes:
  assumes "task_step V P (Count t k addr ws) s = Some (task', s')" "map_of (dailies (sv_store s)) k = Some d"
    "subs_of (sv_store s') k (lower addr) \<noteq> subs_of (sv_store s) k (lower addr)"
  shows "subs_of (sv_store s') k (lower addr) = Some (counted V (sv_dict s) (d_letters d) t addr ws)"
  using assms
  by (auto simp: with_round_def Let_def subs_of_def store_submit_known Daily_Submit_fst keep_best_def update_conv'
      counted_def split: option.splits if_splits)

definition provenance :: "('c, 'r) env \<Rightarrow> 'p Persister option \<Rightarrow> ('c, 'p) Server \<Rightarrow> (reading \<times> http_request) list \<Rightarrow>
    ('c, 'p) serving \<Rightarrow> string \<Rightarrow> string \<Rightarrow> string \<Rightarrow> bool" where
  "provenance V P s log c k letters a \<longleftrightarrow>
    (\<exists>t rq addr ws. (t, rq) \<in> set log \<and> handled rq = Some (Post_daily_submit (Some (addr, ws))) \<and>
      lower addr = a \<and> k = date_key (t_first t) \<and> passed V P (serving_from s) log c t k addr \<and>
      subs_of (sv_store (sg_server c)) k a = Some (counted V (sv_dict s) letters t addr ws))"

lemma provenance_step:
  assumes "provenance V P s log c1 k letters a" "serve_step V P c1 l c2"
    "subs_of (sv_store (sg_server c2)) k a = subs_of (sv_store (sg_server c1)) k a"
  shows "provenance V P s (log @ (case l of None \<Rightarrow> [] | Some r \<Rightarrow> [r])) c2 k letters a"
proof -
  obtain t rq addr ws where p: "(t, rq) \<in> set log" "handled rq = Some (Post_daily_submit (Some (addr, ws)))"
    "lower addr = a" "k = date_key (t_first t)" "passed V P (serving_from s) log c1 t k addr"
    "subs_of (sv_store (sg_server c1)) k a = Some (counted V (sv_dict s) letters t addr ws)"
    using assms(1) unfolding provenance_def by blast
  then show ?thesis
    using passed_step [OF p(5) assms(2)] assms(3) unfolding provenance_def
    by (intro exI [of _ t] exI [of _ rq] exI [of _ addr] exI [of _ ws]) simp
qed

text \<open>A step that changes a leaderboard counts a submission.\<close>

lemma provenance_new:
  assumes "serves V P (serving_from s) log c1" "flight_ok log c1" "serve_step V P c1 l c2"
    "map_of (dailies (sv_store (sg_server c1))) k = Some d" "sv_dict (sg_server c1) = sv_dict s"
    "subs_of (sv_store (sg_server c2)) k a \<noteq> subs_of (sv_store (sg_server c1)) k a"
  shows "provenance V P s (log @ (case l of None \<Rightarrow> [] | Some r \<Rightarrow> [r])) c2 k (d_letters d) a"
  using assms(3)
proof cases
  case (goes_on i r task task' s')
  have ch: "subs_of (sv_store s') k a \<noteq> subs_of (sv_store (sg_server c1)) k a"
    using assms(6) by (simp add: goes_on(2))
  obtain t addr ws where task: "task = Count t k addr ws" "lower addr = a"
    by (rule section_changes [OF goes_on(5) assms(4) ch])
  obtain t' rq where r: "r = (t', rq)" by fastforce
  have fl: "((t', rq), Count t k addr ws) \<in> set (sg_flight c1)" using goes_on(3,4) r task by (metis nth_mem)
  obtain req where req: "(t', rq) \<in> set log" "handled rq = Some req" "task_ok (sg_server c1) t' req (Count t k addr ws)"
    by (rule flight_okD [OF assms(2) fl])
  have "passed V P (serving_from s) log c1 t k addr"
    using serves_counts_passed [OF assms(1)] fl unfolding counts_passed_def by blast
  note passed = passed_step [OF this assms(3)]
  have "subs_of (sv_store s') k a = Some (counted V (sv_dict s) (d_letters d) t addr ws)"
    using count_changes [OF goes_on(5) [unfolded task] assms(4)] ch task(2) assms(5) by simp
  then show ?thesis
    using passed req task(2) goes_on(1,2) unfolding provenance_def
    by (intro exI [of _ t] exI [of _ rq] exI [of _ addr] exI [of _ ws]) (simp add: task_ok_def)
qed (use assms(6) in \<open>simp_all\<close>)

lemma serves_provenance:
  assumes "serves V P c0 log1 c" "serves V P (serving_from s) log0 c0" "mgr_ok (e_uc V) (sv_rooms s)"
    "case_table (e_uc V)" "map_of (dailies (sv_store (sg_server c0))) k = Some d"
  shows "(\<exists>d'. map_of (dailies (sv_store (sg_server c))) k = Some d' \<and> d_letters d' = d_letters d) \<and>
    (subs_of (sv_store (sg_server c)) k a = subs_of (sv_store (sg_server c0)) k a \<or>
     provenance V P s (log0 @ log1) c k (d_letters d) a)"
  using assms(1)
proof (induction rule: serves.induct)
  case idle
  show ?case using assms(5) by simp
next
  case (next_step log c1 l c2)
  let ?log = "(log0 @ log) @ (case l of None \<Rightarrow> [] | Some r \<Rightarrow> [r])"
  have run: "serves V P (serving_from s) (log0 @ log) c1" by (rule serves_append [OF next_step.hyps(1) assms(2)])
  note inv = serves_inv [OF run assms(3,4)]
  have le: "server_le V s (sg_server c1)" and ok: "run_ok V (log0 @ log) c1" using inv by blast+
  then have fl: "flight_ok (log0 @ log) c1" by (simp add: run_ok_def)
  obtain d1 where d1: "map_of (dailies (sv_store (sg_server c1))) k = Some d1" "d_letters d1 = d_letters d"
    using next_step.IH by blast
  have "server_le V (sg_server c1) (sg_server c2)"
    using serve_step_inv [OF next_step.hyps(2) ok assms(4)] by blast
  then have letters: "\<exists>d'. map_of (dailies (sv_store (sg_server c2))) k = Some d' \<and> d_letters d' = d_letters d"
    using d1 by (fastforce simp: server_le_def store_le_def daily_le_def)
  have dict: "sv_dict (sg_server c1) = sv_dict s" using le by (simp add: server_le_def)
  have "subs_of (sv_store (sg_server c2)) k a = subs_of (sv_store (sg_server c0)) k a \<or>
      provenance V P s ?log c2 k (d_letters d) a"
  proof (cases "subs_of (sv_store (sg_server c2)) k a = subs_of (sv_store (sg_server c1)) k a")
    case True
    have "provenance V P s (log0 @ log) c1 k (d_letters d) a \<Longrightarrow> provenance V P s ?log c2 k (d_letters d) a"
      by (rule provenance_step [OF _ next_step.hyps(2) True])
    then show ?thesis using next_step.IH True by auto
  next
    case False
    from provenance_new [OF run fl next_step.hyps(2) d1(1) dict this] d1(2) show ?thesis by simp
  qed
  then show ?case using letters by simp
qed

section \<open>Property\<close>

text \<open>
  C2: only who passed the gate gets on the leaderboard: between any two points of a run, however its sections
  are interleaved, the entry of a player of a known round changes only to a submission of the run: of
  its player, on that day, with the score of its words on the letters of the round; and at some
  point of the run the round was free, or its pool was still open and the chain said that the
  address had entered.
\<close>

theorem leaderboard_gated:
  assumes "case_table (e_uc V)" "mgr_ok (e_uc V) (sv_rooms s)"
    "serves V P (serving_from s) log0 c0" "serves V P c0 log1 c" "log = log0 @ log1"
    "map_of (dailies (sv_store (sg_server c0))) k = Some d" "map_of (dailies (sv_store (sg_server c))) k = Some d'"
    "map_of (d_submissions d') a \<noteq> map_of (d_submissions d) a"
  shows "\<exists>t rq addr ws. (t, rq) \<in> set log \<and> handled rq = Some (Post_daily_submit (Some (addr, ws))) \<and>
    lower addr = a \<and> k = date_key (t_first t) \<and>
    map_of (d_submissions d') a = Some (counted V (sv_dict s) (d_letters d) t addr ws) \<and>
    passed V P (serving_from s) log c t k addr"
proof -
  have "provenance V P s log c k (d_letters d) a"
    using serves_provenance [OF assms(4,3,2,1,6), of a] assms(5-8) by (simp add: subs_of_known)
  then show ?thesis unfolding provenance_def subs_of_known [OF assms(7)] by blast
qed

section \<open>What is not so\<close>

text \<open>
  What interleaving allows: a submission whose gate saw a free round is counted on the round an admin has
  opened as paid in between, without a word from the chain about its player.
\<close>

theorem gate_race:
  assumes "map_of (dailies (sv_store s)) k = Some d" "\<not> d_paid d"
    "open_section V P now today tok b s = (Show_opened k, s1)"
  shows "task_step V P (Gate t k addr ws) s = Some (Count t k addr ws, s) \<and>
    (\<exists>res s2 d2. task_step V P (Count t k addr ws) s1 = Some (Rank k addr res, s2) \<and>
      map_of (dailies (sv_store s2)) k = Some d2 \<and> d_paid d2 \<and> map_of (d_submissions d2) (lower addr) \<noteq> None)"
proof
  show "task_step V P (Gate t k addr ws) s = Some (Count t k addr ws, s)"
    using assms(1,2) by (simp add: with_round_Some paid_gate_def)
  obtain d1 where d1: "map_of (dailies (sv_store s1)) k = Some d1" "d_paid d1"
    using assms(3) by (cases rule: open_section_cases [of V P now today tok b s])
      (auto simp: OpenPaidDaily_def Let_def update_conv')
  have "d_paid (fst (Daily_Submit P sub (d1, st))) \<and>
      map_of (d_submissions (fst (Daily_Submit P sub (d1, st)))) (lower addr) \<noteq> None" if "sub_address sub = addr" for sub st
    using d1(2) that by (auto simp: Daily_Submit_def Let_def update_conv' split: option.split)
  then show "\<exists>res s2 d2. task_step V P (Count t k addr ws) s1 = Some (Rank k addr res, s2) \<and>
      map_of (dailies (sv_store s2)) k = Some d2 \<and> d_paid d2 \<and> map_of (d_submissions d2) (lower addr) \<noteq> None"
    using store_submit_known [OF d1(1), of P] d1(1) by (simp add: with_round_Some Let_def)
qed


section \<open>Witness\<close>

text \<open>The only submission of a day.\<close>

theorem leaderboard_gated_witness:
  "\<exists>c d' a sub. serves toy_env None (serving_from toy_server) [(toy_time, client toy_submit_request)] c \<and>
    map_of (dailies (sv_store (sg_server c))) (date_key 0) = Some d' \<and> map_of (d_submissions d') a = Some sub \<and>
    passed toy_env None (serving_from toy_server) [(toy_time, client toy_submit_request)] c toy_time (date_key 0)
      (sub_address sub)"
proof -
  have "length (rq_body (client toy_submit_request)) = 32" by code_simp
  then have "length (rq_body (client toy_submit_request)) \<le> bodyLimit" by (simp add: bodyLimit_def)
  moreover have "sendable toy_submit_request" by (simp add: toy_submit_request_def utf8_ascii)
  moreover obtain r s' where r: "Routes toy_env None toy_time toy_submit_request toy_server = Some (r, s')"
    by (fastforce simp: toy_submit_request_def Routes_def)
  ultimately have "serve toy_env None toy_unclean toy_time (client toy_submit_request) toy_server =
      Some (map_option (\<lambda>r. with_cors (json_response r)) r, s')" by (intro toy_served)
  from serves_served [OF this] obtain c where
    c: "serves toy_env None (serving_from toy_server) [(toy_time, client toy_submit_request)] c" "sg_server c = s'"
    by blast
  have "handleDailySubmit toy_env None 0 50 60 (Some (''p2'', [''cat''])) toy_server = (r, s')"
    using r by (simp add: Routes_def toy_submit_request_def toy_time_def)
  from toy_submits [OF this] obtain d' where d': "map_of (dailies (sv_store s')) (date_key 0) = Some d'"
    "d_submissions d' \<noteq> []" by blast
  then obtain a sub where sub: "map_of (d_submissions d') a = Some sub" by (cases "d_submissions d'") fastforce+
  then have ne: "map_of (d_submissions d') a \<noteq> map_of (d_submissions toy_daily) a" by (simp add: toy_daily_def)
  have "map_of (dailies (sv_store (sg_server (serving_from toy_server)))) (date_key 0) = Some toy_daily"
    using toy_round by simp
  from leaderboard_gated [OF case_table_toy mgr_ok_toy idle c(1) _ this d'(1) [folded c(2)] ne]
  obtain t rq addr ws where "(t, rq) \<in> set [(toy_time, client toy_submit_request)]"
    "map_of (d_submissions d') a = Some (counted toy_env (sv_dict toy_server) (d_letters toy_daily) t addr ws)"
    "passed toy_env None (serving_from toy_server) [(toy_time, client toy_submit_request)] c t (date_key 0) addr"
    by auto
  then have "passed toy_env None (serving_from toy_server) [(toy_time, client toy_submit_request)] c toy_time (date_key 0)
      (sub_address sub)" using sub by (simp add: counted_def)
  then show ?thesis using c d'(1) sub by blast
qed

end
