(* ===== verification/Deployment.thy ===== *)
theory Deployment
  imports Concurrent
begin

text \<open>
  The life of a deployment: processes started from \<open>cmd/server/main.go\<close> one after the other on the same
  database, each serving until it is told to stop, fails to listen or is killed between any two
  sections of its requests. The state of the database is that of the last process. Every start has a
  \<open>DATABASE_URL\<close>. The properties are about what survives.
\<close>

section \<open>The end of main\<close>

datatype phase = Serving | Draining | Down

record 'c deployment =
  dp_phase :: phase
  dp_serving :: "('c, DB) serving"

definition database :: "'c deployment \<Rightarrow> DB" where
  "database d = pstate (sv_store (sg_server (dp_serving d)))"

definition launched :: "'c process \<Rightarrow> 'c deployment" where
  "launched p = \<lparr>dp_phase = Serving, dp_serving = serving_from (proc_server p)\<rparr>"

text \<open>
  \<open>ListenAndServe\<close> accepts until it fails, which is fatal, or \<open>Shutdown\<close> is called after a signal; then
  what was accepted goes on until all is answered, or five seconds are over, and \<open>main\<close> returns. Rooms
  and timers go on until the process is down.
\<close>

inductive life_step :: "('c, 'r) env \<Rightarrow> (int \<Rightarrow> int) \<Rightarrow> 'c deployment \<Rightarrow> 'c deployment \<Rightarrow> bool" for V ts d where
  accepts: "dp_phase d = Serving \<Longrightarrow> serve_step V (Some (db_persister ts)) (dp_serving d) (Some r) c \<Longrightarrow>
    life_step V ts d (d\<lparr>dp_serving := c\<rparr>)"
| works: "dp_phase d \<noteq> Down \<Longrightarrow> serve_step V (Some (db_persister ts)) (dp_serving d) None c \<Longrightarrow>
    life_step V ts d (d\<lparr>dp_serving := c\<rparr>)"
| listen_failed: "dp_phase d = Serving \<Longrightarrow> life_step V ts d (d\<lparr>dp_phase := Down\<rparr>)"
| signalled: "dp_phase d = Serving \<Longrightarrow> life_step V ts d (d\<lparr>dp_phase := Draining\<rparr>)"
| drained: "dp_phase d = Draining \<Longrightarrow> sg_flight (dp_serving d) = [] \<Longrightarrow> life_step V ts d (d\<lparr>dp_phase := Down\<rparr>)"
| out_of_time: "dp_phase d = Draining \<Longrightarrow> life_step V ts d (d\<lparr>dp_phase := Down\<rparr>)"
| killed: "life_step V ts d (d\<lparr>dp_phase := Down\<rparr>)"
| restarted: "dp_phase d = Down \<Longrightarrow> getenv ''DATABASE_URL'' \<noteq> [] \<Longrightarrow>
    server_main V ts (\<lambda>_. Ok (database d)) getenv text ch = Ok p \<Longrightarrow> life_step V ts d (launched p)"

abbreviation life_run :: "('c, 'r) env \<Rightarrow> (int \<Rightarrow> int) \<Rightarrow> 'c deployment \<Rightarrow> 'c deployment \<Rightarrow> bool" where
  "life_run V ts \<equiv> (life_step V ts)\<^sup>*\<^sup>*"

text \<open>A process started on a database has that database, no rounds in memory and no rooms.\<close>

lemma started_store:
  assumes "server_main V ts (\<lambda>_. Ok db) getenv text ch = Ok p" "getenv ''DATABASE_URL'' \<noteq> []"
  shows "sv_store (proc_server p) = store_New db" "proc_persist p = Some (db_persister ts)"
    "m_rooms (sv_rooms (proc_server p)) = []" "m_heap (sv_rooms (proc_server p)) = []"
    "m_timers (sv_rooms (proc_server p)) = []"
proof -
  from assms(1) obtain sg c P st w sg' c' where p: "start_store ts (\<lambda>_. Ok db) getenv = Ok (P, st)"
    "proc_persist p = P" "proc_server p = EnableRoomStaking w c' sg'
      (api_New (getenv ''RACE_SECONDS'') (New (e_uc V) text) (NewTrie (AllWords (New (e_uc V) text))) st sg c
        (start_config getenv) ch)"
    by (rule server_main_Ok) blast
  then have "P = Some (db_persister ts)" "st = store_New db"
    using assms(2) by (simp_all add: start_store_def Let_def bind_res_Ok)
  then show "sv_store (proc_server p) = store_New db" "proc_persist p = Some (db_persister ts)"
    "m_rooms (sv_rooms (proc_server p)) = []" "m_heap (sv_rooms (proc_server p)) = []"
    "m_timers (sv_rooms (proc_server p)) = []"
    using p by (simp_all add: EnableRoomStaking_def EnableStaking_def api_New_def NewManager_def)
qed

section \<open>The database only grows\<close>

definition keeps :: "('v \<Rightarrow> 'v \<Rightarrow> bool) \<Rightarrow> ('k \<Rightarrow> 'v option) \<Rightarrow> ('k \<Rightarrow> 'v option) \<Rightarrow> bool" where
  "keeps R m m' \<longleftrightarrow> (\<forall>k v. m k = Some v \<longrightarrow> (\<exists>v'. m' k = Some v' \<and> R v v'))"

lemma keepsD: "keeps R m m' \<Longrightarrow> m k = Some v \<Longrightarrow> \<exists>v'. m' k = Some v' \<and> R v v'"
  by (simp add: keeps_def)

lemma keeps_refl: "reflp R \<Longrightarrow> keeps R m m"
  by (simp add: keeps_def reflpD)

lemma keeps_trans:
  assumes "keeps R a b" "keeps R b c" "transp R"
  shows "keeps R a c"
  unfolding keeps_def
proof (intro allI impI)
  fix k v assume "a k = Some v"
  then obtain w where w: "b k = Some w" "R v w" using keepsD [OF assms(1)] by blast
  then obtain x where "c k = Some x" "R w x" using keepsD [OF assms(2)] by blast
  then show "\<exists>x. c k = Some x \<and> R v x" using w transpD [OF assms(3)] by blast
qed

definition round_le :: "round_row \<Rightarrow> round_row \<Rightarrow> bool" where
  "round_le r r' \<longleftrightarrow> rr_letters r' = rr_letters r \<and> (rr_paid r \<longrightarrow> rr_paid r')"

definition score_le :: "sub_row \<Rightarrow> sub_row \<Rightarrow> bool" where
  "score_le x x' \<longleftrightarrow> sr_score x \<le> sr_score x'"

lemma le_orders: "reflp round_le" "transp round_le" "reflp score_le" "transp score_le"
  by (auto simp: round_le_def score_le_def reflp_def transp_def)

definition db_le :: "DB \<Rightarrow> DB \<Rightarrow> bool" where
  "db_le p p' \<longleftrightarrow> keeps round_le (map_of (daily_rounds p)) (map_of (daily_rounds p')) \<and>
    keeps score_le (map_of (daily_submissions p)) (map_of (daily_submissions p'))"

lemma db_le_refl: "db_le p p"
  by (simp add: db_le_def keeps_refl le_orders)

lemma db_le_trans: "db_le a b \<Longrightarrow> db_le b c \<Longrightarrow> db_le a c"
  using keeps_trans [OF _ _ le_orders(2)] keeps_trans [OF _ _ le_orders(4)] by (simp add: db_le_def) blast

lemma db_le_same: "daily_rounds p' = daily_rounds p \<Longrightarrow> daily_submissions p' = daily_submissions p \<Longrightarrow> db_le p p'"
  by (simp add: db_le_def keeps_refl le_orders)

lemma db_le_exec: "(\<And>db. db_le db (f db)) \<Longrightarrow> db_le p (exec f p)"
proof -
  assume f: "\<And>db. db_le db (f db)"
  have s: "db_le p (p\<lparr>stmt := Suc (stmt p)\<rparr>)" by (rule db_le_same) simp_all
  from db_le_trans [OF s f] s show ?thesis by (simp add: exec_def Let_def)
qed

lemma db_le_round: "db_le p (db_UpsertDailyRound ts k l True rid et p)"
  unfolding db_UpsertDailyRound_def Let_def
  by (rule db_le_exec) (auto simp: db_le_def keeps_def round_le_def score_le_def update_conv' split: option.split)

lemma db_le_sub: "db_le p (db_UpsertSubmission ts k sub p)"
  unfolding db_UpsertSubmission_def Let_def
  by (rule db_le_exec) (auto simp: db_le_def keeps_def round_le_def score_le_def update_conv' split: option.split)

lemma db_le_recover: "db_le p (snd (recover_daily (Some (db_persister ts)) k p))"
  by (rule db_le_same)
    (simp_all add: recover_daily_def db_persister_def db_LoadDailyRound_def db_LoadSubmissions_def Let_def
      split: option.split prod.split)

lemma db_le_act: "db_le (pstate st) (pstate (run_act (Some (db_persister ts)) L S a st))"
proof (cases a)
  case (Fetch k)
  obtain d p where r: "recover_daily (Some (db_persister ts)) k (pstate st) = (d, p)" by fastforce
  then have "db_le (pstate st) p" using db_le_recover [of "pstate st" ts k] by simp
  then show ?thesis
    by (cases "map_of (dailies st) k")
      (auto simp: Fetch GetOrCreate_existing GetOrCreate_new [OF _ r] db_le_refl split: res.split)
next
  case (Open_round k rid et)
  then show ?thesis
    by (simp add: OpenPaidDaily_def Let_def db_persister_def db_le_round db_le_refl split: res.split)
next
  case List_paid
  then show ?thesis
    by (simp add: ListPaidDailies_def db_persister_def db_ListPaidDailyRounds_def Let_def db_le_same)
next
  case (Play k addr ws tm)
  then show ?thesis
    by (auto simp: play_def store_submit_def Daily_Submit_def Let_def db_persister_def db_le_sub db_le_refl
        split: option.split prod.split)
qed

lemma db_le_logs:
  assumes "logs V (Some (db_persister ts)) Q s s'"
  shows "db_le (pstate (sv_store s)) (pstate (sv_store s'))"
proof -
  have "db_le (pstate st) (pstate (fold (journal V (Some (db_persister ts)) s) acts st))" for acts st
  proof (induction acts arbitrary: st)
    case (Cons a acts)
    have "db_le (pstate st) (pstate (journal V (Some (db_persister ts)) s a st))"
      unfolding journal_def by (rule db_le_act)
    then show ?case unfolding fold_Cons comp_apply using Cons.IH by (rule db_le_trans)
  qed (simp add: db_le_refl)
  then show ?thesis using assms by (auto simp: logs_def)
qed

lemma db_le_serve_step:
  assumes "serve_step V (Some (db_persister ts)) c l c'"
  shows "db_le (pstate (sv_store (sg_server c))) (pstate (sv_store (sg_server c')))"
  using assms
proof cases
  case (goes_on i r task task' s)
  then show ?thesis using db_le_logs [OF section_logs [OF goes_on(5)]] by simp
qed (simp_all add: db_le_refl)

lemma db_le_step:
  assumes "life_step V ts d d'"
  shows "db_le (database d) (database d')"
  using assms
proof (cases rule: life_step.cases)
  case (restarted env words ch p)
  then show ?thesis by (simp add: database_def launched_def started_store(1) store_New_def db_le_refl)
qed (simp_all add: database_def db_le_refl db_le_serve_step)

text \<open>
  C36: over any number of processes, stopped, crashed or killed at any point, with any requests and
  timers between, in any order of their sections, and statements failing at any time, the
  database loses nothing: a round keeps its letters and stays paid, and no stored score of a player
  is dropped or lowered.
\<close>

theorem database_keeps_scores:
  assumes "life_run V ts d d'"
  shows "(\<forall>k r. map_of (daily_rounds (database d)) k = Some r \<longrightarrow>
      (\<exists>r'. map_of (daily_rounds (database d')) k = Some r' \<and> rr_letters r' = rr_letters r \<and> (rr_paid r \<longrightarrow> rr_paid r'))) \<and>
    (\<forall>k a x. map_of (daily_submissions (database d)) (k, a) = Some x \<longrightarrow>
      (\<exists>x'. map_of (daily_submissions (database d')) (k, a) = Some x' \<and> sr_score x \<le> sr_score x'))"
proof -
  have "db_le (database d) (database d')"
    using assms by (induction rule: rtranclp_induct) (auto intro: db_le_refl db_le_trans db_le_step)
  then show ?thesis by (simp add: db_le_def keeps_def round_le_def score_le_def)
qed

section \<open>Memory and database agree\<close>

definition racks_ok :: "'p Store \<Rightarrow> bool" where
  "racks_ok st \<longleftrightarrow> (\<forall>k d. map_of (dailies st) k = Some d \<longrightarrow> all_AZ (d_letters d) \<and> length (d_letters d) \<le> 500)"

lemma racks_ok_New [simp]: "racks_ok (store_New p)"
  by (simp add: racks_ok_def store_New_def)

lemma racks_ok_update:
  "racks_ok st \<Longrightarrow> all_AZ (d_letters d) \<Longrightarrow> length (d_letters d) \<le> 500 \<Longrightarrow>
    racks_ok (st\<lparr>dailies := AList.update k d (dailies st), pstate := p\<rparr>)"
  by (auto simp: racks_ok_def update_conv')

text \<open>The submissions the database is made for: addresses as the database spells them, of which a body holds few.\<close>

definition polite :: "daily_act \<Rightarrow> bool" where
  "polite a \<longleftrightarrow> (case a of Play k addr ws tm \<Rightarrow> lower addr = addr \<and> length ws \<le> bodyLimit | _ \<Rightarrow> True)"

lemma synced_Fetch:
  assumes "pg.sync ts st" "racks_ok st" "\<And>l. gen = Ok l \<Longrightarrow> all_AZ l \<and> length l \<le> 500"
  shows "racks_ok (snd (GetOrCreateDaily (Some (db_persister ts)) k gen st))"
proof (cases "map_of (dailies st) k")
  case None
  have "db_rounds (pstate st) k = None" using pg.sync_none [OF assms(1) None] by simp
  from pg.recover_unknown [OF pg.sync_ok [OF assms(1)] this] obtain p where
    r: "recover_daily (Some (db_persister ts)) k (pstate st) = (blank_daily k [], p)" by blast
  have b: "d_letters (blank_daily k []) = []" by (simp add: blank_daily_def)
  show ?thesis
  proof (cases gen)
    case (Ok l)
    then have "racks_ok (st\<lparr>dailies := AList.update k ((blank_daily k [])\<lparr>d_letters := l\<rparr>) (dailies st), pstate := p\<rparr>)"
      by (intro racks_ok_update [OF assms(2)]) (simp_all add: assms(3))
    then show ?thesis by (simp add: GetOrCreate_new [OF None r] b Ok)
  qed (use assms(2) in \<open>simp_all add: GetOrCreate_new [OF None r] b racks_ok_def\<close>)
qed (simp add: GetOrCreate_existing assms(2))

lemma synced_Open:
  assumes "racks_ok st" "all_AZ l" "length l \<le> 500"
  shows "racks_ok (snd (OpenPaidDaily P k rid et l st))"
proof (cases "map_of (dailies st) k")
  case None
  then show ?thesis using assms
    by (simp add: OpenPaidDaily_def Let_def racks_ok_update) (simp add: racks_ok_update blank_daily_def)
next
  case (Some d)
  then have "all_AZ (d_letters d)" "length (d_letters d) \<le> 500" using assms(1) by (auto simp: racks_ok_def)
  then show ?thesis using Some assms(1) by (simp add: OpenPaidDaily_def Let_def racks_ok_update)
qed

lemma synced_Submit:
  assumes "racks_ok st"
  shows "racks_ok (store_submit P k sub st)"
proof (cases "map_of (dailies st) k")
  case (Some d)
  obtain d' p where dp: "Daily_Submit P sub (d, pstate st) = (d', p)" by fastforce
  then have "d_letters d' = d_letters d" using Daily_Submit_fst [of P sub d "pstate st"] by simp
  then have "all_AZ (d_letters d')" "length (d_letters d') \<le> 500" using assms Some by (auto simp: racks_ok_def)
  then show ?thesis using assms Some dp by (simp add: store_submit_def racks_ok_update)
qed (simp add: store_submit_def assms)

lemma synced_act:
  assumes "pg.sync ts st" "racks_ok st" "\<And>k l. L k = Ok l \<Longrightarrow> all_AZ l \<and> length l \<le> 500" "polite a"
  shows "pg.sync ts (run_act (Some (db_persister ts)) L (Score uc dict) a st) \<and>
    racks_ok (run_act (Some (db_persister ts)) L (Score uc dict) a st)"
proof (cases a)
  case (Fetch k)
  then show ?thesis using pg.sync_GetOrCreate [OF assms(1)] synced_Fetch [OF assms(1,2)] assms(3) by simp
next
  case (Open_round k rid et)
  then show ?thesis using pg.sync_OpenPaid [OF assms(1)] synced_Open [OF assms(2)] assms
    by (simp split: res.split)
next
  case List_paid
  have "pg.sync ts (st\<lparr>pstate := (pstate st)\<lparr>stmt := Suc (stmt (pstate st))\<rparr>\<rparr>)"
    using pg.sync_ok [OF assms(1)] by (intro pg.sync_pstate [OF assms(1)]) simp_all
  then show ?thesis using assms(2)
    by (simp add: List_paid ListPaidDailies_def db_persister_def db_ListPaidDailyRounds_def Let_def racks_ok_def)
next
  case (Play k addr ws tm)
  show ?thesis
  proof (cases "map_of (dailies st) k")
    case (Some d)
    then have "all_AZ (d_letters d)" "length (d_letters d) \<le> 500" using assms(2) by (auto simp: racks_ok_def)
    moreover have ws: "length ws \<le> bodyLimit" "lower addr = addr" using assms(4) by (simp_all add: polite_def Play)
    ultimately have "fits_int4 \<lparr>sub_address = addr, sub_score = total (Score uc dict (d_letters d) ws),
        sub_words = int (length (accepted (Score uc dict (d_letters d) ws))), sub_at = tm\<rparr>"
      using scores_fit [of ws "d_letters d" uc dict] by (simp add: fits_int4_def)
    then show ?thesis using Some ws(2) pg.sync_submit [OF assms(1)] synced_Submit [OF assms(2)]
      by (simp add: Play play_def)
  qed (simp add: Play play_def assms(1,2))
qed

lemma synced_acts:
  assumes "pg.sync ts st" "racks_ok st" "\<And>k l. L k = Ok l \<Longrightarrow> all_AZ l \<and> length l \<le> 500"
    "list_all polite acts"
  shows "pg.sync ts (fold (run_act (Some (db_persister ts)) L (Score uc dict)) acts st)"
  using assms(1,2,4)
proof (induction acts arbitrary: st)
  case (Cons a acts)
  then show ?case using synced_act [OF Cons.prems(1,2) assms(3), where a = a and uc = uc and dict = dict] by simp
qed simp

lemma gen_letters_small:
  assumes "externals_ok V" "server_ok V s" "DailyRackSize (sv_cfg s) \<le> 500" "gen_letters V k s = Ok l"
  shows "all_AZ l \<and> length l \<le> 500"
proof -
  have ok: "dict_ok (sv_dict s)" "rng_ok (e_rng V)" "2 \<le> DailyRackSize (sv_cfg s)"
    using assms(1,2) by (simp_all add: externals_ok_def server_ok_def)
  obtain ls res r' where "\<forall>l \<in> set ls. int (length l) = DailyRackSize (sv_cfg s) \<and> all_AZ l"
    "rk_letters res \<in> insert [] (set ls)" "generate (e_uc V) (e_rng V) (sv_dict s) (DailyRackSize (sv_cfg s))
      (new_source (e_rng V) (date_seed k)) = Some (res, r')"
    by (rule generate_cases [OF ok])
  then show ?thesis using assms(3,4) by (force simp: gen_letters_def GenerateDaily_def)
qed

lemma find_handler_submit:
  assumes "find_handler rq = Some (Post_daily_submit b)"
  shows "b = decode_daily (rq_body rq)"
proof -
  obtain m ps f ms where "(m, ps, f) \<in> set routes" "f rq ms = Post_daily_submit b"
    using assms by (auto simp: find_handler_def Let_def split: option.splits if_splits dest!: find_route_mem)
  then show ?thesis by (auto simp: routes_def)
qed

text \<open>A request that, if it submits words, spells the address in lower case.\<close>

definition polite_request :: "http_request \<Rightarrow> bool" where
  "polite_request rq \<longleftrightarrow>
    (case find_handler rq of Some (Post_daily_submit (Some (addr, ws))) \<Rightarrow> lower addr = addr | _ \<Rightarrow> True)"

lemma polite_requested:
  assumes "requested log a" "\<forall>(t, rq) \<in> set log. polite_request rq"
  shows "polite a"
proof (cases a)
  case (Play k addr ws tm)
  obtain t rq req where r: "(t, rq) \<in> set log" "handled rq = Some req" "acts_of t req a"
    using assms(1) by (auto simp: requested_def)
  then have h: "find_handler rq = Some req" by (simp add: handled_def split: if_splits)
  have "req = Post_daily_submit (Some (addr, ws))"
    using r(3) Play by (cases "(t, req, a)" rule: acts_of.cases) auto
  moreover from this have "length ws \<le> bodyLimit"
    using find_handler_submit [of rq "Some (addr, ws)"] h decode_daily_length by metis
  ultimately show ?thesis using assms(2) r(1) h by (auto simp: polite_request_def polite_def Play)
qed (simp_all add: polite_def)

section \<open>Properties of restarts\<close>

lemma serves_synced:
  assumes "externals_ok V" "server_main V ts (\<lambda>_. Ok (empty_db (\<lambda>_. Done))) getenv txt ch = Ok p"
    "getenv ''DATABASE_URL'' \<noteq> []" "envInt getenv ''DAILY_RACK_SIZE'' 6 \<in> {2..500}"
    "serves V (proc_persist p) (serving_from (proc_server p)) log c" "\<forall>(t, rq) \<in> set log. polite_request rq"
  shows "pg.sync ts (sv_store (sg_server c))"
proof -
  have ok: "server_ok V (proc_server p)" using assms(4) by (intro server_main_ok [OF assms(2)]) simp
  have ct: "case_table (e_uc V)" using assms(1) by (simp add: externals_ok_def)
  have mgr: "mgr_ok (e_uc V) (sv_rooms (proc_server p))" using ok by (simp add: server_ok_def)
  note st = started_store [OF assms(2,3)]
  have "DailyRackSize (sv_cfg (proc_server p)) \<le> 500" using assms(2,4)
    by (auto elim!: server_main_Ok simp: EnableRoomStaking_def api_New_def start_config_def default_size_def)
  note small = gen_letters_small [OF assms(1) ok this]
  obtain acts where as: "list_all (requested log) acts" "sv_store (sg_server c) =
      fold (journal V (Some (db_persister ts)) (proc_server p)) acts (sv_store (proc_server p))"
    using serves_logs [OF assms(5) mgr ct] unfolding st(2) logs_def by blast
  have pol: "list_all polite acts" using as(1) polite_requested [OF _ assms(6)] by (auto simp: list_all_iff)
  have "pg.sync ts (sv_store (proc_server p))" unfolding st(1) by (rule sync_empty)
  from synced_acts [OF this _ small pol] show ?thesis
    unfolding as(2) journal_def by (simp add: st(1))
qed

text \<open>
  C17: a restart does not change a paid round's leaderboard: after any sections of any requests and timers
  of a process on a working database, with addresses in lower case, the next process answers the request for the
  leaderboard of a paid date with the bytes the first one answers it with, when the times the
  database stores still order players with equal scores.
\<close>

theorem restart_keeps_leaderboard:
  assumes "externals_ok V" "server_main V ts (\<lambda>_. Ok (empty_db (\<lambda>_. Done))) getenv txt ch = Ok p"
    "getenv ''DATABASE_URL'' \<noteq> []" "envInt getenv ''DAILY_RACK_SIZE'' 6 \<in> {2..500}"
    and run: "serves V (proc_persist p) (serving_from (proc_server p)) log c" "s = sg_server c"
      "\<forall>(t, rq) \<in> set log. polite_request rq"
    and round: "map_of (dailies (sv_store s)) k = Some d" "d_paid d" "k \<noteq> []"
    and times: "mono ts" "inj_on (\<lambda>sub. (sub_score sub, ts (sub_at sub))) (ran (map_of (d_submissions d)))"
    and next_process: "server_main V ts (\<lambda>_. Ok (pstate (sv_store s))) getenv' txt' ch' = Ok p'"
    "getenv' ''DATABASE_URL'' \<noteq> []" "envInt getenv' ''DAILY_RACK_SIZE'' 6 \<in> {2..500}"
  shows "\<exists>r s1 s1'. rs_status r = 200 \<and>
    serve V (proc_persist p) unclean t (client (Get_leaderboard k)) s = Some (Some r, s1) \<and>
    serve V (proc_persist p') unclean t' (client (Get_leaderboard k)) (proc_server p') = Some (Some r, s1')"
proof -
  note sync = serves_synced [OF assms(1-4) run(1,3), folded run(2)]
  let ?rep = "\<lambda>d. (200, JMap [(''dateKey'', JStr (d_dateKey d)), (''leaderboard'', JArr (map jentry (Leaderboard d)))])"
  have ok: "server_ok V (proc_server p')"
    using next_process(3) by (intro server_main_ok [OF next_process(1)]) simp
  obtain l where l: "gen_letters V k (proc_server p') = Ok l" using server_ok_letters [OF assms(1) ok] by blast
  obtain d' st' where d': "GetOrCreateDaily (Some (db_persister ts)) k (Ok l) (store_New (pstate (sv_store s))) = (Ok d', st')"
    "daily_ok k d'" "\<forall>a. map_of (d_submissions d') a = map_option (pg.stored ts) (map_of (d_submissions d) a)"
    using pg.restart_recovers [OF sync round(1,2), of "Ok l" l] by blast
  have dk: "daily_ok k d" using pg.sync_get [OF sync round(1)] by (simp add: pg.daily_sync_def)
  have "pg.stored ts = (\<lambda>sub. sub\<lparr>sub_at := ts (sub_at sub)\<rparr>)" by (rule ext) (rule pg.stored_def)
  then have "Leaderboard d' = Leaderboard d"
    using dk d'(2,3) by (intro Leaderboard_restored [OF _ _ _ times]) (simp_all add: daily_ok_def)
  then have rep: "?rep d' = ?rep d" using dk d'(2) by (simp add: daily_ok_def)
  have "Routes V (proc_persist p) t (Get_leaderboard k) s = Some (Some (?rep d), s)"
    using round by (simp add: Routes_def handleLeaderboard_def get_daily_def GetOrCreate_existing)
  moreover have "Routes V (proc_persist p') t' (Get_leaderboard k) (proc_server p') =
      Some (Some (?rep d'), (proc_server p')\<lparr>sv_store := st'\<rparr>)"
    using round(3) d'(1) l started_store(1,2) [OF next_process(1,2)]
    by (simp add: Routes_def handleLeaderboard_def get_daily_def)
  moreover have "find_handler (client (Get_leaderboard k)) = Some (Get_leaderboard k)"
    by (rule client_found) (simp_all add: get_rq_def)
  moreover have "is_clean (rq_path (client (Get_leaderboard k)))" by (rule client_clean) simp
  ultimately show ?thesis using rep
    by (simp add: serve_routed get_rq_def) (simp add: with_cors_def json_response_def)
qed

section \<open>Witnesses\<close>

text \<open>An environment with a database and an admin token, and a process started from it without any words.\<close>

definition toy_vars :: "string \<Rightarrow> string" where
  "toy_vars k = (if k = ''DATABASE_URL'' then ''db'' else if k = ''ADMIN_TOKEN'' then ''tok'' else [])"

lemma toy_start:
  obtains p where "server_main toy_env (\<lambda>t. t) (\<lambda>_. Ok db) toy_vars [] () = Ok p"
    "AdminToken (sv_cfg (proc_server p)) = ''tok''"
  by (simp add: server_main_def start_signer_def start_chain_def start_store_def start_writer_def Let_def
      toy_vars_def start_config_def api_New_def)

lemma toy_vars_simps: "toy_vars ''DATABASE_URL'' \<noteq> []" "envInt toy_vars ''DAILY_RACK_SIZE'' 6 \<in> {2..500}"
  by (simp_all add: toy_vars_def envInt_def)

theorem database_keeps_scores_witness:
  "\<exists>d d' x. life_run toy_env (\<lambda>t. t) d d' \<and> dp_phase d' = Serving \<and> d' \<noteq> d \<and>
    map_of (daily_submissions (database d')) (''d'', ''a'') = Some x \<and> 7 \<le> sr_score x"
proof -
  obtain p where p: "server_main toy_env (\<lambda>t. t) (\<lambda>_. Ok (pstate sample_store)) toy_vars [] () = Ok p"
    by (rule toy_start)
  let ?fl = "[((toy_time, get_rq ''/health'' [] []), Begin toy_time Get_health)]"
  let ?d = "(launched p)\<lparr>dp_serving := (serving_from (proc_server p))\<lparr>sg_flight := ?fl\<rparr>\<rparr>"
  let ?down = "?d\<lparr>dp_phase := Down\<rparr>"
  have db: "database ?d = pstate sample_store" "database ?down = pstate sample_store"
    by (simp_all add: database_def launched_def started_store(1) [OF p toy_vars_simps(1)] store_New_def)
  have "life_step toy_env (\<lambda>t. t) ?d ?down"
    using killed [of toy_env "\<lambda>t. t" ?d] by simp
  moreover have "life_step toy_env (\<lambda>t. t) ?down (launched p)"
    using p by (intro restarted [of _ toy_vars _ _ "[]" "()"]) (simp_all add: db toy_vars_simps)
  ultimately have run: "life_run toy_env (\<lambda>t. t) ?d (launched p)"
    by (meson converse_rtranclp_into_rtranclp rtranclp.rtrancl_refl)
  have "map_of (daily_submissions (pstate sample_store)) (''d'', ''a'') =
      Some \<lparr>sr_score = 7, sr_words = 2, sr_submitted_at = 5\<rparr>"
    unfolding sample_store_def by code_simp
  then obtain x where "map_of (daily_submissions (database (launched p))) (''d'', ''a'') = Some x" "7 \<le> sr_score x"
    using database_keeps_scores [OF run] by (fastforce simp: db)
  moreover have "dp_phase (launched p) = Serving" "launched p \<noteq> ?d"
    by (simp_all add: launched_def serving_from_def)
  ultimately show ?thesis using run by blast
qed

text \<open>A player without words plays the first day, and an admin then opens it as a paid round.\<close>

definition toy_empty_submit :: request where
  "toy_empty_submit = Post_daily_submit (Some (''a'', []))"

definition toy_open :: request where
  "toy_open = Post_daily_open ''tok'' (Some (''9'', 0, []))"

definition toy_log :: "(reading \<times> http_request) list" where
  "toy_log = [(toy_time, client toy_empty_submit), (toy_time, client toy_open)]"

definition toy_played :: "string \<Rightarrow> Daily" where
  "toy_played l = \<lparr>d_dateKey = date_key 0, d_letters = l, d_paid = True, d_roundID = ''9'', d_endTime = unix_time 0,
    d_submissions = [(''a'', \<lparr>sub_address = ''a'', sub_score = 0, sub_words = 0, sub_at = 60\<rparr>)]\<rparr>"

lemma toy_requests:
  "find_handler (client toy_empty_submit) = Some toy_empty_submit" "find_handler (client toy_open) = Some toy_open"
  "is_clean (rq_path (client toy_empty_submit))" "is_clean (rq_path (client toy_open))"
  "rq_method (client toy_empty_submit) = ''POST''" "rq_method (client toy_open) = ''POST''"
proof -
  have s: "sendable toy_empty_submit" "sendable toy_open"
    by (simp_all add: toy_empty_submit_def toy_open_def utf8_ascii)
  have "length (rq_body (client toy_empty_submit)) = 26" "length (rq_body (client toy_open)) = 40"
    by code_simp+
  then have "length (rq_body (client toy_empty_submit)) \<le> bodyLimit" "length (rq_body (client toy_open)) \<le> bodyLimit"
    by (simp_all add: bodyLimit_def)
  then show "find_handler (client toy_empty_submit) = Some toy_empty_submit" "find_handler (client toy_open) = Some toy_open"
    using s client_found by blast+
  show "is_clean (rq_path (client toy_empty_submit))" "is_clean (rq_path (client toy_open))"
    using s client_clean by blast+
qed (simp_all add: toy_empty_submit_def toy_open_def post_rq_def)

lemma toy_plays:
  assumes "sv_store s = store_New (empty_db (\<lambda>_. Done))" "gen_letters toy_env (date_key 0) s = Ok l"
  shows "\<exists>r s'. Routes toy_env (Some (db_persister (\<lambda>t. t))) toy_time toy_empty_submit s = Some (Some r, s') \<and>
    dailies (sv_store s') = [(date_key 0, (toy_played l)\<lparr>d_paid := False, d_roundID := [], d_endTime := 0\<rparr>)] \<and>
    gen_letters toy_env (date_key 0) s' = Ok l \<and> sv_cfg s' = sv_cfg s"
proof -
  let ?P = "Some (db_persister (\<lambda>t. t))" and ?d = "(blank_daily (date_key 0) [])\<lparr>d_letters := l\<rparr>"
  let ?sub = "\<lparr>sub_address = ''a'', sub_score = 0, sub_words = 0, sub_at = 60\<rparr>"
  obtain st1 where g: "GetOrCreateDaily ?P (date_key 0) (Ok l) (sv_store s) = (Ok ?d, st1)"
    "dailies st1 = [(date_key 0, ?d)]"
    by (auto simp: assms(1) GetOrCreateDaily_def store_New_def recover_daily_def db_persister_def
        db_LoadDailyRound_def empty_db_def blank_daily_def Let_def)
  let ?s' = "s\<lparr>sv_store := store_submit ?P (date_key 0) ?sub st1\<rparr>"
  have "get_daily toy_env ?P (date_key 0) s = (Some ?d, s\<lparr>sv_store := st1\<rparr>)"
    using g(1) assms(2) by (simp add: get_daily_def)
  then have "\<exists>r. handleDailySubmit toy_env ?P 0 50 60 (Some (''a'', [])) s = (Some r, ?s')"
    by (simp add: handleDailySubmit_def toy_env_def paid_gate_def blank_daily_def Score_def Let_def)
  moreover have "dailies (sv_store ?s') =
      [(date_key 0, (toy_played l)\<lparr>d_paid := False, d_roundID := [], d_endTime := 0\<rparr>)]"
    by (simp add: store_submit_def g(2) Daily_Submit_def blank_daily_def toy_played_def lower_A Let_def)
  moreover have "gen_letters toy_env (date_key 0) ?s' = Ok l" using assms(2) by (simp add: gen_letters_def)
  ultimately show ?thesis
    by (auto simp: Routes_def toy_empty_submit_def toy_time_def intro!: exI [of _ ?s'])
qed

lemma toy_opens:
  assumes "dailies (sv_store s) = [(date_key 0, (toy_played l)\<lparr>d_paid := False, d_roundID := [], d_endTime := 0\<rparr>)]"
    "gen_letters toy_env (date_key 0) s = Ok l" "AdminToken (sv_cfg s) = ''tok''"
  shows "\<exists>r s'. Routes toy_env P toy_time toy_open s = Some (Some r, s') \<and>
    dailies (sv_store s') = [(date_key 0, toy_played l)]"
proof -
  have "unix_secs 0 < 0" "date_key 50 = date_key 0" by code_simp+
  then show ?thesis using assms
    by (auto simp: Routes_def toy_open_def handleOpenDaily_def adminOK_def toy_numbers toy_time_def
        OpenPaidDaily_def toy_played_def Let_def)
qed

lemma toy_day:
  assumes "server_main toy_env (\<lambda>t. t) (\<lambda>_. Ok (empty_db (\<lambda>_. Done))) toy_vars [] () = Ok p"
    "AdminToken (sv_cfg (proc_server p)) = ''tok''"
  shows "\<exists>l c. serves toy_env (proc_persist p) (serving_from (proc_server p)) toy_log c \<and>
    map_of (dailies (sv_store (sg_server c))) (date_key 0) = Some (toy_played l)"
proof -
  let ?P = "Some (db_persister (\<lambda>t. t))"
  note st = started_store [OF assms(1) toy_vars_simps(1)]
  have ok: "server_ok toy_env (proc_server p)" using toy_vars_simps(2) by (intro server_main_ok [OF assms(1)]) simp
  obtain l where l: "gen_letters toy_env (date_key 0) (proc_server p) = Ok l"
    using server_ok_letters [OF externals_ok_toy(1) ok] by blast
  obtain r1 s1 where r1: "Routes toy_env ?P toy_time toy_empty_submit (proc_server p) = Some (Some r1, s1)"
    "dailies (sv_store s1) = [(date_key 0, (toy_played l)\<lparr>d_paid := False, d_roundID := [], d_endTime := 0\<rparr>)]"
    "gen_letters toy_env (date_key 0) s1 = Ok l" "sv_cfg s1 = sv_cfg (proc_server p)"
    using toy_plays [OF st(1) l] by blast
  obtain r2 s2 where r2: "Routes toy_env ?P toy_time toy_open s1 = Some (Some r2, s2)"
    "dailies (sv_store s2) = [(date_key 0, toy_played l)]"
    using toy_opens [OF r1(2,3), of ?P] assms(2) r1(4) by auto
  note sr = serve_routed [OF toy_requests(1,3)] serve_routed [OF toy_requests(2,4)]
  have "serve toy_env ?P toy_unclean toy_time (client toy_empty_submit) (proc_server p) =
      Some (Some (with_cors (json_response r1)), s1)"
    "serve toy_env ?P toy_unclean toy_time (client toy_open) s1 = Some (Some (with_cors (json_response r2)), s2)"
    using r1(1) r2(1) by (simp_all add: sr toy_requests)
  from serves_serve [OF serves_serve [OF idle [of toy_env ?P "serving_from (proc_server p)", unfolded serving_from_def]
      this(1)] this(2)]
  have "serves toy_env ?P (serving_from (proc_server p)) toy_log (serving_from s2)"
    by (simp add: toy_log_def serving_from_def)
  then show ?thesis using r2(2) by (intro exI [of _ l] exI [of _ "serving_from s2"]) (simp add: st(2))
qed

theorem restart_keeps_leaderboard_witness:
  "\<exists>(p :: unit process) c p' r s1 s1'. serves toy_env (proc_persist p) (serving_from (proc_server p)) toy_log c \<and>
    server_main toy_env (\<lambda>t. t) (\<lambda>_. Ok (pstate (sv_store (sg_server c)))) toy_vars [] () = Ok p' \<and>
    serve toy_env (proc_persist p) toy_unclean toy_time (client (Get_leaderboard (date_key 0))) (sg_server c) =
      Some (Some r, s1) \<and>
    serve toy_env (proc_persist p') toy_unclean toy_time (client (Get_leaderboard (date_key 0))) (proc_server p') =
      Some (Some r, s1')"
proof -
  obtain p where p: "server_main toy_env (\<lambda>t. t) (\<lambda>_. Ok (empty_db (\<lambda>_. Done))) toy_vars [] () = Ok p"
    "AdminToken (sv_cfg (proc_server p)) = ''tok''" by (rule toy_start)
  obtain l c where c: "serves toy_env (proc_persist p) (serving_from (proc_server p)) toy_log c"
    "map_of (dailies (sv_store (sg_server c))) (date_key 0) = Some (toy_played l)" using toy_day [OF p] by blast
  obtain p' where p': "server_main toy_env (\<lambda>t. t) (\<lambda>_. Ok (pstate (sv_store (sg_server c)))) toy_vars [] () = Ok p'"
    by (rule toy_start)
  have polite: "\<forall>(t, rq) \<in> set toy_log. polite_request rq"
    by (simp add: toy_log_def polite_request_def toy_requests) (simp add: toy_empty_submit_def toy_open_def lower_A)
  have inj: "inj_on (\<lambda>sub. (sub_score sub, sub_at sub)) (ran (map_of (d_submissions (toy_played l))))"
    by (auto simp: toy_played_def inj_on_def ran_def split: if_splits)
  have k: "date_key 0 \<noteq> []" "d_paid (toy_played l)" by (simp_all add: today_0 toy_played_def)
  have "mono (\<lambda>t::int. t)" by (simp add: mono_def)
  from restart_keeps_leaderboard [OF externals_ok_toy(1) p(1) toy_vars_simps c(1) refl polite c(2) k(2,1) this inj
      p' toy_vars_simps, where unclean = toy_unclean and t = toy_time and t' = toy_time]
  obtain r s1 s1' where
    "serve toy_env (proc_persist p) toy_unclean toy_time (client (Get_leaderboard (date_key 0))) (sg_server c) =
      Some (Some r, s1)"
    "serve toy_env (proc_persist p') toy_unclean toy_time (client (Get_leaderboard (date_key 0))) (proc_server p') =
      Some (Some r, s1')" by blast
  with c(1) p' show ?thesis by blast
qed

theorem daily_scores_fit_witness:
  "int4 (total (Score (\<lambda>r. r) (NewFromWords (\<lambda>r. r) [''cat'']) ''CATS'' []))"
proof -
  have "decode_daily (rq_body (client toy_empty_submit)) = Some (''a'', [])"
    using find_handler_submit toy_requests(1) by (metis toy_empty_submit_def)
  moreover have "all_AZ ''CATS''" by simp
  ultimately show ?thesis using daily_scores_fit [of _ "''a''" "[]" "''CATS''"] by simp
qed

end
