(* ===== verification/Spec2Isabelle.thy ===== *)
theory Spec2Isabelle
  imports Go_Strings Dictionary Game Trie Solve Rand Rack Grid Numbers Store Db Chain Signer
    Room Room_Invariant Room_Properties Json Bodies Api Api_Invariant Api_Total Api_Properties
    Settlement Server
    Http Http_Client Http_Properties Body_Types Daily_Game Tasks Sections Concurrent Gated Deployment
begin

text \<open>
  The WordBreak backend (module \<open>github.com/wordbreak/backend\<close>): a word game played over HTTP, with
  free solo games, a daily round that can be paid for on chain, and multiplayer rooms that can
  be staked on chain. This development models its packages, each in a theory of its own.

  \<^bold>\<open>Theories and sources.\<close>
  \<^item> \<open>Prelude\<close>: results (\<open>Ok\<close>, \<open>Err\<close>, \<open>Panic\<close>), Go maps as association lists with one entry per key
    (their order stands for the order in which the map is visited), \<open>sort.Slice\<close>; locales
    \<open>go_map\<close>, \<open>weak_order\<close>, \<open>key_order\<close>.
  \<^item> \<open>Go_Strings\<close>: strings as bytes, runes by UTF-8 decoding, \<open>strings.ToUpper\<close>, \<open>TrimSpace\<close>.
  \<^item> \<open>Dictionary\<close> (\<open>internal/dictionary/dictionary.go\<close>): loading, \<open>Contains\<close>, \<open>FindWords\<close>.
  \<^item> \<open>Game\<close> (\<open>internal/game/score.go\<close>): \<open>Score\<close>, \<open>WordPoints\<close>.
  \<^item> \<open>Trie\<close>, \<open>Solve\<close>, \<open>Grid\<close> (\<open>internal/grid\<close>): the slice-backed trie, the board solver with its
    64-bit mask of used cells, board generation.
  \<^item> \<open>Rand\<close>, \<open>Rack\<close> (\<open>internal/rack/rack.go\<close>): draws, shuffles, the date hash, rack generation.
  \<^item> \<open>Numbers\<close>: decimal strings of big integers and UTC dates as the handlers use them.
  \<^item> \<open>Store\<close>, \<open>Db\<close> (\<open>internal/store/store.go\<close>, \<open>internal/db/db.go\<close>): the daily rounds, the
    leaderboard, and the Postgres tables behind the store.
  \<^item> \<open>Chain\<close>, \<open>Signer\<close> (\<open>internal/chain\<close>, \<open>internal/signer/signer.go\<close>): contract calls,
    transactions, and the referee's settlement signature.
  \<^item> \<open>Room\<close>, \<open>Room_Invariant\<close>, \<open>Room_Properties\<close> (\<open>internal/room/room.go\<close>): rooms, races, stakes
    and settlement; the step relation and its invariant; the properties.
  \<^item> \<open>Api\<close> (\<open>internal/api/api.go\<close>): the server and its handlers over decoded inputs; \<open>Api_Invariant\<close>:
    handlers only move rounds and rooms forward; \<open>Api_Total\<close>: which calls can panic; \<open>Api_Properties\<close>: the
    gates. \<open>Settlement\<close>: the timer of a staked race, under the assumptions of \<open>Api_Total\<close>.
  \<^item> \<open>Json\<close>, \<open>Bodies\<close> (\<open>writeJSON\<close>, \<open>decode\<close> of \<open>api.go\<close>): values and their bytes, tokens and the scanner of
    \<open>encoding/json\<close> with its nesting limit; bodies of at most a megabyte stored into the handlers' structs.
  \<^item> \<open>Http\<close> (\<open>Routes\<close>, \<open>withCORS\<close>, \<open>writeJSON\<close>): the table of patterns, dispatch, parameters, responses;
    \<open>Http_Client\<close>: what a client sends for each input; \<open>Http_Properties\<close>: what a request comes to;
    \<open>Body_Types\<close>: the types of what a body is decoded to.
  \<^item> \<open>Daily_Game\<close>: the daily game as acts on the store, the specification of the handlers of \<open>/api/daily\<close>
    and \<open>/api/admin\<close>. \<open>Tasks\<close>: the handlers in the sections between which others run; \<open>Sections\<close>: what a
    section relies on and does; \<open>Concurrent\<close>: the step relation of a process with requests in flight and
    timers, and its properties; \<open>Gated\<close>: paid rounds under that interleaving.
  \<^item> \<open>Server\<close>, \<open>Deployment\<close> (\<open>cmd/server/main.go\<close>): the start-up from environment variables; processes that
    serve, drain, end or are killed, one after the other on one database.
  The theories import each other as the packages do; this one adds what spans all of them.

  \<^bold>\<open>State and time.\<close> A server is a record of its parts, a handler a function from request, clock
  readings and state to response and state. Go objects reached through pointers are rooms: the
  manager holds them in a list indexed by reference. What a lock protects is one step: each
  section of \<open>room.go\<close> between \<open>Lock\<close> and \<open>Unlock\<close> reads the clock once, and \<open>room_step\<close> interleaves
  these sections freely, on rooms by reference, stored or not. So it is with all handlers: \<open>task_step\<close> is one call
  under the lock of the store, of a round, of the manager or of a room, or the calls to the chain;
  \<open>finishes_Routes\<close> says that a handler alone does what its sections do, and \<open>serve_step\<close> interleaves the
  sections of all requests. \<open>Create\<close> has four: it publishes the room under the lock of the manager, opens the round of a
  staked room without locks and writes it to the room, or adds the host of a free room, without the lock of
  the room and without the checks of \<open>Join\<close>, and takes the view. Locks that are held for one section
  need no model; the manager's is held for good by a \<open>Create\<close> that finds no code (\<open>Searching\<close>), and the
  sections that need it (\<open>takes_manager\<close>) then wait. Times are nanoseconds since year 1 as integers;
  durations that can wrap are wrapped at 64 bits.

  \<^bold>\<open>Parameters.\<close> Code outside the repository is an argument: \<open>uc\<close> the upper-case table of runes
  beyond ASCII (\<open>case_table\<close> is what is assumed of it), \<open>rng\<close> the generator behind \<open>math/rand\<close>
  (\<open>rng_ok\<close>: draws below the bound), \<open>eth\<close> go-ethereum's calls over a state of the outside world
  (\<open>externals_ok\<close>: a call panics exactly on a nil integer, and has a result),
  \<open>crypto\<close> hashing and signing (\<open>sign_ok\<close>: a signature has 65 bytes and a last byte 0 or 1), the
  persister, \<open>ts\<close> how the database rounds times, and the replies of the database.

  \<^bold>\<open>Bounds.\<close> \<open>dfs\<close> is fuelled with one more than the number of trie nodes: every call descends one
  level of the trie, so the fuel never runs out (shown for all boards of at most 64 cells, where
  the mask can hold every cell). The generators' loops are bounded by the code's own 300 draws,
  \<open>freshRoundID\<close> by its five attempts. \<open>freshCode\<close> may not return: \<open>None\<close> is not returning. A request takes
  at most 92 sections, one per day of a pool and two around them, a listing of rooms one per room and two around them.

  \<^bold>\<open>What is shown.\<close>
  \<^item> Words and racks: the dictionary, the scorer and \<open>FindWords\<close> agree on what a rack yields
    (\<open>FindWords_exact\<close>, \<open>Score_functional\<close>, \<open>Score_accepts_FindWords\<close>, \<open>NewFromWords_contains\<close>,
    \<open>New_reads_lines\<close>); racks are well composed, clear the floor or are the best drawn, and a date
    determines its rack (\<open>drawRack_composition\<close>, \<open>GenerateSolo_playable_or_best\<close>, \<open>GenerateDaily_deterministic\<close>).
  \<^item> Boards: the trie holds its words, the solver finds exactly the traceable ones, boards as racks
    (\<open>NewTrie_holds_words\<close>, \<open>Solve_sound_complete\<close>, \<open>grid_GenerateSolo_correct\<close>, \<open>drawGrid_composition\<close>,
    \<open>grid_GenerateDaily_deterministic\<close>).
  \<^item> Rounds: best scores, ranking, progress, and recovery after a restart (\<open>Submit_keeps_first_best\<close>,
    \<open>Leaderboard_ranks\<close>, \<open>Leaderboard_order_free\<close>, \<open>rounds_only_grow\<close>, \<open>ListPaidDailies_sorted\<close>,
    \<open>restart_restores_paid_round\<close>, \<open>ListPaidDailies_same\<close>). A serving process refines the daily game
    (\<open>server_plays_daily_game\<close>), its scores fit their column (\<open>daily_scores_fit\<close>), a restart answers with the
    same leaderboard (\<open>restart_keeps_leaderboard\<close>), and over any number of processes, killed anywhere, the
    database loses no score (\<open>database_keeps_scores\<close>).
  \<^item> Chain: which replies count and which signatures leave (\<open>HasEntered_exact\<close>, \<open>GetRound_exact\<close>,
    \<open>transactions_ignore_status\<close>, \<open>SignSettlement_form\<close>, \<open>SignSettlement_total\<close>).
  \<^item> Rooms: an invariant of all interleavings (\<open>rooms_consistent\<close>, \<open>rooms_move_forward\<close>), words,
    stakes, views, payouts and settlement (\<open>Submit_accepts\<close>, \<open>view_winner\<close>, \<open>List_shows_open_rooms\<close>,
    \<open>payout_within_pot\<close>, \<open>settled_once\<close>, \<open>settled_pays_winner\<close>); nobody gets into a staked room
    whom the contract does not know (\<open>staked_rooms_entered\<close>, over all sections of a server).
    A staked race that ends in its window is settled by its timer (\<open>race_in_time_settled\<close>). Flaws: a
    later one never is (\<open>late_race_never_settled\<close>), the search for a code may not end (\<open>freshCode_unused\<close>), the host of
    a free room can become its sixth player, stand in it twice or lose words (\<open>late_host\<close>), and a join
    to a staked room whose round is not opened panics (\<open>early_join_panics\<close>).
  \<^item> Server: only who paid is scored on a paid day (\<open>paid_submit_gated\<close>, and over all interleavings
    \<open>leaderboard_gated\<close>), only winners who entered are
    signed for (\<open>sign_settlement_gated\<close>), a pool is registered for exactly its days
    (\<open>create_pool_registers\<close>), requests lose nothing (\<open>requests_move_forward\<close>), what a started process
    is configured for (\<open>started_process\<close>), and every request in flight is answered in a bounded number of
    sections, unless it waits for a search that does not end or is a join that panics (\<open>requests_are_answered\<close>,
    below). A flaw: a submission that passed its gate while the round was free is counted when it has become
    paid (\<open>gate_race\<close>).
  \<^item> HTTP: what a client sends is what the handler gets (\<open>client_reaches_handler\<close>), what the handler replies
    is what the client reads (\<open>replies_are_json\<close>), handlers get values of the types they declare
    (\<open>handlers_get_typed_input\<close>), requests that read change nothing (\<open>reads_are_safe\<close>),
    and requests without a handler are refused as documented (\<open>unserved_requests\<close>).

  \<^bold>\<open>Not modelled.\<close> The HTTP server below the mux (parsing of request lines and headers, the
  redirect of paths that are not clean, which is the argument \<open>unclean\<close>), logging, contexts and their
  timeouts (a call that times out is one that fails), data races: the fields of a round that are
  read without its lock are read at once, and the two writes of the late \<open>addPlayer\<close> of a free room, which has no
  lock, are one step. The contents of the embedded word file.
\<close>

section \<open>The whole process\<close>

lemma sections_bound:
  "task_ok s t req task \<Longrightarrow> sections_left s task \<le> max 92 (2 + length (m_heap (sv_rooms s)))"
  by (cases task) (auto simp: task_ok_def refs_ok_def)

text \<open>
  C12: every request is answered, with two exceptions that are told: in a process started with any word list and any
  environment, with racks of at least two letters for the daily round, a request in flight beside any
  others and timers has its reply, or can take its next section, of which there are fewer every time and at
  most 92, for a listing two more than the rooms ever made. Or it waits for the lock of the manager because
  a \<open>Create\<close> searches under it for a code it never finds, or is such a \<open>Create\<close>; or it was dropped by
  the one panic there is, of a join to a staked room whose round was not opened yet. The code outside the program is
  taken not to panic but for the one thing that is known to, packing a round id that is nil.
\<close>

theorem requests_are_answered:
  assumes "externals_ok V" "server_main V ts connect getenv text ch = Ok p"
    "envInt getenv ''DAILY_RACK_SIZE'' 6 = 0 \<or> 2 \<le> envInt getenv ''DAILY_RACK_SIZE'' 6"
    "serves V (proc_persist p) (serving_from (proc_server p)) log c" "((t, rq), task) \<in> set (sg_flight c)"
  shows "(t, rq) \<in> set log \<and>
    sections_left (sg_server c) task \<le> max 92 (2 + length (m_heap (sv_rooms (sg_server c)))) \<and>
    ((\<exists>r. task = Answered (Some r)) \<or>
     (\<exists>task' s. task_step V (proc_persist p) task (sg_server c) = Some (task', s) \<and>
       sections_left s task' < sections_left (sg_server c) task \<and>
       (task' = Answered None \<longrightarrow> nil_join (sg_server c) task) \<and>
       (takes_manager V (sg_server c) task \<longrightarrow> manager_free c)) \<or>
     takes_manager V (sg_server c) task \<and> (\<exists>r. (r, Searching) \<in> set (sg_flight c)) \<or>
     task \<in> {Searching, Answered None} \<and>
       at_some_point V (proc_persist p) (serving_from (proc_server p)) log c (stuck_why V (t, rq) task))"
proof -
  have ok: "server_ok V (proc_server p)" by (rule server_main_ok [OF assms(2,3)])
  have ct: "case_table (e_uc V)" and mgr: "mgr_ok (e_uc V) (sv_rooms (proc_server p))"
    using assms(1) ok by (simp_all add: externals_ok_def server_ok_def)
  have le: "server_le V (proc_server p) (sg_server c)" and run: "run_ok V log c"
    using serves_inv [OF assms(4) mgr ct] by blast+
  have ok': "server_ok V (sg_server c)" by (rule server_ok_le [OF ok le ct])
  have mgr': "mgr_ok (e_uc V) (sv_rooms (sg_server c))" and fl: "flight_ok log c" using run by (simp_all add: run_ok_def)
  obtain req where req: "(t, rq) \<in> set log" "task_ok (sg_server c) t req task" by (rule flight_okD [OF fl assms(5)])
  note left = sections_bound [OF req(2)]
  show ?thesis
  proof (cases "task_step V (proc_persist p) task (sg_server c)")
    case (Some x)
    obtain task' s where x: "x = (task', s)" by fastforce
    note st = Some [unfolded x]
    have "task' = Answered None \<Longrightarrow> nil_join (sg_server c) task"
      using section_np [OF _ req(2) assms(1) ok'] st by simp
    moreover have "manager_free c \<or> (\<exists>r. (r, Searching) \<in> set (sg_flight c))" by (force simp: manager_free_def)
    ultimately show ?thesis using section_less [OF st mgr' req(2)] st req(1) left by blast
  next
    case None
    then have "(\<exists>r. task = Answered (Some r)) \<or> task \<in> {Searching, Answered None}"
      unfolding task_step_None by (metis insertCI option.exhaust)
    then show ?thesis
      using serves_stuck [OF assms(4,1) ok] assms(5) req(1) left unfolding stuck_ok_def by blast
  qed
qed

theorem requests_are_answered_witness:
  "\<exists>(p :: unit process) c. server_main toy_env (\<lambda>t. t) (\<lambda>_. Panic) (\<lambda>k. []) [] () = Ok p \<and>
    serves toy_env (proc_persist p) (serving_from (proc_server p)) [(toy_time, client Get_daily)] c \<and>
    (\<exists>task' s. task_step toy_env (proc_persist p) (Begin toy_time Get_daily) (sg_server c) = Some (task', s) \<and>
       sections_left s task' < 92)"
proof -
  have "\<exists>p :: unit process. server_main toy_env (\<lambda>t. t) (\<lambda>_. Panic) (\<lambda>k. []) [] () = Ok p"
    by (simp add: server_main_def start_signer_def start_chain_def start_store_def start_writer_def Let_def)
  then obtain p :: "unit process" where p: "server_main toy_env (\<lambda>t. t) (\<lambda>_. Panic) (\<lambda>k. []) [] () = Ok p" by blast
  have "find_handler (client Get_daily) = Some Get_daily" by (rule client_found) (simp_all add: get_rq_def)
  moreover have "is_clean (rq_path (client Get_daily))" by (rule client_clean) simp
  ultimately have h: "handled (client Get_daily) = Some Get_daily" by (simp add: handled_def get_rq_def)
  let ?c = "(serving_from (proc_server p))\<lparr>sg_flight := [((toy_time, client Get_daily), Begin toy_time Get_daily)]\<rparr>"
  have c: "serves toy_env (proc_persist p) (serving_from (proc_server p)) [(toy_time, client Get_daily)] ?c"
    using next_step [OF idle arrives [OF h, of toy_env "proc_persist p" "serving_from (proc_server p)" toy_time]] by simp
  have e: "envInt (\<lambda>k. []) ''DAILY_RACK_SIZE'' 6 = 0 \<or> 2 \<le> envInt (\<lambda>k. []) ''DAILY_RACK_SIZE'' 6"
    by (simp add: envInt_def)
  have "((toy_time, client Get_daily), Begin toy_time Get_daily) \<in> set (sg_flight ?c)" by simp
  from requests_are_answered [OF externals_ok_toy(1) p e c this] p c show ?thesis by auto
qed

end
